(* ===== verification/Prelude.thy ===== *)
theory Prelude
  imports Main "HOL-Library.Word" "HOL-Library.Monad_Syntax" "HOL-Library.While_Combinator"
begin

text \<open>
  What every component of the development shares: the names of the machine types, the reading
  and writing of little-endian 64 bit fields in a byte memory, and the lemmas that say when a
  read sees a write.  A byte memory is a function from positions to bytes; \<open>patch\<close> is the
  effect of \<open>memcpy\<close> on it.

  Results of C functions are values of \<open>'a option\<close>: \<open>None\<close> is a run that
  has no defined result (a null or wild pointer is followed, an access leaves its object, or the
  function never returns); \<open>Some\<close> carries what the function returns and the new state.
\<close>

type_synonym byte = "8 word"
type_synonym u32 = "32 word"
type_synonym u64 = "64 word"

named_theorems mem_simps \<open>reads through writes of byte memories\<close>

section \<open>Byte memories\<close>

definition patch :: "(nat \<Rightarrow> byte) \<Rightarrow> nat \<Rightarrow> byte list \<Rightarrow> nat \<Rightarrow> byte" where
  "patch m p bs = (\<lambda>a. if p \<le> a \<and> a < p + length bs then bs ! (a - p) else m a)"

definition bytes64 :: "u64 \<Rightarrow> byte list" where
  "bytes64 w = map (\<lambda>i. word_of_nat (unat w div 256 ^ i)) [0..<8]"

definition rd64 :: "(nat \<Rightarrow> byte) \<Rightarrow> nat \<Rightarrow> u64" where
  "rd64 m p = word_of_nat (\<Sum>i\<leftarrow>[0..<8]. unat (m (p + i)) * 256 ^ i)"

definition rd_bytes :: "(nat \<Rightarrow> byte) \<Rightarrow> nat \<Rightarrow> nat \<Rightarrow> byte list" where
  "rd_bytes m p n = map m [p..<p + n]"

lemma length_bytes64 [simp]: "length (bytes64 w) = 8"
  by (simp add: bytes64_def)

lemma length_rd_bytes [simp]: "length (rd_bytes m p n) = n"
  by (simp add: rd_bytes_def)

lemma patch_out [mem_simps]: "a < p \<or> p + length bs \<le> a \<Longrightarrow> patch m p bs a = m a"
  by (auto simp: patch_def)

lemma patch_in [mem_simps]: "p \<le> a \<Longrightarrow> a < p + length bs \<Longrightarrow> patch m p bs a = bs ! (a - p)"
  by (auto simp: patch_def)

lemma rd64_cong: "(\<And>i. i < 8 \<Longrightarrow> m (p + i) = m' (p + i)) \<Longrightarrow> rd64 m p = rd64 m' p"
  by (auto simp: rd64_def intro!: arg_cong [where f = sum_list] arg_cong [where f = word_of_nat])

lemma rd_bytes_cong: "(\<And>i. i < n \<Longrightarrow> m (p + i) = m' (p + i)) \<Longrightarrow> rd_bytes m p n = rd_bytes m' p n"
  by (rule nth_equalityI) (auto simp: rd_bytes_def)

lemma rd64_patch_out [mem_simps]:
  "p + 8 \<le> q \<or> q + length bs \<le> p \<Longrightarrow> rd64 (patch m q bs) p = rd64 m p"
  by (rule rd64_cong) (auto simp: patch_def)

lemma rd_bytes_patch_out [mem_simps]:
  "p + n \<le> q \<or> q + length bs \<le> p \<Longrightarrow> rd_bytes (patch m q bs) p n = rd_bytes m p n"
  by (rule rd_bytes_cong) (auto simp: patch_def)

lemma rd_bytes_patch_in:
  "q \<le> p \<Longrightarrow> p + n \<le> q + length bs \<Longrightarrow> rd_bytes (patch m q bs) p n = take n (drop (p - q) bs)"
  by (rule nth_equalityI) (auto simp: rd_bytes_def patch_def)

lemma base256_sum: "(\<Sum>i\<leftarrow>[0..<k]. (n div 256 ^ i mod 256) * 256 ^ i) = n mod 256 ^ k"
  for n :: nat
proof (induction k)
  case 0
  then show ?case by simp
next
  case (Suc k)
  have "n mod 256 ^ Suc k = 256 ^ k * (n div 256 ^ k mod 256) + n mod 256 ^ k"
    by (metis mod_mult2_eq power_Suc2)
  with Suc show ?case by (simp add: mult.commute)
qed

lemma unat_bytes_sum:
  "(\<Sum>i\<leftarrow>[0..<8]. unat (word_of_nat (unat w div 256 ^ i) :: byte) * 256 ^ i) = unat w"
  for w :: u64
proof -
  have "unat w < 256 ^ 8"
    using unsigned_less [of w] by simp
  then have "unat w mod 256 ^ 8 = unat w"
    by (rule mod_less)
  then show ?thesis
    using base256_sum [of "unat w" 8] by (simp add: unsigned_of_nat take_bit_eq_mod)
qed

lemma rd64_patch_in:
  assumes "q \<le> p" and "p - q + 8 \<le> length bs" and "take 8 (drop (p - q) bs) = bytes64 w"
  shows "rd64 (patch m q bs) p = w"
proof -
  have nth: "patch m q bs (p + i) = word_of_nat (unat w div 256 ^ i)" if "i < 8" for i
  proof -
    have "patch m q bs (p + i) = take 8 (drop (p - q) bs) ! i"
      using assms(1,2) that by (auto simp: patch_def)
    also have "\<dots> = word_of_nat (unat w div 256 ^ i)"
      using that by (simp only: assms(3)) (simp add: bytes64_def)
    finally show ?thesis .
  qed
  have "map (\<lambda>i. unat (patch m q bs (p + i)) * 256 ^ i) [0..<8]
      = map (\<lambda>i. unat (word_of_nat (unat w div 256 ^ i) :: byte) * 256 ^ i) [0..<8]"
    by (rule map_cong [OF refl]) (simp add: nth)
  then show ?thesis
    by (simp only: rd64_def unat_bytes_sum) simp
qed

lemma rd64_patch_bytes64 [mem_simps]: "rd64 (patch m p (bytes64 w)) p = w"
  by (rule rd64_patch_in) simp_all

lemma unat_minus_one_nat: "unat c = Suc n \<Longrightarrow> unat (c - 1) = n" for c :: u64
  by (subst unat_minus_one) auto

lemma bind_SomeE: "m \<bind> f = Some y \<Longrightarrow> (\<And>x. m = Some x \<Longrightarrow> f x = Some y \<Longrightarrow> thesis) \<Longrightarrow> thesis"
  by (cases m) auto

end
