(* ===== verification/Pmem_Types.thy ===== *)
theory Pmem_Types
  imports Prelude
begin

text \<open>
  The data of the log-structured heap (\<^verbatim>\<open>project/log_pmem_types.h\<close>): the header \<open>log_t\<close> at offset 0
  of the mapped file, the 4 KiB segments behind it and the log entries inside a segment, and the
  process-local \<open>pmem_t\<close>.

  A persistent pointer (\<open>pmo_t\<close>) is an offset into the mapped file and 0 stands for
  NULL.  The header of a segment (id, successor, used space) is a record; the 4072 bytes behind
  it, \<open>log_entries\<close>, are a byte memory that the code reads through entry pointers at
  any position.  A segment lives at its file offset in \<open>segs\<close>; following a pointer
  that is not the offset of a segment has no defined result.

  GLib's hash table and libpmem2 are not part of the repository: they are the fields of a
  parameter \<open>env\<close>, and what the code relies on is the predicate \<open>glib_ok\<close>.
\<close>

section \<open>Constants and records\<close>

type_synonym pmo = nat

definition SEGMENT_SIZE :: nat where [simp]: "SEGMENT_SIZE = 4096"
definition MIN_LOG_LENGTH :: nat where [simp]: "MIN_LOG_LENGTH = 5 * SEGMENT_SIZE"
definition LOG_SIGNATURE :: string where "LOG_SIGNATURE = ''log is initialized'' @ [CHR 0x00]"
definition CLEANER_THREAD_COUNT :: nat where [simp]: "CLEANER_THREAD_COUNT = 2"
definition EMERGENCY_CLEANER_SEGMENT_COUNT :: nat where [simp]: "EMERGENCY_CLEANER_SEGMENT_COUNT = 1"

text \<open>The sizes the compiler gives the structs (x86-64), and the offset of \<open>data\<close>.\<close>

definition sizeof_log :: nat where [simp]: "sizeof_log = 128"
definition sizeof_segment :: nat where [simp]: "sizeof_segment = 24"
definition sizeof_entry :: nat where [simp]: "sizeof_entry = 32"

text \<open>Bytes of a segment behind its header.\<close>

definition area_size :: nat where [simp]: "area_size = SEGMENT_SIZE - sizeof_segment"

record log_entry =
  e_id :: u64
  e_version :: u64
  e_length :: nat
  e_to_delete :: bool
  e_data :: "byte list"

record segment =
  seg_id :: u64
  next_segment :: pmo
  used_space :: u64
  log_entries :: "nat \<Rightarrow> byte"

record log_hdr =
  signature :: string
  regular_termination :: bool
  head_segment :: pmo
  free_segments :: pmo
  last_free_segment :: pmo
  used_segments :: pmo
  last_used_segment :: pmo
  cleaner_segments :: pmo
  last_cleaner_segment :: pmo
  emergency_cleaner_segments :: pmo
  last_emergency_cleaner_segment :: pmo
  current_id :: u64
  head_position :: nat
  used_segments_count :: u64
  current_emergency_count :: u64

datatype mutex = Update_move | Free_segs | Used_segs | Cleaner_segs | Emergency_segs | Curr_cleaned

record ('h, 'd) pmem =
  plog :: log_hdr
  segs :: "pmo \<rightharpoonup> segment"
  psize :: nat
  hash_table :: 'h
  currently_cleaned :: 'h
  consistent :: bool
  held :: "mutex set"
  durable :: 'd

section \<open>The libraries the code calls\<close>

text \<open>
  \<open>gh_entries\<close> is the list of pairs in the order in which
  \<^verbatim>\<open>g_hash_table_foreach\<close> visits them; \<open>pm_persist\<close> makes a byte range of the
  mapping durable, given what the program sees and what is durable so far.
\<close>

record ('h, 'd) env =
  gh_new :: 'h
  gh_insert :: "'h \<Rightarrow> u64 \<Rightarrow> pmo \<Rightarrow> 'h"
  gh_lookup :: "'h \<Rightarrow> u64 \<Rightarrow> pmo"
  gh_remove :: "'h \<Rightarrow> u64 \<Rightarrow> 'h"
  gh_contains :: "'h \<Rightarrow> u64 \<Rightarrow> bool"
  gh_entries :: "'h \<Rightarrow> (u64 \<times> pmo) list"
  pm_persist :: "nat \<Rightarrow> nat \<Rightarrow> log_hdr \<Rightarrow> (pmo \<rightharpoonup> segment) \<Rightarrow> 'd \<Rightarrow> 'd"

text \<open>What a hash table holds, as a map.\<close>

definition gh_map :: "('h, 'd) env \<Rightarrow> 'h \<Rightarrow> u64 \<rightharpoonup> pmo" where
  "gh_map E h k = (if gh_contains E h k then Some (gh_lookup E h k) else None)"

text \<open>
  The documented behaviour of GLib's hash table: a new table is empty, an insertion replaces
  the value of its key and no other, a removal removes its key and no other, looking up a
  missing key gives NULL, and a traversal visits every pair once.
\<close>

definition glib_ok :: "('h, 'd) env \<Rightarrow> bool" where
  "glib_ok E \<longleftrightarrow>
     gh_map E (gh_new E) = Map.empty \<and>
     (\<forall>h k v. gh_map E (gh_insert E h k v) = (gh_map E h)(k \<mapsto> v)) \<and>
     (\<forall>h k. gh_map E (gh_remove E h k) = (gh_map E h)(k := None)) \<and>
     (\<forall>h k. \<not> gh_contains E h k \<longrightarrow> gh_lookup E h k = 0) \<and>
     (\<forall>h. distinct (map fst (gh_entries E h)) \<and> map_of (gh_entries E h) = gh_map E h)"

section \<open>Pointers\<close>

text \<open>
  \<^verbatim>\<open>log.c\<close> converts between addresses and offsets; \<open>base\<close> is the address
  the file is mapped at.  The rest of the model works on offsets, which these two conversions
  leave unchanged.
\<close>

definition offset_to_pointer :: "u64 \<Rightarrow> u64 \<Rightarrow> u64" where
  "offset_to_pointer base off = (if off = 0 then 0 else base + off)"

definition pointer_to_offset :: "u64 \<Rightarrow> u64 \<Rightarrow> u64" where
  "pointer_to_offset base p = (if p = 0 then 0 else p - base)"

section \<open>State access\<close>

definition lock :: "mutex \<Rightarrow> ('h, 'd) pmem \<Rightarrow> ('h, 'd) pmem option" where
  "lock m st = (if m \<in> held st then None else Some (st\<lparr>held := insert m (held st)\<rparr>))"

definition unlock :: "mutex \<Rightarrow> ('h, 'd) pmem \<Rightarrow> ('h, 'd) pmem" where
  "unlock m st = st\<lparr>held := held st - {m}\<rparr>"

definition upd_log :: "(log_hdr \<Rightarrow> log_hdr) \<Rightarrow> ('h, 'd) pmem \<Rightarrow> ('h, 'd) pmem" where
  "upd_log f st = st\<lparr>plog := f (plog st)\<rparr>"

definition get_seg :: "('h, 'd) pmem \<Rightarrow> pmo \<Rightarrow> segment option" where
  "get_seg st p = (if p = 0 then None else segs st p)"

definition upd_seg :: "pmo \<Rightarrow> (segment \<Rightarrow> segment) \<Rightarrow> ('h, 'd) pmem \<Rightarrow> ('h, 'd) pmem option" where
  "upd_seg p f st = do {
     s \<leftarrow> get_seg st p;
     Some (st\<lparr>segs := (segs st)(p \<mapsto> f s)\<rparr>)
   }"

definition persist :: "('h, 'd) env \<Rightarrow> nat \<Rightarrow> nat \<Rightarrow> ('h, 'd) pmem \<Rightarrow> ('h, 'd) pmem" where
  "persist E off len st = st\<lparr>durable := pm_persist E off len (plog st) (segs st) (durable st)\<rparr>"

text \<open>Offsets of the fields that are persisted on their own.\<close>

definition off_regular_termination :: nat where [simp]: "off_regular_termination = 19"
definition off_last_free_segment :: nat where [simp]: "off_last_free_segment = 40"
definition off_last_emergency :: nat where [simp]: "off_last_emergency = 88"
definition off_head_position :: nat where [simp]: "off_head_position = 104"
definition off_emergency_count :: nat where [simp]: "off_emergency_count = 120"
definition off_next :: nat where [simp]: "off_next = 8"
definition off_used :: nat where [simp]: "off_used = 16"

section \<open>Log entries in a segment\<close>

text \<open>The fields of the entry at position \<open>p\<close> of a segment's entry area.\<close>

definition entry_id :: "(nat \<Rightarrow> byte) \<Rightarrow> nat \<Rightarrow> u64" where
  "entry_id m p = rd64 m p"
definition entry_version :: "(nat \<Rightarrow> byte) \<Rightarrow> nat \<Rightarrow> u64" where
  "entry_version m p = rd64 m (p + 8)"
definition entry_length :: "(nat \<Rightarrow> byte) \<Rightarrow> nat \<Rightarrow> nat" where
  "entry_length m p = unat (rd64 m (p + 16))"
definition entry_to_delete :: "(nat \<Rightarrow> byte) \<Rightarrow> nat \<Rightarrow> bool" where
  "entry_to_delete m p = (m (p + 24) \<noteq> 0)"
definition entry_data :: "(nat \<Rightarrow> byte) \<Rightarrow> nat \<Rightarrow> byte list" where
  "entry_data m p = rd_bytes m (p + 25) (entry_length m p)"
definition entry_size :: "(nat \<Rightarrow> byte) \<Rightarrow> nat \<Rightarrow> nat" where
  "entry_size m p = sizeof_entry + entry_length m p"

text \<open>
  The bytes of an entry in DRAM: \<open>sizeof(log_entry_t)\<close> is 32, the data starts at
  offset 25, so a copy of \<open>32 + length\<close> bytes ends in seven bytes behind the data.
\<close>

definition entry_bytes :: "log_entry \<Rightarrow> byte list" where
  "entry_bytes e = bytes64 (e_id e) @ bytes64 (e_version e) @ bytes64 (word_of_nat (e_length e)) @
     [if e_to_delete e then 1 else 0] @ take (e_length e) (e_data e) @ replicate 7 0"

text \<open>
  An entry pointer is an offset into the file: its segment is found by division, as
  \<^verbatim>\<open>pfree\<close> and \<^verbatim>\<open>update_data\<close> do.
\<close>

definition seg_of :: "pmo \<Rightarrow> pmo" where
  "seg_of off = sizeof_log + ((off - sizeof_log) div SEGMENT_SIZE) * SEGMENT_SIZE"

definition entry_at :: "('h, 'd) pmem \<Rightarrow> pmo \<Rightarrow> (segment \<times> nat) option" where
  "entry_at st off = do {
     s \<leftarrow> (if off < sizeof_log then None else segs st (seg_of off));
     (if seg_of off + sizeof_segment \<le> off \<and> off + sizeof_entry \<le> seg_of off + SEGMENT_SIZE
      then Some (s, off - seg_of off - sizeof_segment) else None)
   }"

text \<open>The offset of the entry at position \<open>p\<close> of the segment at offset \<open>s\<close>.\<close>

definition entry_off :: "pmo \<Rightarrow> nat \<Rightarrow> pmo" where
  "entry_off s p = s + sizeof_segment + p"

text \<open>
  The offset of an address in the mapping and back: NULL and 0 correspond, and any other offset
  comes back unless it wraps around to NULL.
\<close>

lemma pointer_round_trip:
  assumes "off = 0 \<or> base + off \<noteq> 0"
  shows "pointer_to_offset base (offset_to_pointer base off) = off"
  using assms by (auto simp: pointer_to_offset_def offset_to_pointer_def)

end
