(* ===== verification/Seg_Lists.thy ===== *)
theory Seg_Lists
  imports Pmem_Types
begin

text \<open>
  The segment lists.  The header points to the first and the last segment of each list and the
  segments are linked by \<open>next_segment\<close>.  \<open>path\<close> relates a pointer to the segments a
  walk from it visits, \<open>seg_list\<close> a pair of header fields to the list they stand for, and
  \<open>lists_ok\<close> the whole header to the abstract state \<open>lists\<close>: five disjoint lists.
\<close>

section \<open>Paths through successor fields\<close>

definition nexts :: "(pmo \<rightharpoonup> segment) \<Rightarrow> pmo \<rightharpoonup> pmo" where
  "nexts sm s = map_option next_segment (sm s)"

definition ids :: "(pmo \<rightharpoonup> segment) \<Rightarrow> pmo \<rightharpoonup> u64" where
  "ids sm s = map_option seg_id (sm s)"

fun path :: "(pmo \<rightharpoonup> pmo) \<Rightarrow> pmo \<Rightarrow> pmo list \<Rightarrow> pmo \<Rightarrow> bool" where
  "path n p [] q \<longleftrightarrow> p = q"
| "path n p (x # xs) q \<longleftrightarrow> p = x \<and> x \<noteq> 0 \<and> (\<exists>y. n x = Some y \<and> path n y xs q)"

lemma nexts_upd [simp]: "nexts (sm(x \<mapsto> g)) = (nexts sm)(x \<mapsto> next_segment g)"
  by (auto simp: nexts_def fun_eq_iff)

lemma ids_upd [simp]: "ids (sm(x \<mapsto> g)) = (ids sm)(x \<mapsto> seg_id g)"
  by (auto simp: ids_def fun_eq_iff)

lemma nexts_same [simp]: "sm x = Some g \<Longrightarrow> next_segment g' = next_segment g \<Longrightarrow> (nexts sm)(x \<mapsto> next_segment g') = nexts sm"
  by (auto simp: nexts_def fun_eq_iff)

lemma ids_same [simp]: "sm x = Some g \<Longrightarrow> seg_id g' = seg_id g \<Longrightarrow> (ids sm)(x \<mapsto> seg_id g') = ids sm"
  by (auto simp: ids_def fun_eq_iff)

lemma path_append: "path n p (xs @ ys) q \<longleftrightarrow> (\<exists>r. path n p xs r \<and> path n r ys q)"
  by (induction xs arbitrary: p) auto

lemma path_upd [simp]: "x \<notin> set xs \<Longrightarrow> path (n(x := v)) p xs q = path n p xs q"
  by (induction xs arbitrary: p) auto

lemma path_nonzero: "path n p xs q \<Longrightarrow> 0 \<notin> set xs"
  by (induction xs arbitrary: p) auto

lemma path_dom: "path n p xs q \<Longrightarrow> set xs \<subseteq> dom n"
  by (induction xs arbitrary: p) auto

lemma path_0 [simp]: "path n 0 xs q \<longleftrightarrow> xs = [] \<and> q = 0"
  by (cases xs) auto

lemma path_unique: "path n p xs 0 \<Longrightarrow> path n p ys 0 \<Longrightarrow> xs = ys"
proof (induction xs arbitrary: p ys)
  case Nil
  then show ?case by simp
next
  case (Cons x xs)
  then show ?case by (cases ys) auto
qed

lemma path_last: "path n p xs q \<Longrightarrow> xs \<noteq> [] \<Longrightarrow> n (last xs) = Some q"
  by (induction xs arbitrary: p) auto

lemma path_first: "path n p xs 0 \<Longrightarrow> p = (if xs = [] then 0 else hd xs)"
  by (cases xs) auto

lemma path_enq:
  assumes "path n p xs 0" and "xs \<noteq> []" and "distinct xs" and "y \<notin> set xs" and "path m y ys q"
    and "\<And>x. x \<in> set (butlast xs) \<Longrightarrow> m x = n x" and "m (last xs) = Some y"
  shows "path m p (xs @ ys) q"
proof -
  have *: "path n p (butlast xs @ [last xs]) 0"
    using assms(1,2) by simp
  then obtain r where r: "path n p (butlast xs) r" "path n r [last xs] 0"
    by (auto simp only: path_append)
  have "path m p us r" if "path n p us r" and "\<And>x. x \<in> set us \<Longrightarrow> m x = n x" for us p
    using that by (induction us arbitrary: p) auto
  from this [OF r(1) assms(6)] have "path m p (butlast xs) r" .
  moreover have "path m r [last xs] y"
    using r(2) assms(7) by auto
  ultimately have "path m p (butlast xs @ [last xs]) y"
    by (auto simp only: path_append)
  then show ?thesis
    using assms(2,5) by (auto simp: path_append)
qed

lemma path_snoc:
  assumes "path n p xs 0" and "distinct (xs @ [y])" and "y \<noteq> 0" and "xs \<noteq> []"
  shows "path (n(last xs \<mapsto> y, y \<mapsto> 0)) p (xs @ [y]) 0"
proof (rule path_enq [OF assms(1,4)])
  have ne: "last xs \<noteq> y"
    using assms(2,4) by (metis distinct_append disjoint_iff last_in_set list.set_intros(1))
  then show "(n(last xs \<mapsto> y, y \<mapsto> 0)) (last xs) = Some y"
    by simp
  show "(n(last xs \<mapsto> y, y \<mapsto> 0)) x = n x" if "x \<in> set (butlast xs)" for x
  proof -
    have "x \<noteq> last xs"
      using that assms(2,4) by (metis append_butlast_last_id distinct_append distinct_butlast
          not_distinct_conv_prefix)
    moreover have "x \<noteq> y"
      using that assms(2) by (auto dest: in_set_butlastD)
    ultimately show ?thesis by simp
  qed
qed (use assms in auto)

lemma path_remove_hd:
  "path n p (y # ys) q \<Longrightarrow> path n (the (n y)) ys q"
  by auto

lemma path_remove:
  assumes "path n p (xs @ y # ys) q" and "distinct (xs @ y # ys)" and "xs \<noteq> []" and "n y = Some z"
  shows "path (n(last xs \<mapsto> z)) p (xs @ ys) q"
proof -
  have eq: "xs @ zs = butlast xs @ [last xs] @ zs" for zs
    using assms(3) by simp
  have "path n p (butlast xs @ [last xs] @ y # ys) q"
    using assms(1) by (simp only: eq)
  then obtain r r' where r: "path n p (butlast xs) r" "path n r [last xs] r'" "path n r' (y # ys) q"
    by (auto simp only: path_append)
  have nin: "last xs \<notin> set (butlast xs)" "last xs \<notin> set ys"
    using assms(2,3) by (auto simp: disjoint_iff)
      (metis append_butlast_last_id distinct_append distinct_butlast not_distinct_conv_prefix)
  have "path (n(last xs \<mapsto> z)) p (butlast xs @ [last xs] @ ys) q"
    unfolding path_append
  proof (intro exI conjI)
    show "path (n(last xs \<mapsto> z)) p (butlast xs) r"
      using r(1) nin(1) by simp
    show "path (n(last xs \<mapsto> z)) r [last xs] z"
      using r(2) by auto
    show "path (n(last xs \<mapsto> z)) z ys q"
      using r(3) nin(2) assms(4) by auto
  qed
  then show ?thesis
    by (simp only: eq)
qed

section \<open>Lists with a last pointer\<close>

definition last_of :: "pmo list \<Rightarrow> pmo" where
  "last_of xs = (if xs = [] then 0 else last xs)"

lemma dom_nexts [simp]: "dom (nexts sm) = dom sm"
  by (auto simp: nexts_def dom_def)

definition seg_list :: "(pmo \<rightharpoonup> pmo) \<Rightarrow> pmo \<Rightarrow> pmo \<Rightarrow> pmo list \<Rightarrow> bool" where
  "seg_list n first lst xs \<longleftrightarrow> path n first xs 0 \<and> lst = last_of xs"

lemma last_of_simps [simp]: "last_of [] = 0" "last_of (xs @ [x]) = x" "xs \<noteq> [] \<Longrightarrow> last_of xs = last xs"
  by (simp_all add: last_of_def)

lemma seg_list_Nil [simp]: "seg_list n first lst [] \<longleftrightarrow> first = 0 \<and> lst = 0"
  by (auto simp: seg_list_def)

lemma seg_list_upd [simp]: "x \<notin> set xs \<Longrightarrow> seg_list (n(x := v)) first lst xs = seg_list n first lst xs"
  by (simp add: seg_list_def)

lemma seg_list_0_iff: "seg_list n first lst xs \<Longrightarrow> (lst = 0 \<longleftrightarrow> xs = []) \<and> (first = 0 \<longleftrightarrow> xs = [])"
  using path_nonzero [of n first xs 0] last_in_set [of xs]
  by (cases xs) (auto simp: seg_list_def last_of_def simp del: last_in_set,
      metis gr0I last_in_set)

lemma seg_list_same_ends: "seg_list n p p xs \<Longrightarrow> distinct xs \<Longrightarrow> xs = [] \<or> xs = [p]"
  by (cases xs) (auto simp: seg_list_def last_of_def split: if_splits)

lemma seg_list_singleton: "y \<noteq> 0 \<Longrightarrow> n y = Some 0 \<Longrightarrow> seg_list n y y [y]"
  by (simp add: seg_list_def)

lemma seg_list_snoc:
  "seg_list n first lst xs \<Longrightarrow> distinct (xs @ [y]) \<Longrightarrow> y \<noteq> 0 \<Longrightarrow> lst \<noteq> 0 \<Longrightarrow>
   seg_list (n(lst \<mapsto> y, y \<mapsto> 0)) first y (xs @ [y])"
  using seg_list_0_iff [of n first lst xs] path_snoc [of n first xs y] by (auto simp: seg_list_def)

lemma seg_list_tl:
  "seg_list n first lst (x # xs) \<Longrightarrow> n x = Some y \<Longrightarrow> y \<noteq> 0 \<Longrightarrow> seg_list n y lst xs"
  by (auto simp: seg_list_def last_of_def)

lemma seg_list_ConsD:
  "seg_list n first lst (x # xs) \<Longrightarrow>
   first = x \<and> x \<noteq> 0 \<and> (\<exists>y. n x = Some y \<and> seg_list n y (if y = 0 then 0 else lst) xs)"
  by (cases xs) (auto simp: seg_list_def last_of_def)

lemma seg_list_last_in: "seg_list n first lst xs \<Longrightarrow> lst \<noteq> 0 \<Longrightarrow> lst \<in> set xs"
  by (auto simp: seg_list_def last_of_def split: if_splits)

lemma seg_list_last_next: "seg_list n first lst xs \<Longrightarrow> lst \<noteq> 0 \<Longrightarrow> n lst = Some 0"
  by (auto simp: seg_list_def last_of_def dest: path_last split: if_splits)

lemma seg_list_enq:
  assumes "seg_list n first lst xs" and "distinct (xs @ [y])" and "y \<noteq> 0"
  shows "seg_list ((if lst = 0 then n else n(lst \<mapsto> y))(y \<mapsto> 0)) (if lst = 0 then y else first) y (xs @ [y])"
  using assms seg_list_0_iff [OF assms(1)] seg_list_snoc [OF assms]
  by (cases "lst = 0") (auto simp: seg_list_singleton)

lemma seg_list_enq0:
  assumes "seg_list n first lst xs" and "distinct (xs @ [y])" and "y \<noteq> 0" and "n y = Some 0"
  shows "seg_list (if lst = 0 then n else n(lst \<mapsto> y)) (if lst = 0 then y else first) y (xs @ [y])"
proof -
  have "lst \<noteq> y"
    using seg_list_last_in [OF assms(1)] assms(2,3) by auto
  then have "(if lst = 0 then n else n(lst \<mapsto> y))(y \<mapsto> 0) = (if lst = 0 then n else n(lst \<mapsto> y))"
    using assms(4) by (auto simp: fun_eq_iff)
  then show ?thesis
    using seg_list_enq [OF assms(1-3)] by simp
qed

lemma seg_list_dom: "seg_list n first lst xs \<Longrightarrow> set xs \<subseteq> dom n \<and> 0 \<notin> set xs"
  by (auto simp: seg_list_def dest: path_dom path_nonzero)

section \<open>The abstract state of the header\<close>

record lists =
  l_head :: "pmo list"
  l_free :: "pmo list"
  l_used :: "pmo list"
  l_cleaner :: "pmo list"
  l_emergency :: "pmo list"

definition all_segs :: "lists \<Rightarrow> pmo list" where
  "all_segs A = l_head A @ l_free A @ l_used A @ l_cleaner A @ l_emergency A"

definition lists_ok :: "log_hdr \<Rightarrow> (pmo \<rightharpoonup> segment) \<Rightarrow> lists \<Rightarrow> bool" where
  "lists_ok l sm A \<longleftrightarrow>
     seg_list (nexts sm) (head_segment l) (head_segment l) (l_head A) \<and>
     seg_list (nexts sm) (free_segments l) (last_free_segment l) (l_free A) \<and>
     seg_list (nexts sm) (used_segments l) (last_used_segment l) (l_used A) \<and>
     seg_list (nexts sm) (cleaner_segments l) (last_cleaner_segment l) (l_cleaner A) \<and>
     seg_list (nexts sm) (emergency_cleaner_segments l) (last_emergency_cleaner_segment l) (l_emergency A) \<and>
     distinct (all_segs A) \<and> inj_on (ids sm) (set (all_segs A)) \<and>
     unat (current_emergency_count l) = length (l_emergency A)"

text \<open>What the lists do not need: the ids, used spaces and entries of all segments.\<close>

definition seg_data :: "(pmo \<rightharpoonup> segment) \<Rightarrow> pmo \<rightharpoonup> u64 \<times> u64 \<times> (nat \<Rightarrow> byte)" where
  "seg_data sm s = map_option (\<lambda>g. (seg_id g, used_space g, log_entries g)) (sm s)"

lemma seg_data_upd [simp]:
  "seg_data (sm(x \<mapsto> g)) = (seg_data sm)(x \<mapsto> (seg_id g, used_space g, log_entries g))"
  by (auto simp: seg_data_def fun_eq_iff)

lemma seg_data_same [simp]:
  "sm x = Some g \<Longrightarrow> (seg_data sm)(x \<mapsto> (seg_id g, used_space g, log_entries g)) = seg_data sm"
  by (auto simp: seg_data_def fun_eq_iff)

lemma lists_ok_head_single: "lists_ok l sm A \<Longrightarrow> l_head A = [] \<or> l_head A = [head_segment l]"
  by (rule seg_list_same_ends) (auto simp: lists_ok_def all_segs_def)

lemma lists_ok_dom: "lists_ok l sm A \<Longrightarrow> x \<in> set (all_segs A) \<Longrightarrow> x \<noteq> 0 \<and> (\<exists>g. sm x = Some g)"
proof -
  assume *: "lists_ok l sm A" and x: "x \<in> set (all_segs A)"
  have "set (all_segs A) \<subseteq> dom sm \<and> 0 \<notin> set (all_segs A)"
    using * by (auto simp: lists_ok_def all_segs_def dest!: seg_list_dom)
  with x show "x \<noteq> 0 \<and> (\<exists>g. sm x = Some g)"
    by (metis domD subsetD)
qed

definition same_rest :: "('h, 'd) pmem \<Rightarrow> ('h, 'd) pmem \<Rightarrow> bool" where
  "same_rest st st' \<longleftrightarrow> psize st' = psize st \<and> hash_table st' = hash_table st \<and>
     consistent st' = consistent st \<and> held st' = held st \<and> currently_cleaned st' = currently_cleaned st"

definition list_frame :: "('h, 'd) pmem \<Rightarrow> ('h, 'd) pmem \<Rightarrow> bool" where
  "list_frame st st' \<longleftrightarrow>
     same_rest st st' \<and> signature (plog st') = signature (plog st) \<and>
     current_id (plog st') = current_id (plog st) \<and>
     regular_termination (plog st') = regular_termination (plog st) \<and>
     ids (segs st') = ids (segs st)"

text \<open>The result of a run that changed the header to \<open>l\<close>, the links to \<open>n\<close> and the data to \<open>d\<close>.\<close>

definition relinked ::
  "('h, 'd) pmem \<Rightarrow> log_hdr \<Rightarrow> (pmo \<rightharpoonup> pmo) \<Rightarrow> (pmo \<rightharpoonup> u64 \<times> u64 \<times> (nat \<Rightarrow> byte)) \<Rightarrow> ('h, 'd) pmem \<Rightarrow> bool" where
  "relinked st l n d st' \<longleftrightarrow>
     same_rest st st' \<and> seg_data (segs st') = d \<and> plog st' = l \<and> nexts (segs st') = n"

lemma ids_seg_data: "ids sm s = map_option fst (seg_data sm s)"
  by (simp add: ids_def seg_data_def option.map_comp comp_def)

lemma nextsE: "nexts sm x = Some y \<Longrightarrow> (\<And>g. sm x = Some g \<Longrightarrow> next_segment g = y \<Longrightarrow> thesis) \<Longrightarrow> thesis"
  by (auto simp: nexts_def)

lemma same_rest_refl [simp]: "same_rest st st"
  by (simp add: same_rest_def)

lemma list_frame_refl [simp]: "list_frame st st"
  by (simp add: list_frame_def)

lemma list_frame_trans: "list_frame st st' \<Longrightarrow> list_frame st' st'' \<Longrightarrow> list_frame st st''"
  by (simp add: list_frame_def same_rest_def)

lemma relinked_trans: "relinked st l n d st' \<Longrightarrow> relinked st' l' n' d' st'' \<Longrightarrow> relinked st l' n' d' st''"
  by (simp add: relinked_def same_rest_def)

lemma seg_data_ids: "seg_data sm = seg_data sm' \<Longrightarrow> ids sm = ids sm'"
  by (simp add: ids_seg_data fun_eq_iff)

lemma relinked_seg_ids [simp]: "map_option fst \<circ> seg_data sm = ids sm"
  "seg_data sm x = Some (i, u, m) \<Longrightarrow> map_option fst \<circ> (seg_data sm)(x \<mapsto> (i, u', m')) = ids sm"
  by (auto simp: ids_seg_data fun_eq_iff)

lemma relinked_frame:
  "relinked st l n d st' \<Longrightarrow> signature l = signature (plog st) \<Longrightarrow> current_id l = current_id (plog st) \<Longrightarrow>
   regular_termination l = regular_termination (plog st) \<Longrightarrow> map_option fst \<circ> d = ids (segs st) \<Longrightarrow> list_frame st st'"
  using relinked_seg_ids(1) [of "segs st'"] by (simp add: relinked_def list_frame_def)

lemma lists_okD:
  assumes "lists_ok l sm A"
  shows "seg_list (nexts sm) (head_segment l) (head_segment l) (l_head A)"
    and "seg_list (nexts sm) (free_segments l) (last_free_segment l) (l_free A)"
    and "seg_list (nexts sm) (used_segments l) (last_used_segment l) (l_used A)"
    and "seg_list (nexts sm) (cleaner_segments l) (last_cleaner_segment l) (l_cleaner A)"
    and "seg_list (nexts sm) (emergency_cleaner_segments l) (last_emergency_cleaner_segment l) (l_emergency A)"
    and "distinct (all_segs A)" and "inj_on (ids sm) (set (all_segs A))"
    and "unat (current_emergency_count l) = length (l_emergency A)"
  using assms by (simp_all add: lists_ok_def)

lemma lists_okI:
  assumes "relinked st l n d st'" and "inj_on (ids (segs st)) (set (all_segs A))"
    and "\<And>s. map_option fst (d s) = map_option fst (seg_data (segs st) s)"
    and "seg_list n (head_segment l) (head_segment l) (l_head A')"
    and "seg_list n (free_segments l) (last_free_segment l) (l_free A')"
    and "seg_list n (used_segments l) (last_used_segment l) (l_used A')"
    and "seg_list n (cleaner_segments l) (last_cleaner_segment l) (l_cleaner A')"
    and "seg_list n (emergency_cleaner_segments l) (last_emergency_cleaner_segment l) (l_emergency A')"
    and "distinct (all_segs A')" and "set (all_segs A') \<subseteq> set (all_segs A)"
    and "unat (current_emergency_count l) = length (l_emergency A')"
  shows "lists_ok (plog st') (segs st') A'"
proof -
  have "ids (segs st') = ids (segs st)"
    using assms(1,3) by (intro ext) (simp add: ids_seg_data relinked_def)
  with assms show ?thesis
    by (auto simp: lists_ok_def relinked_def intro: inj_on_subset)
qed

section \<open>Access to the state\<close>

named_theorems access_simps \<open>the primitive accesses to the state, unfolded\<close>

lemmas access_defs [access_simps] =
  lock_def unlock_def upd_log_def get_seg_def upd_seg_def persist_def

lemma relinked_upd_log:
  "relinked st l n d st' \<Longrightarrow> relinked st (f l) n d (upd_log f st')"
  "relinked st l n d st' \<Longrightarrow> relinked st l n d (persist E off k st')"
  by (auto simp: relinked_def same_rest_def access_simps)

section \<open>Removing a segment from a list\<close>

lemma path_cong: "(\<And>x. x \<in> set xs \<Longrightarrow> n x = m x) \<Longrightarrow> path n p xs q = path m p xs q"
  by (induction xs arbitrary: p) auto

lemma seg_list_cong: "seg_list n a b xs \<Longrightarrow> (\<And>x. x \<in> set xs \<Longrightarrow> m x = n x) \<Longrightarrow> seg_list m a b xs"
  using path_cong [of xs n m] by (auto simp: seg_list_def)

lemma seg_list_remove:
  assumes "seg_list n first lst (xs @ y # ys)" and "distinct (xs @ y # ys)" and "n y = Some z"
  shows "seg_list (if xs = [] then n else n(last xs \<mapsto> z)) (if xs = [] then z else first)
    (if ys = [] then last_of xs else lst) (xs @ ys)"
proof (cases "xs = []")
  case True
  with assms show ?thesis by (auto simp: seg_list_def last_of_def)
next
  case False
  with path_remove [of n first xs y ys 0 z] assms show ?thesis
    by (auto simp: seg_list_def last_of_def)
qed

lemma unlink_ends:
  assumes l: "seg_list (nexts sm) first lst (xs @ y # ys)" and d: "distinct (xs @ y # ys)"
    and inj: "inj_on (ids sm) (set (xs @ y # ys))" and y: "ids sm y = Some i" "nexts sm y = Some z"
  obtains g1 g2 g gp where "sm first = Some g1" "first \<noteq> 0" "seg_id g1 = i \<longleftrightarrow> xs = []"
    and "sm lst = Some g2" "lst \<noteq> 0" "seg_id g2 = i \<longleftrightarrow> ys = []"
    and "sm y = Some g" "next_segment g = z" "y \<noteq> 0" "ys = [] \<Longrightarrow> z = 0"
    and "xs \<noteq> [] \<Longrightarrow> sm (last xs) = Some gp \<and> last xs \<noteq> 0"
proof -
  have first: "first = hd (xs @ [y])" and lst: "lst = last (y # ys)"
    using l by (cases xs; auto simp: seg_list_def last_of_def)+
  have dom: "x \<in> set (xs @ y # ys) \<Longrightarrow> x \<noteq> 0 \<and> (\<exists>g. sm x = Some g)" for x
    using seg_list_dom [OF l] by (metis domD dom_nexts subsetD)
  have idn: "x \<in> set (xs @ y # ys) \<Longrightarrow> sm x = Some g \<Longrightarrow> seg_id g = i \<longleftrightarrow> x = y" for x g
    using inj y(1) by (auto simp: ids_def inj_on_def)
  have mem: "first \<in> set (xs @ y # ys)" "lst \<in> set (xs @ y # ys)" "xs \<noteq> [] \<Longrightarrow> last xs \<in> set (xs @ y # ys)"
    "y \<in> set (xs @ y # ys)"
    by (cases xs; simp add: first lst)+
  have eq: "first = y \<longleftrightarrow> xs = []" "lst = y \<longleftrightarrow> ys = []"
    using d last_in_set [of ys] by (cases xs; auto simp: first lst)+
  have z: "ys = [] \<Longrightarrow> z = 0"
    using seg_list_last_next [OF l] y(2) dom [OF mem(2)] by (auto simp: lst)
  obtain g1 g2 g where g: "sm first = Some g1" "sm lst = Some g2" "sm y = Some g"
    using dom [OF mem(1)] dom [OF mem(2)] dom [OF mem(4)] by auto
  obtain gp where pred: "xs \<noteq> [] \<Longrightarrow> sm (last xs) = Some gp \<and> last xs \<noteq> 0"
    using dom [OF mem(3)] by auto
  have succ: "next_segment g = z"
    using g(3) y(2) by (simp add: nexts_def)
  have nz: "first \<noteq> 0" "lst \<noteq> 0" "y \<noteq> 0"
    using dom [OF mem(1)] dom [OF mem(2)] dom [OF mem(4)] by auto
  have "seg_id g1 = i \<longleftrightarrow> xs = []" "seg_id g2 = i \<longleftrightarrow> ys = []"
    using idn [OF mem(1) g(1)] idn [OF mem(2) g(2)] eq by auto
  then show ?thesis
    using that g succ nz pred z by blast
qed

lemma seg_list_concat:
  assumes "seg_list n f1 l1 xs" and "seg_list n f2 l2 ys" and "distinct (xs @ ys)" and "ys \<noteq> []"
  shows "seg_list (if l1 = 0 then n else n(l1 \<mapsto> f2)) (if l1 = 0 then f2 else f1) l2 (xs @ ys)"
proof (cases "xs = []")
  case True
  with assms show ?thesis by simp
next
  case False
  then have l1: "l1 \<noteq> 0" "l1 = last xs" "f2 = hd ys"
    using seg_list_0_iff [OF assms(1)] assms path_first [of n f2 ys] by (auto simp: seg_list_def)
  have "path (n(last xs \<mapsto> hd ys)) f1 (xs @ ys) 0"
  proof (rule path_enq)
    show "path n f1 xs 0" using assms(1) by (simp add: seg_list_def)
    show "path (n(last xs \<mapsto> hd ys)) (hd ys) ys 0"
    proof -
      have "last xs \<notin> set ys" using assms(3) last_in_set [OF False] by auto
      then show ?thesis using assms(2) l1(3) by (simp add: seg_list_def)
    qed
    show "x \<in> set (butlast xs) \<Longrightarrow> (n(last xs \<mapsto> hd ys)) x = n x" for x
      using assms(3) False by (metis append_butlast_last_id distinct_append fun_upd_other not_distinct_conv_prefix)
    show "hd ys \<notin> set xs" using assms(3,4) by (cases ys) auto
  qed (use assms False in simp_all)
  with l1 assms(2,4) show ?thesis
    by (simp add: seg_list_def last_of_def)
qed

end
