(* ===== verification/Log.thy ===== *)
theory Log
  imports Seg_Lists
begin

text \<open>
  The log (\<^verbatim>\<open>project/log.c\<close>): its initialisation, appending an entry to the head
  segment, retiring the head segment and taking the next free one, generating ids, and the
  count of segments that decides whether the mapping may be written.
\<close>

section \<open>The hash table as the log sees it\<close>

text \<open>\<^verbatim>\<open>hash_table_contains\<close> is called by \<^verbatim>\<open>gen_id\<close>.\<close>

definition hash_table_contains :: "('h, 'd) env \<Rightarrow> ('h, 'd) pmem \<Rightarrow> u64 \<Rightarrow> bool" where
  "hash_table_contains E st k = gh_contains E (hash_table st) k"

section \<open>Operations\<close>

definition is_log_initialized :: "('h, 'd) pmem \<Rightarrow> bool" where
  "is_log_initialized st \<longleftrightarrow> signature (plog st) = LOG_SIGNATURE"

text \<open>
  The loop of \<^verbatim>\<open>init_log\<close> that writes the header of the segments that become free
  segments: \<open>cur\<close> is the segment to write, \<open>i\<close> the byte counter, \<open>n\<close> the
  next id; the result ends in the last written segment and the one behind it.
\<close>

function init_segments ::
  "('h, 'd) env \<Rightarrow> nat \<Rightarrow> nat \<Rightarrow> nat \<Rightarrow> pmo \<Rightarrow> pmo \<Rightarrow> ('h, 'd) pmem \<Rightarrow> (pmo \<times> pmo \<times> nat \<times> ('h, 'd) pmem) option"
where
  "init_segments E limit i n prev cur st =
     (if i < limit then do {
        st \<leftarrow> upd_seg cur (\<lambda>s. s\<lparr>seg_id := word_of_nat n, used_space := 0\<rparr>) st;
        st \<leftarrow> upd_seg cur (\<lambda>s. s\<lparr>next_segment := cur + SEGMENT_SIZE\<rparr>) st;
        init_segments E limit (i + SEGMENT_SIZE) (n + 1) cur (cur + SEGMENT_SIZE)
          (persist E cur sizeof_segment st)
      }
      else Some (prev, cur, n, st))"
  by pat_completeness auto
termination
  by (relation "measure (\<lambda>(E, limit, i, n, prev, cur, st). limit - i)") auto

declare init_segments.simps [simp del]

definition init_log :: "('h, 'd) env \<Rightarrow> ('h, 'd) pmem \<Rightarrow> ('h, 'd) pmem option" where
  "init_log E st = do {
     let first = sizeof_log;
     let st = upd_log (\<lambda>l. l\<lparr>head_segment := 0, free_segments := first, used_segments := 0,
       last_used_segment := 0, cleaner_segments := 0, last_cleaner_segment := 0, current_id := 0,
       head_position := 0, used_segments_count := 0,
       current_emergency_count := word_of_nat EMERGENCY_CLEANER_SEGMENT_COUNT\<rparr>) st;
     let st = persist E 0 sizeof_log st;
     (prev, cur, n, st) \<leftarrow> init_segments E
       (psize st - SEGMENT_SIZE * (EMERGENCY_CLEANER_SEGMENT_COUNT + 1)) 0 0 0 first st;
     st \<leftarrow> upd_seg prev (\<lambda>s. s\<lparr>next_segment := 0\<rparr>) st;
     let st = persist E (prev + off_next) 8 st;
     let st = upd_log (\<lambda>l. l\<lparr>last_free_segment := prev\<rparr>) st;
     let st = persist E off_last_free_segment 8 st;
     let st = upd_log (\<lambda>l. l\<lparr>emergency_cleaner_segments := cur\<rparr>) st;
     (prev, cur, n, st) \<leftarrow> init_segments E
       (EMERGENCY_CLEANER_SEGMENT_COUNT * SEGMENT_SIZE) 0 n prev cur st;
     st \<leftarrow> upd_seg prev (\<lambda>s. s\<lparr>next_segment := 0\<rparr>) st;
     let st = persist E (prev + off_next) 8 st;
     let st = upd_log (\<lambda>l. l\<lparr>last_emergency_cleaner_segment := prev\<rparr>) st;
     let st = persist E off_last_emergency 8 st;
     let st = upd_log (\<lambda>l. l\<lparr>head_segment := free_segments l\<rparr>) st;
     s \<leftarrow> get_seg st (free_segments (plog st));
     let st = upd_log (\<lambda>l. l\<lparr>free_segments := next_segment s\<rparr>) st;
     let st = persist E 0 sizeof_log st;
     st \<leftarrow> upd_seg (head_segment (plog st)) (\<lambda>s. s\<lparr>next_segment := 0\<rparr>) st;
     let st = persist E (head_segment (plog st) + off_next) 8 st;
     let st = upd_log (\<lambda>l. l\<lparr>signature := LOG_SIGNATURE\<rparr>) st;
     Some (persist E 0 (length LOG_SIGNATURE) st)
   }"

text \<open>
  The head segment joins the used segments and the first free segment becomes the head.  The
  result says whether the function failed (returned 1): no segment is free.
\<close>

definition append_head_to_used ::
  "('h, 'd) env \<Rightarrow> ('h, 'd) pmem \<Rightarrow> ('h, 'd) pmem option" where
  "append_head_to_used E st = do {
     st \<leftarrow> lock Used_segs st;
     st \<leftarrow> (if last_used_segment (plog st) = 0
            then Some (upd_log (\<lambda>l. l\<lparr>used_segments := head_segment l\<rparr>) st)
            else do {
              let last = last_used_segment (plog st);
              st \<leftarrow> upd_seg last (\<lambda>s. s\<lparr>next_segment := head_segment (plog st)\<rparr>) st;
              Some (persist E (last + off_next) 8 st)
            });
     let st = upd_log (\<lambda>l. l\<lparr>last_used_segment := head_segment l,
       used_segments_count := used_segments_count l + 1\<rparr>) st;
     Some (unlock Used_segs st)
   }"

definition take_head_segment ::
  "('h, 'd) env \<Rightarrow> ('h, 'd) pmem \<Rightarrow> (bool \<times> ('h, 'd) pmem) option" where
  "take_head_segment E st =
     (if free_segments (plog st) = 0
      then Some (True, persist E 0 sizeof_log (upd_log (\<lambda>l. l\<lparr>head_segment := 0\<rparr>) st))
      else do {
        st \<leftarrow> lock Free_segs st;
        let st = upd_log (\<lambda>l. l\<lparr>head_segment := free_segments l\<rparr>) st;
        s \<leftarrow> get_seg st (free_segments (plog st));
        let st = upd_log (\<lambda>l. l\<lparr>free_segments := next_segment s\<rparr>) st;
        let st = (if free_segments (plog st) = 0 then upd_log (\<lambda>l. l\<lparr>last_free_segment := 0\<rparr>) st
                  else st);
        let st = persist E 0 sizeof_log st;
        let st = unlock Free_segs st;
        st \<leftarrow> upd_seg (head_segment (plog st)) (\<lambda>s. s\<lparr>next_segment := 0\<rparr>) st;
        let st = persist E (head_segment (plog st) + off_next) 8 st;
        let st = upd_log (\<lambda>l. l\<lparr>head_position := 0\<rparr>) st;
        Some (False, persist E off_head_position 8 st)
      })"

definition append_head_to_used_segments_and_get_new_head_segment ::
  "('h, 'd) env \<Rightarrow> ('h, 'd) pmem \<Rightarrow> (bool \<times> ('h, 'd) pmem) option" where
  "append_head_to_used_segments_and_get_new_head_segment E st = do {
     st \<leftarrow> (if head_segment (plog st) \<noteq> 0 then append_head_to_used E st else Some st);
     take_head_segment E st
   }"

text \<open>A copy into the entry area of a segment; it has to end inside the segment.\<close>

definition write_area :: "pmo \<Rightarrow> nat \<Rightarrow> byte list \<Rightarrow> ('h, 'd) pmem \<Rightarrow> ('h, 'd) pmem option" where
  "write_area s p bs st =
     (if p + length bs \<le> area_size
      then upd_seg s (\<lambda>g. g\<lparr>log_entries := patch (log_entries g) p bs\<rparr>) st else None)"

text \<open>
  \<^verbatim>\<open>append_to_log\<close> marks the rest of a full segment with an entry of length 0, as long
  as an entry header still fits.
\<close>

definition mark_unused_space :: "('h, 'd) env \<Rightarrow> ('h, 'd) pmem \<Rightarrow> ('h, 'd) pmem option" where
  "mark_unused_space E st =
     (if area_size - head_position (plog st) \<ge> sizeof_entry
      then do {
        let h = head_segment (plog st);
        let p = head_position (plog st);
        st \<leftarrow> write_area h (p + 16) (bytes64 0) st;
        Some (persist E (entry_off h p + 16) 8 st)
      }
      else Some st)"

definition write_head :: "('h, 'd) env \<Rightarrow> log_entry \<Rightarrow> ('h, 'd) pmem \<Rightarrow> (pmo \<times> ('h, 'd) pmem) option" where
  "write_head E e st = do {
     let h = head_segment (plog st);
     let p = head_position (plog st);
     let n = sizeof_entry + e_length e;
     st \<leftarrow> write_area h p (entry_bytes e) st;
     let st = persist E (entry_off h p) n st;
     st \<leftarrow> upd_seg h (\<lambda>s. s\<lparr>used_space := used_space s + word_of_nat n\<rparr>) st;
     let st = persist E (h + off_used) 8 st;
     let st = upd_log (\<lambda>l. l\<lparr>head_position := head_position l + n\<rparr>) st;
     Some (entry_off h p, persist E off_head_position 8 st)
   }"

definition append_to_log ::
  "('h, 'd) env \<Rightarrow> ('h, 'd) pmem \<Rightarrow> log_entry \<Rightarrow> (pmo \<times> ('h, 'd) pmem) option" where
  "append_to_log E st e = do {
     let n = sizeof_entry + e_length e;
     (failed, st) \<leftarrow> (if head_segment (plog st) = 0
       then append_head_to_used_segments_and_get_new_head_segment E st else Some (False, st));
     if failed then Some (0, st) else do {
       (failed, st) \<leftarrow> (if area_size - head_position (plog st) < n
         then do {
           st \<leftarrow> mark_unused_space E st;
           append_head_to_used_segments_and_get_new_head_segment E st
         }
         else Some (False, st));
       if failed then Some (0, st) else write_head E e st
     }
   }"

text \<open>\<open>next_id\<close> is one draw of \<^verbatim>\<open>gen_id\<close>: the counter, and once more if it gave 0.\<close>

definition next_id :: "u64 \<Rightarrow> u64 \<times> u64" where
  "next_id c = (if c = 0 then (1, 2) else (c, c + 1))"

partial_function (option) gen_id_loop :: "(u64 \<Rightarrow> bool) \<Rightarrow> u64 \<Rightarrow> u64 \<Rightarrow> (u64 \<times> u64) option" where
  "gen_id_loop used i c = (if used i then gen_id_loop used (fst (next_id c)) (snd (next_id c)) else Some (i, c))"

definition gen_id :: "('h, 'd) env \<Rightarrow> ('h, 'd) pmem \<Rightarrow> (u64 \<times> ('h, 'd) pmem) option" where
  "gen_id E st = do {
     let (i, c) = next_id (current_id (plog st));
     (i, c) \<leftarrow> gen_id_loop (hash_table_contains E st) i c;
     Some (i, upd_log (\<lambda>l. l\<lparr>current_id := c\<rparr>) st)
   }"

partial_function (option) count_segments :: "(pmo \<rightharpoonup> segment) \<Rightarrow> pmo \<Rightarrow> nat \<Rightarrow> nat option" where
  "count_segments sm p n = (if p = 0 then Some n
     else case sm p of None \<Rightarrow> None | Some s \<Rightarrow> count_segments sm (next_segment s) (n + 1))"

definition check_consistency :: "('h, 'd) pmem \<Rightarrow> ('h, 'd) pmem option" where
  "check_consistency st = do {
     let expected = (psize st - sizeof_log) div SEGMENT_SIZE;
     n \<leftarrow> count_segments (segs st) (head_segment (plog st)) 0;
     n \<leftarrow> count_segments (segs st) (free_segments (plog st)) n;
     n \<leftarrow> count_segments (segs st) (used_segments (plog st)) n;
     n \<leftarrow> count_segments (segs st) (cleaner_segments (plog st)) n;
     n \<leftarrow> count_segments (segs st) (emergency_cleaner_segments (plog st)) n;
     Some (st\<lparr>consistent := (n = expected)\<rparr>)
   }"

section \<open>The list operations refine operations on lists\<close>

text \<open>
  The abstract effect of retiring the head: it ends the used list, and the first free segment,
  if there is one, is the new head.
\<close>

definition abs_new_head :: "lists \<Rightarrow> lists" where
  "abs_new_head A = (case l_free A of
      [] \<Rightarrow> A\<lparr>l_head := [], l_used := l_used A @ l_head A\<rparr>
    | s # ss \<Rightarrow> A\<lparr>l_head := [s], l_free := ss, l_used := l_used A @ l_head A\<rparr>)"

lemma take_head_segment_run:
  assumes "free_segments (plog st) \<noteq> 0" and "nexts (segs st) (free_segments (plog st)) = Some y" and "Free_segs \<notin> held st"
  shows "\<exists>st'. take_head_segment E st = Some (False, st') \<and>
    relinked st ((plog st)\<lparr>head_segment := free_segments (plog st), free_segments := y,
        last_free_segment := (if y = 0 then 0 else last_free_segment (plog st)), head_position := 0\<rparr>)
      ((nexts (segs st))(free_segments (plog st) \<mapsto> 0)) (seg_data (segs st)) st'"
  using assms by (auto simp: take_head_segment_def access_simps Let_def relinked_def same_rest_def elim!: nextsE)

lemma append_head_to_used_run:
  assumes "last_used_segment (plog st) \<noteq> 0 \<Longrightarrow> nexts (segs st) (last_used_segment (plog st)) \<noteq> None"
    and "Used_segs \<notin> held st"
  shows "\<exists>st'. append_head_to_used E st = Some st' \<and>
    relinked st ((plog st)\<lparr>used_segments := (if last_used_segment (plog st) = 0 then head_segment (plog st) else used_segments (plog st)),
        last_used_segment := head_segment (plog st), used_segments_count := used_segments_count (plog st) + 1\<rparr>)
      (if last_used_segment (plog st) = 0 then nexts (segs st)
       else (nexts (segs st))(last_used_segment (plog st) \<mapsto> head_segment (plog st))) (seg_data (segs st)) st'"
  using assms by (auto simp: append_head_to_used_def access_simps Let_def relinked_def same_rest_def elim!: nextsE)

lemma new_head_refines:
  assumes ok: "lists_ok (plog st) (segs st) A" and h: "Used_segs \<notin> held st" "Free_segs \<notin> held st"
  shows "\<exists>st'. append_head_to_used_segments_and_get_new_head_segment E st = Some (l_free A = [], st') \<and>
     list_frame st st' \<and> lists_ok (plog st') (segs st') (abs_new_head A) \<and>
     head_position (plog st') = (if l_free A = [] then head_position (plog st) else 0) \<and>
     seg_data (segs st') = seg_data (segs st)"
proof -
  note okD = lists_okD [OF ok]
  let ?h = "head_segment (plog st)" and ?lu = "last_used_segment (plog st)" and ?n = "nexts (segs st)"
  have head: "l_head A = (if ?h = 0 then [] else [?h])"
    using lists_ok_head_single [OF ok] okD(1) seg_list_0_iff by force
  define n1 where "n1 = (if ?h = 0 \<or> ?lu = 0 then ?n else ?n(?lu \<mapsto> ?h))"
  define l1 where "l1 = (if ?h = 0 then plog st else
    (plog st)\<lparr>used_segments := (if ?lu = 0 then ?h else used_segments (plog st)),
      last_used_segment := ?h, used_segments_count := used_segments_count (plog st) + 1\<rparr>)"
  have "?lu \<noteq> 0 \<Longrightarrow> ?n ?lu \<noteq> None"
    using seg_list_last_next [OF okD(3)] by simp
  then obtain st1 where st1: "(if ?h \<noteq> 0 then append_head_to_used E st else Some st) = Some st1"
    and r1: "relinked st l1 n1 (seg_data (segs st)) st1"
    using append_head_to_used_run [of st E] h(1)
    by (cases "?h = 0") (auto simp: n1_def l1_def relinked_def same_rest_def)
  have nh: "?h \<noteq> 0 \<Longrightarrow> ?n ?h = Some 0"
    using seg_list_last_next [OF okD(1)] by simp
  have used: "seg_list n1 (used_segments l1) (last_used_segment l1) (l_used A @ l_head A)"
  proof (cases "?h = 0")
    case True
    with okD(3) head show ?thesis by (simp add: n1_def l1_def)
  next
    case False
    with okD(6) head have "distinct (l_used A @ [?h])" by (simp add: all_segs_def)
    from seg_list_enq0 [OF okD(3) this False nh [OF False]] False head show ?thesis
      by (simp add: n1_def l1_def split: if_splits)
  qed
  have other: "seg_list n1 a b xs" if "seg_list ?n a b xs" and "set xs \<inter> set (l_used A) = {}" for a b xs
  proof -
    have "?lu \<noteq> 0 \<Longrightarrow> ?lu \<notin> set xs"
      using seg_list_last_in [OF okD(3)] that(2) by blast
    with that(1) show ?thesis by (simp add: n1_def)
  qed
  have sep: "set xs \<inter> set (l_used A) = {}" if "xs \<in> {l_free A, l_cleaner A, l_emergency A}" for xs
    using okD(6) that by (auto simp: all_segs_def)
  note lists1 = other [OF okD(2) sep] other [OF okD(4) sep] other [OF okD(5) sep]
  have frees: "free_segments l1 = free_segments (plog st)" "last_free_segment l1 = last_free_segment (plog st)"
    "head_segment l1 = ?h" "current_id l1 = current_id (plog st)" "head_position l1 = head_position (plog st)"
    "cleaner_segments l1 = cleaner_segments (plog st)" "last_cleaner_segment l1 = last_cleaner_segment (plog st)"
    "emergency_cleaner_segments l1 = emergency_cleaner_segments (plog st)"
    "last_emergency_cleaner_segment l1 = last_emergency_cleaner_segment (plog st)"
    "signature l1 = signature (plog st)" "regular_termination l1 = regular_termination (plog st)"
    "current_emergency_count l1 = current_emergency_count (plog st)"
    by (simp_all add: l1_def)
  have run: "append_head_to_used_segments_and_get_new_head_segment E st = take_head_segment E st1"
    using st1 by (simp add: append_head_to_used_segments_and_get_new_head_segment_def)
  show ?thesis
  proof (cases "l_free A")
    case Nil
    then have f0: "free_segments (plog st1) = 0"
      using okD(2) r1 by (simp add: relinked_def frees)
    have r2: "relinked st (l1\<lparr>head_segment := 0\<rparr>) n1 (seg_data (segs st)) (persist E 0 sizeof_log (upd_log (\<lambda>l. l\<lparr>head_segment := 0\<rparr>) st1))"
      by (rule relinked_upd_log(2) [OF relinked_upd_log(1) [OF r1]])
    have "lists_ok (plog (persist E 0 sizeof_log (upd_log (\<lambda>l. l\<lparr>head_segment := 0\<rparr>) st1)))
      (segs (persist E 0 sizeof_log (upd_log (\<lambda>l. l\<lparr>head_segment := 0\<rparr>) st1))) (abs_new_head A)"
      using lists_okI [OF r2 okD(7) refl, of "abs_new_head A"] lists1 used okD(6,8) Nil r2
      by (auto simp: abs_new_head_def all_segs_def frees relinked_def)
    with r2 run f0 Nil show ?thesis
      using relinked_frame [OF r2] by (auto simp: take_head_segment_def frees relinked_def)
  next
    case (Cons f fs)
    then obtain y where f: "free_segments (plog st) = f" "f \<noteq> 0" "n1 f = Some y"
      "seg_list n1 y (if y = 0 then 0 else last_free_segment (plog st)) fs"
      using seg_list_ConsD [of n1 _ _ f fs] lists1(1) by auto
    obtain st2 where st2: "take_head_segment E st1 = Some (False, st2)" and r2: "relinked st (l1\<lparr>head_segment := f, free_segments := y,
        last_free_segment := (if y = 0 then 0 else last_free_segment l1), head_position := 0\<rparr>) (n1(f \<mapsto> 0)) (seg_data (segs st)) st2"
      using take_head_segment_run [of st1 y E] f h r1 relinked_trans [OF r1]
      by (auto simp: relinked_def same_rest_def frees)
    have "lists_ok (plog st2) (segs st2) (abs_new_head A)"
      by (rule lists_okI [OF r2 okD(7) refl])
        (use lists1 used okD(6,8) Cons f in \<open>auto simp: abs_new_head_def all_segs_def frees seg_list_singleton\<close>)
    with r2 run st2 Cons show ?thesis
      using relinked_frame [OF r2] by (auto simp: relinked_def frees)
  qed
qed

text \<open>
  Retiring the head segment appends it to the used segments and makes the first free segment the new
  head, empty; without a free segment there is no head afterwards and the call fails.  No segment
  changes but for its link.
\<close>

lemma new_head_moves_segments:
  assumes "lists_ok (plog st) (segs st) A" and "Used_segs \<notin> held st" and "Free_segs \<notin> held st"
  shows "\<exists>st'. append_head_to_used_segments_and_get_new_head_segment E st = Some (l_free A = [], st') \<and>
    lists_ok (plog st') (segs st') (abs_new_head A) \<and> held st' = held st \<and>
    head_position (plog st') = (if l_free A = [] then head_position (plog st) else 0) \<and>
    seg_data (segs st') = seg_data (segs st)"
  using new_head_refines [OF assms, of E] by (auto simp: list_frame_def same_rest_def)

end
