(* ===== verification/Hash_Table.thy ===== *)
theory Hash_Table
  imports Log
begin

text \<open>
  The volatile index from ids to entry offsets (\<^verbatim>\<open>project/hash_table.c\<close>): the wrappers
  around GLib's hash table, the reconstruction of the index from the segments after a crash, and
  the index saved to a second file on a regular shutdown and loaded at the next start.
\<close>

section \<open>Wrappers\<close>

definition init_hash_table :: "('h, 'd) env \<Rightarrow> ('h, 'd) pmem \<Rightarrow> ('h, 'd) pmem" where
  "init_hash_table E st = st\<lparr>hash_table := gh_new E\<rparr>"

definition add_to_hash_table :: "('h, 'd) env \<Rightarrow> u64 \<Rightarrow> pmo \<Rightarrow> ('h, 'd) pmem \<Rightarrow> ('h, 'd) pmem" where
  "add_to_hash_table E k off st = st\<lparr>hash_table := gh_insert E (hash_table st) k off\<rparr>"

definition get_from_hash_table :: "('h, 'd) env \<Rightarrow> ('h, 'd) pmem \<Rightarrow> u64 \<Rightarrow> pmo" where
  "get_from_hash_table E st k = gh_lookup E (hash_table st) k"

definition remove_from_hash_table :: "('h, 'd) env \<Rightarrow> u64 \<Rightarrow> ('h, 'd) pmem \<Rightarrow> ('h, 'd) pmem" where
  "remove_from_hash_table E k st = st\<lparr>hash_table := gh_remove E (hash_table st) k\<rparr>"

section \<open>Reconstruction after a crash\<close>

text \<open>
  The body that the three scans share: an entry that is not marked deleted enters the table if
  its id is missing there or its version is newer than the version of the entry the table has.
\<close>

definition reindex_entry ::
  "('h, 'd) env \<Rightarrow> pmo \<Rightarrow> (nat \<Rightarrow> byte) \<Rightarrow> nat \<Rightarrow> ('h, 'd) pmem \<Rightarrow> ('h, 'd) pmem option" where
  "reindex_entry E s m p st =
     (if entry_to_delete m p then Some st
      else if hash_table_contains E st (entry_id m p)
      then do {
        (g, q) \<leftarrow> entry_at st (get_from_hash_table E st (entry_id m p));
        if entry_version (log_entries g) q < entry_version m p
        then Some (add_to_hash_table E (entry_id m p) (entry_off s p) st)
        else Some st
      }
      else Some (add_to_hash_table E (entry_id m p) (entry_off s p) st))"

text \<open>The scan of one used segment, from position \<open>p\<close>.\<close>

function scan_used :: "('h, 'd) env \<Rightarrow> pmo \<Rightarrow> (nat \<Rightarrow> byte) \<Rightarrow> nat \<Rightarrow> ('h, 'd) pmem \<Rightarrow> ('h, 'd) pmem option" where
  "scan_used E s m p st =
     (if p < area_size - sizeof_entry then
        if entry_length m p = 0 then Some st
        else do {
          st \<leftarrow> reindex_entry E s m p st;
          scan_used E s m (p + entry_size m p) st
        }
      else Some st)"
  by pat_completeness auto
termination
  by (relation "measure (\<lambda>(E, s, m, p, st). area_size - p)") (auto simp: entry_size_def)

text \<open>The used segments, one after the other.\<close>

partial_function (option) scan_used_list ::
  "('h, 'd) env \<Rightarrow> pmo \<Rightarrow> ('h, 'd) pmem \<Rightarrow> ('h, 'd) pmem option" where
  "scan_used_list E s st =
     (if s = 0 then Some st
      else do {
        g \<leftarrow> get_seg st s;
        st \<leftarrow> scan_used E s (log_entries g) 0 st;
        scan_used_list E (next_segment g) st
      })"

text \<open>The scan of the head segment stops at the head position; the access has to stay inside the segment.\<close>

function scan_head :: "('h, 'd) env \<Rightarrow> pmo \<Rightarrow> (nat \<Rightarrow> byte) \<Rightarrow> nat \<Rightarrow> nat \<Rightarrow> ('h, 'd) pmem \<Rightarrow> ('h, 'd) pmem option" where
  "scan_head E s m hp p st =
     (if p < hp then
        if area_size < p + sizeof_entry then None
        else do {
          st \<leftarrow> reindex_entry E s m p st;
          scan_head E s m hp (p + entry_size m p) st
        }
      else Some st)"
  by pat_completeness auto
termination
  by (relation "measure (\<lambda>(E, s, m, hp, p, st). hp - p)") (auto simp: entry_size_def)

text \<open>
  The scan of a cleaner segment goes on while the position is below the used space plus the
  space of the deleted entries seen so far.
\<close>

function scan_cleaner :: "('h, 'd) env \<Rightarrow> pmo \<Rightarrow> (nat \<Rightarrow> byte) \<Rightarrow> u64 \<Rightarrow> nat \<Rightarrow> nat \<Rightarrow> ('h, 'd) pmem \<Rightarrow> ('h, 'd) pmem option" where
  "scan_cleaner E s m used freed p st =
     (if p < unat (used + word_of_nat freed) then
        if area_size < p + sizeof_entry then None
        else do {
          st \<leftarrow> reindex_entry E s m p st;
          scan_cleaner E s m used
            (if entry_to_delete m p then freed + entry_size m p else freed) (p + entry_size m p) st
        }
      else Some st)"
  by pat_completeness auto
termination
  by (relation "measure (\<lambda>(E, s, m, used, freed, p, st). area_size - p)") (auto simp: entry_size_def)

declare scan_used.simps [simp del] scan_head.simps [simp del] scan_cleaner.simps [simp del]

text \<open>
  The loop over the cleaner segments.  Its step expression,
  \<^verbatim>\<open>for(;cleaner_seg; offset_to_pointer(pmem, cleaner_seg->next_segment))\<close>, computes the
  successor and drops it, so the loop variable never changes.  The state of the loop is the
  variable and the program state, \<open>None\<close> once an access failed.
\<close>

definition cleaner_loop_body ::
  "('h, 'd) env \<Rightarrow> pmo \<times> ('h, 'd) pmem option \<Rightarrow> pmo \<times> ('h, 'd) pmem option" where
  "cleaner_loop_body E c = (case c of (s, st) \<Rightarrow>
     (s, do {
       st \<leftarrow> st;
       g \<leftarrow> get_seg st s;
       scan_cleaner E s (log_entries g) (used_space g) 0 0 st
     }))"

definition cleaner_loop_guard :: "pmo \<times> ('h, 'd) pmem option \<Rightarrow> bool" where
  "cleaner_loop_guard c \<longleftrightarrow> fst c \<noteq> 0 \<and> snd c \<noteq> None"

definition scan_cleaner_list ::
  "('h, 'd) env \<Rightarrow> pmo \<Rightarrow> ('h, 'd) pmem \<Rightarrow> ('h, 'd) pmem option" where
  "scan_cleaner_list E s st = do {
     c \<leftarrow> while_option cleaner_loop_guard (cleaner_loop_body E) (s, Some st);
     snd c
   }"

definition reconstruct_hash_table :: "('h, 'd) env \<Rightarrow> ('h, 'd) pmem \<Rightarrow> ('h, 'd) pmem option" where
  "reconstruct_hash_table E st = do {
     st \<leftarrow> scan_used_list E (used_segments (plog st)) st;
     st \<leftarrow> (if head_segment (plog st) = 0 then Some st
       else do {
         g \<leftarrow> get_seg st (head_segment (plog st));
         scan_head E (head_segment (plog st)) (log_entries g) (head_position (plog st)) 0 st
       });
     scan_cleaner_list E (cleaner_segments (plog st)) st
   }"

section \<open>The saved index\<close>

text \<open>
  The second file: \<open>hf_data\<close> is its array of key-value pairs, as long as the file.  The fields of
  \<open>hash_io\<close> say which of the calls succeed: the two \<^verbatim>\<open>malloc\<close>s of the path and the one of
  the descriptor, the system calls, and those of libpmem2.
\<close>

record hash_file =
  hf_persisted :: bool
  hf_counter :: nat
  hf_data :: "(u64 \<times> pmo) list"

record hash_io =
  io_path :: bool
  io_malloc :: bool
  io_init_path :: bool
  io_open :: bool
  io_truncate :: bool
  io_cfg_new :: bool
  io_granularity :: bool
  io_source :: bool
  io_map :: bool
  io_source_delete :: bool
  io_cfg_delete :: bool
  io_map_delete :: bool
  io_close :: bool

text \<open>
  What the functions hold and have not yet handed to the call that gives it back; \<open>Hash_mem\<close> is the
  descriptor \<^verbatim>\<open>hpmem\<close>.  Then the error paths, which go through each other.
\<close>

datatype hash_resource = Hash_mem | Hash_path | Hash_fd | Hash_cfg | Hash_src | Hash_map

definition err_config_hash :: "hash_resource set \<Rightarrow> hash_resource set" where
  "err_config_hash R = R - {Hash_fd}"
definition err_granularity_hash :: "hash_resource set \<Rightarrow> hash_resource set" where
  "err_granularity_hash R = err_config_hash (R - {Hash_cfg})"
definition err_map_hash :: "hash_resource set \<Rightarrow> hash_resource set" where
  "err_map_hash R = err_granularity_hash (R - {Hash_src})"
definition err_src_delete_hash :: "hash_resource set \<Rightarrow> hash_resource set" where
  "err_src_delete_hash R = err_map_hash (R - {Hash_map})"

definition delete_hash_pmem :: "hash_io \<Rightarrow> hash_resource set \<Rightarrow> bool \<times> hash_resource set" where
  "delete_hash_pmem io R = (\<not> io_map_delete io \<or> \<not> io_close io, R - {Hash_map} - {Hash_fd})"

definition blank_file :: hash_file where
  "blank_file = \<lparr>hf_persisted = False, hf_counter = 0, hf_data = []\<rparr>"

definition resize :: "nat \<Rightarrow> (u64 \<times> pmo) list \<Rightarrow> (u64 \<times> pmo) list" where
  "resize n xs = take n xs @ replicate (n - length xs) (0, 0)"

text \<open>
  \<^verbatim>\<open>init_hash_pmem\<close> opens the file, creating it if needed.  When the table holds pairs the
  file is resized to hold exactly those.  The result is whether it failed, what is held, and the file.
  The path is used without a look at what \<^verbatim>\<open>malloc\<close> returned: \<open>None\<close> is the write through NULL.
\<close>

definition init_hash_pmem ::
  "('h, 'd) env \<Rightarrow> hash_io \<Rightarrow> ('h, 'd) pmem \<Rightarrow> hash_file option \<Rightarrow> hash_resource set \<Rightarrow>
   (bool \<times> hash_resource set \<times> hash_file option) option" where
  "init_hash_pmem E io st file R =
     (if \<not> io_init_path io then None
      else let R = insert Hash_path R in
        if \<not> io_open io then Some (True, R - {Hash_path}, file)
        else let
            f = (case file of None \<Rightarrow> blank_file | Some f \<Rightarrow> f);
            R = insert Hash_fd R;
            n = length (gh_entries E (hash_table st)) in
          if n \<noteq> 0 \<and> \<not> io_truncate io then Some (True, R - {Hash_path} - {Hash_fd}, Some f)
          else let
              file = Some (if n \<noteq> 0 then f\<lparr>hf_data := resize n (hf_data f)\<rparr> else f);
              R = R - {Hash_path};
              R_cfg = insert Hash_cfg R;
              R_src = insert Hash_src R_cfg;
              R_map = insert Hash_map R_src in
            if \<not> io_cfg_new io then Some (True, err_config_hash R, file)
            else if \<not> io_granularity io then Some (True, err_granularity_hash R_cfg, file)
            else if \<not> io_source io then Some (True, err_granularity_hash R_cfg, file)
            else if \<not> io_map io then Some (True, err_map_hash R_src, file)
            else if \<not> io_source_delete io then Some (True, err_src_delete_hash R_map, file)
            else if \<not> io_cfg_delete io then Some (True, err_src_delete_hash (R_map - {Hash_src}), file)
            else Some (False, R_map - {Hash_src} - {Hash_cfg}, file))"

text \<open>The callback of \<^verbatim>\<open>g_hash_table_foreach\<close>; the write has to stay inside the file.\<close>

definition persist_key_value_pair :: "u64 \<times> pmo \<Rightarrow> hash_file \<Rightarrow> hash_file option" where
  "persist_key_value_pair kv f =
     (if hf_counter f < length (hf_data f)
      then Some (f\<lparr>hf_data := (hf_data f)[hf_counter f := kv], hf_counter := hf_counter f + 1\<rparr>)
      else None)"

fun persist_pairs :: "(u64 \<times> pmo) list \<Rightarrow> hash_file \<Rightarrow> hash_file option" where
  "persist_pairs [] f = Some f"
| "persist_pairs (kv # kvs) f = do { f \<leftarrow> persist_key_value_pair kv f; persist_pairs kvs f }"

text \<open>\<^verbatim>\<open>persist_hash_table\<close> returns whether it failed; then what is still held, and the file it leaves behind.\<close>

definition persist_hash_table ::
  "('h, 'd) env \<Rightarrow> hash_io \<Rightarrow> ('h, 'd) pmem \<Rightarrow> hash_file option \<Rightarrow>
   (bool \<times> hash_resource set \<times> hash_file option) option" where
  "persist_hash_table E io st file =
     (if gh_entries E (hash_table st) = [] then Some (False, {}, file)
      else if \<not> io_malloc io then Some (True, {}, file)
      else do {
        (failed, R, file) \<leftarrow> init_hash_pmem E io st file {Hash_mem};
        (if failed then Some (True, R - {Hash_mem}, file)
         else do {
           f \<leftarrow> file;
           let f = f\<lparr>hf_persisted := False, hf_counter := 0\<rparr>;
           f \<leftarrow> persist_pairs (gh_entries E (hash_table st)) f;
           let f = f\<lparr>hf_persisted := True\<rparr>;
           Some (False, snd (delete_hash_pmem io R) - {Hash_mem}, Some f)
         })
      })"

text \<open>
  \<^verbatim>\<open>get_persisted_hash_table\<close> loads the pairs of the file; it fails (the caller then
  reconstructs) when there is no file, it cannot be mapped, or it was not written to the end.
\<close>

fun load_pairs :: "('h, 'd) env \<Rightarrow> nat \<Rightarrow> (u64 \<times> pmo) list \<Rightarrow> ('h, 'd) pmem \<Rightarrow> ('h, 'd) pmem option" where
  "load_pairs E 0 kvs st = Some st"
| "load_pairs E (Suc n) [] st = None"
| "load_pairs E (Suc n) (kv # kvs) st = load_pairs E n kvs (add_to_hash_table E (fst kv) (snd kv) st)"

definition get_persisted_hash_table ::
  "('h, 'd) env \<Rightarrow> hash_io \<Rightarrow> ('h, 'd) pmem \<Rightarrow> hash_file option \<Rightarrow>
   (bool \<times> hash_resource set \<times> hash_file option \<times> ('h, 'd) pmem) option" where
  "get_persisted_hash_table E io st file =
     (if \<not> io_path io then None
      else if file = None then Some (True, {Hash_path} - {Hash_path}, file, st)
      else let R = {Hash_path} - {Hash_path} in
        if \<not> io_malloc io then Some (True, R, file, st)
        else do {
          (failed, R, file) \<leftarrow> init_hash_pmem E io st file (insert Hash_mem R);
          (if failed then Some (True, R - {Hash_mem}, file, st)
           else do {
             f \<leftarrow> file;
             (if \<not> hf_persisted f then Some (True, snd (delete_hash_pmem io R) - {Hash_mem}, file, st)
              else do {
                st \<leftarrow> load_pairs E (hf_counter f) (hf_data f) st;
                Some (False, snd (delete_hash_pmem io R) - {Hash_mem}, file, st)
              })
           })
        })"

end
