(* ===== verification/Cleaner.thy ===== *)
theory Cleaner
  imports Hash_Table
begin

text \<open>
  The cleaner (\<^verbatim>\<open>project/cleaner.c\<close>): moving segments between the lists of used, free,
  cleaner and emergency segments, and copying the live entries of a sparsely used segment into
  a cleaner segment.  A cleaner thread repeats \<open>clean_pass\<close> for ever; the model has one
  pass.  Waiting (\<^verbatim>\<open>sleep(1)\<close> until another thread frees a segment) has no result in a
  run of one thread.
\<close>

section \<open>Which segments are cleaned\<close>

definition wait_to_start_cleaning :: "('h, 'd) pmem \<Rightarrow> bool" where
  "wait_to_start_cleaning st \<longleftrightarrow>
     unat (used_segments_count (plog st)) < (psize st div SEGMENT_SIZE) div 2"

definition to_clean :: "segment \<Rightarrow> bool" where
  "to_clean g \<longleftrightarrow> unat (used_space g) < SEGMENT_SIZE div 2"

definition test_and_set_curr_cleaned ::
  "('h, 'd) env \<Rightarrow> segment \<Rightarrow> ('h, 'd) pmem \<Rightarrow> (bool \<times> ('h, 'd) pmem) option" where
  "test_and_set_curr_cleaned E g st = do {
     st \<leftarrow> lock Curr_cleaned st;
     let ret = gh_contains E (currently_cleaned st) (seg_id g);
     let st = (if \<not> ret
       then st\<lparr>currently_cleaned := gh_insert E (currently_cleaned st) (seg_id g) (unat (seg_id g))\<rparr>
       else st);
     Some (\<not> ret, unlock Curr_cleaned st)
   }"

definition unset_curr_cleaned :: "('h, 'd) env \<Rightarrow> segment \<Rightarrow> ('h, 'd) pmem \<Rightarrow> ('h, 'd) pmem" where
  "unset_curr_cleaned E g st = st\<lparr>currently_cleaned := gh_remove E (currently_cleaned st) (seg_id g)\<rparr>"

section \<open>Taking a segment for the cleaner\<close>

text \<open>The result 0 is the NULL of the code: no segment is left.\<close>

definition get_emergency_cleaner_segment ::
  "('h, 'd) env \<Rightarrow> ('h, 'd) pmem \<Rightarrow> (pmo \<times> ('h, 'd) pmem) option" where
  "get_emergency_cleaner_segment E st =
     (if emergency_cleaner_segments (plog st) = 0 then Some (0, st)
      else do {
        st \<leftarrow> lock Cleaner_segs st;
        st \<leftarrow> lock Emergency_segs st;
        let last = last_cleaner_segment (plog st);
        let new = emergency_cleaner_segments (plog st);
        st \<leftarrow> (if last = 0 then Some (upd_log (\<lambda>l. l\<lparr>cleaner_segments := new\<rparr>) st)
          else do {
            st \<leftarrow> upd_seg last (\<lambda>s. s\<lparr>next_segment := new\<rparr>) st;
            Some (persist E (last + off_next) 8 st)
          });
        let st = upd_log (\<lambda>l. l\<lparr>last_cleaner_segment := new\<rparr>) st;
        g \<leftarrow> get_seg st new;
        let st = upd_log (\<lambda>l. l\<lparr>emergency_cleaner_segments := next_segment g\<rparr>) st;
        let st = (if emergency_cleaner_segments (plog st) = 0
          then upd_log (\<lambda>l. l\<lparr>last_emergency_cleaner_segment := 0\<rparr>) st else st);
        let st = persist E 0 sizeof_log st;
        let st = upd_log (\<lambda>l. l\<lparr>current_emergency_count := current_emergency_count l - 1\<rparr>) st;
        let st = persist E off_emergency_count 8 st;
        let st = unlock Emergency_segs st;
        let last = last_cleaner_segment (plog st);
        st \<leftarrow> upd_seg last (\<lambda>s. s\<lparr>next_segment := 0\<rparr>) st;
        let st = persist E (last + off_next) 8 st;
        Some (last, unlock Cleaner_segs st)
      })"

definition get_new_cleaner_segment ::
  "('h, 'd) env \<Rightarrow> ('h, 'd) pmem \<Rightarrow> (pmo \<times> ('h, 'd) pmem) option" where
  "get_new_cleaner_segment E st =
     (if free_segments (plog st) = 0 then get_emergency_cleaner_segment E st
      else do {
        st \<leftarrow> lock Cleaner_segs st;
        st \<leftarrow> lock Free_segs st;
        let last = last_cleaner_segment (plog st);
        let new = free_segments (plog st);
        st \<leftarrow> (if last = 0 then Some (upd_log (\<lambda>l. l\<lparr>cleaner_segments := new\<rparr>) st)
          else do {
            st \<leftarrow> upd_seg last (\<lambda>s. s\<lparr>next_segment := new\<rparr>) st;
            Some (persist E (last + off_next) 8 st)
          });
        let st = upd_log (\<lambda>l. l\<lparr>last_cleaner_segment := new\<rparr>) st;
        g \<leftarrow> get_seg st new;
        let st = upd_log (\<lambda>l. l\<lparr>free_segments := next_segment g\<rparr>) st;
        let st = persist E 0 sizeof_log st;
        let st = (if free_segments (plog st) = 0
          then upd_log (\<lambda>l. l\<lparr>last_free_segment := 0\<rparr>) st else st);
        let st = unlock Free_segs st;
        let last = last_cleaner_segment (plog st);
        st \<leftarrow> upd_seg last (\<lambda>s. s\<lparr>next_segment := 0\<rparr>) st;
        let st = persist E (last + off_next) 8 st;
        Some (last, unlock Cleaner_segs st)
      })"

section \<open>Giving segments back\<close>

definition refill_emergency_cleaner_segment ::
  "('h, 'd) env \<Rightarrow> pmo \<Rightarrow> ('h, 'd) pmem \<Rightarrow> ('h, 'd) pmem option" where
  "refill_emergency_cleaner_segment E cur st = do {
     st \<leftarrow> lock Emergency_segs st;
     let last = last_emergency_cleaner_segment (plog st);
     st \<leftarrow> (if last = 0 then Some (upd_log (\<lambda>l. l\<lparr>emergency_cleaner_segments := cur\<rparr>) st)
       else do {
         st \<leftarrow> upd_seg last (\<lambda>s. s\<lparr>next_segment := cur\<rparr>) st;
         Some (persist E (last + off_next) 8 st)
       });
     let st = upd_log (\<lambda>l. l\<lparr>last_emergency_cleaner_segment := cur,
       current_emergency_count := current_emergency_count l + 1\<rparr>) st;
     let st = persist E 0 sizeof_log st;
     Some (unlock Emergency_segs st)
   }"

text \<open>
  The search for the segment with an id, with its predecessor (0 if it is the first).  The two
  functions that search the cleaner segments follow the successor without a test for the end:
  \<open>find_segment_strict\<close>.  The third tests: it ends at 0 when the id is not there.
\<close>

partial_function (option) find_segment_strict ::
  "('h, 'd) pmem \<Rightarrow> u64 \<Rightarrow> pmo \<Rightarrow> pmo \<Rightarrow> (pmo \<times> pmo) option" where
  "find_segment_strict st n prev cur = do {
     g \<leftarrow> get_seg st cur;
     (if seg_id g = n then Some (prev, cur) else find_segment_strict st n cur (next_segment g))
   }"

partial_function (option) find_segment ::
  "('h, 'd) pmem \<Rightarrow> u64 \<Rightarrow> pmo \<Rightarrow> pmo \<Rightarrow> (pmo \<times> pmo) option" where
  "find_segment st n prev cur =
     (if cur = 0 then Some (prev, 0)
      else do {
        g \<leftarrow> get_seg st cur;
        (if seg_id g = n then Some (prev, cur) else find_segment st n cur (next_segment g))
      })"

text \<open>
  \<open>cur\<close> becomes the last of the free or of the used segments (the first half of the functions
  below).
\<close>

definition append_free :: "('h, 'd) env \<Rightarrow> pmo \<Rightarrow> ('h, 'd) pmem \<Rightarrow> ('h, 'd) pmem option" where
  "append_free E cur st = do {
     let last = last_free_segment (plog st);
     st \<leftarrow> (if last = 0 then Some (upd_log (\<lambda>l. l\<lparr>free_segments := cur\<rparr>) st)
       else do {
         st \<leftarrow> upd_seg last (\<lambda>s. s\<lparr>next_segment := cur\<rparr>) st;
         Some (persist E (last + off_next) 8 st)
       });
     Some (upd_log (\<lambda>l. l\<lparr>last_free_segment := cur\<rparr>) st)
   }"

definition append_used :: "('h, 'd) env \<Rightarrow> pmo \<Rightarrow> ('h, 'd) pmem \<Rightarrow> ('h, 'd) pmem option" where
  "append_used E cur st = do {
     let last = last_used_segment (plog st);
     st \<leftarrow> (if last = 0 then Some (upd_log (\<lambda>l. l\<lparr>used_segments := cur\<rparr>) st)
       else do {
         st \<leftarrow> upd_seg last (\<lambda>s. s\<lparr>next_segment := cur\<rparr>) st;
         Some (persist E (last + off_next) 8 st)
       });
     Some (upd_log (\<lambda>l. l\<lparr>last_used_segment := cur\<rparr>) st)
   }"

text \<open>
  Unlinking \<open>cur\<close>, whose predecessor is \<open>prev\<close>, from the cleaner segments and from
  the used segments.
\<close>

definition unlink_cleaner ::
  "('h, 'd) env \<Rightarrow> u64 \<Rightarrow> pmo \<Rightarrow> pmo \<Rightarrow> ('h, 'd) pmem \<Rightarrow> ('h, 'd) pmem option" where
  "unlink_cleaner E n prev cur st = do {
     first \<leftarrow> get_seg st (cleaner_segments (plog st));
     last \<leftarrow> get_seg st (last_cleaner_segment (plog st));
     g \<leftarrow> get_seg st cur;
     (if seg_id first = n \<and> seg_id last = n
      then Some (upd_log (\<lambda>l. l\<lparr>cleaner_segments := 0, last_cleaner_segment := 0\<rparr>) st)
      else if seg_id first = n
      then Some (upd_log (\<lambda>l. l\<lparr>cleaner_segments := next_segment g\<rparr>) st)
      else do {
        let st = (if seg_id last = n then upd_log (\<lambda>l. l\<lparr>last_cleaner_segment := prev\<rparr>) st else st);
        st \<leftarrow> upd_seg prev (\<lambda>s. s\<lparr>next_segment := next_segment g\<rparr>) st;
        Some (persist E (prev + off_next) 8 st)
      })
   }"

definition unlink_used ::
  "('h, 'd) env \<Rightarrow> u64 \<Rightarrow> pmo \<Rightarrow> pmo \<Rightarrow> ('h, 'd) pmem \<Rightarrow> ('h, 'd) pmem option" where
  "unlink_used E n prev cur st = do {
     first \<leftarrow> get_seg st (used_segments (plog st));
     last \<leftarrow> get_seg st (last_used_segment (plog st));
     g \<leftarrow> get_seg st cur;
     (if seg_id first = n \<and> seg_id last = n
      then Some (upd_log (\<lambda>l. l\<lparr>used_segments := 0, last_used_segment := 0\<rparr>) st)
      else if seg_id first = n
      then Some (upd_log (\<lambda>l. l\<lparr>used_segments := next_segment g\<rparr>) st)
      else do {
        let st = (if seg_id last = n then upd_log (\<lambda>l. l\<lparr>last_used_segment := prev\<rparr>) st else st);
        st \<leftarrow> upd_seg prev (\<lambda>s. s\<lparr>next_segment := next_segment g\<rparr>) st;
        Some (persist E (prev + off_next) 8 st)
      })
   }"

text \<open>The end of both functions that free a segment: no successor, no used space.\<close>

definition reset_segment :: "('h, 'd) env \<Rightarrow> pmo \<Rightarrow> ('h, 'd) pmem \<Rightarrow> ('h, 'd) pmem option" where
  "reset_segment E cur st = do {
     st \<leftarrow> upd_seg cur (\<lambda>s. s\<lparr>next_segment := 0\<rparr>) st;
     let st = persist E (cur + off_next) 8 st;
     st \<leftarrow> upd_seg cur (\<lambda>s. s\<lparr>used_space := 0\<rparr>) st;
     Some (persist E (cur + off_used) 8 st)
   }"

definition append_cleaner_segment_to_used_segments ::
  "('h, 'd) env \<Rightarrow> u64 \<Rightarrow> ('h, 'd) pmem \<Rightarrow> ('h, 'd) pmem option" where
  "append_cleaner_segment_to_used_segments E n st = do {
     st \<leftarrow> lock Cleaner_segs st;
     (prev, cur) \<leftarrow> find_segment_strict st n 0 (cleaner_segments (plog st));
     st \<leftarrow> lock Used_segs st;
     st \<leftarrow> append_used E cur st;
     st \<leftarrow> unlink_cleaner E n prev cur st;
     let st = unlock Cleaner_segs st;
     st \<leftarrow> upd_seg cur (\<lambda>s. s\<lparr>next_segment := 0\<rparr>) st;
     let st = persist E (cur + off_next) 8 st;
     let st = unlock Used_segs st;
     Some (persist E 0 sizeof_log st)
   }"

definition append_cleaned_segment_to_free_segments ::
  "('h, 'd) env \<Rightarrow> u64 \<Rightarrow> ('h, 'd) pmem \<Rightarrow> ('h, 'd) pmem option" where
  "append_cleaned_segment_to_free_segments E n st = do {
     st \<leftarrow> lock Used_segs st;
     (prev, cur) \<leftarrow> find_segment st n 0 (used_segments (plog st));
     if cur = 0 then Some st else do {
       let refill = unat (current_emergency_count (plog st)) < EMERGENCY_CLEANER_SEGMENT_COUNT;
       st \<leftarrow> (if refill then refill_emergency_cleaner_segment E cur st
         else do { st \<leftarrow> lock Free_segs st; append_free E cur st });
       st \<leftarrow> unlink_used E n prev cur st;
       let st = upd_log (\<lambda>l. l\<lparr>used_segments_count := used_segments_count l - 1\<rparr>) st;
       let st = unlock Used_segs st;
       st \<leftarrow> reset_segment E cur st;
       let st = (if refill then st else unlock Free_segs st);
       Some (persist E 0 sizeof_log st)
     }
   }"

definition append_cleaner_segment_to_free_segments ::
  "('h, 'd) env \<Rightarrow> u64 \<Rightarrow> ('h, 'd) pmem \<Rightarrow> ('h, 'd) pmem option" where
  "append_cleaner_segment_to_free_segments E n st = do {
     st \<leftarrow> lock Cleaner_segs st;
     (prev, cur) \<leftarrow> find_segment_strict st n 0 (cleaner_segments (plog st));
     let refill = unat (current_emergency_count (plog st)) < EMERGENCY_CLEANER_SEGMENT_COUNT;
     st \<leftarrow> (if refill then refill_emergency_cleaner_segment E cur st
       else do { st \<leftarrow> lock Free_segs st; append_free E cur st });
     st \<leftarrow> unlink_cleaner E n prev cur st;
     let st = unlock Cleaner_segs st;
     st \<leftarrow> reset_segment E cur st;
     let st = (if refill then st else unlock Free_segs st);
     Some (persist E 0 sizeof_log st)
   }"

definition append_all_cleaner_segments_to_used_segments ::
  "('h, 'd) env \<Rightarrow> ('h, 'd) pmem \<Rightarrow> ('h, 'd) pmem option" where
  "append_all_cleaner_segments_to_used_segments E st =
     (if cleaner_segments (plog st) = 0 then Some st
      else do {
        st \<leftarrow> lock Cleaner_segs st;
        st \<leftarrow> lock Used_segs st;
        let last = last_used_segment (plog st);
        let first = cleaner_segments (plog st);
        st \<leftarrow> (if last = 0 then Some (upd_log (\<lambda>l. l\<lparr>used_segments := first\<rparr>) st)
          else do {
            st \<leftarrow> upd_seg last (\<lambda>s. s\<lparr>next_segment := first\<rparr>) st;
            Some (persist E (last + off_next) 8 st)
          });
        let st = upd_log (\<lambda>l. l\<lparr>last_used_segment := last_cleaner_segment l,
          cleaner_segments := 0, last_cleaner_segment := 0\<rparr>) st;
        let st = unlock Used_segs st;
        let st = unlock Cleaner_segs st;
        Some (persist E 0 sizeof_log st)
      })"

text \<open>
  No caller is left for the counterpart that frees the cleaner segments.  Its first loop zeroes the
  used space of the cleaner segments, its second refills the emergency segments.
\<close>

partial_function (option) zero_used_space ::
  "('h, 'd) env \<Rightarrow> pmo \<Rightarrow> ('h, 'd) pmem \<Rightarrow> ('h, 'd) pmem option" where
  "zero_used_space E cur st =
     (if cur = 0 then Some st
      else do {
        st \<leftarrow> upd_seg cur (\<lambda>s. s\<lparr>used_space := 0\<rparr>) st;
        let st = persist E (cur + off_used) 8 st;
        g \<leftarrow> get_seg st cur;
        zero_used_space E (next_segment g) st
      })"

partial_function (option) refill_from_cleaner ::
  "('h, 'd) env \<Rightarrow> ('h, 'd) pmem \<Rightarrow> ('h, 'd) pmem option" where
  "refill_from_cleaner E st =
     (if unat (current_emergency_count (plog st)) < EMERGENCY_CLEANER_SEGMENT_COUNT \<and>
         cleaner_segments (plog st) \<noteq> 0
      then do {
        let cur = cleaner_segments (plog st);
        st \<leftarrow> refill_emergency_cleaner_segment E cur st;
        g \<leftarrow> get_seg st cur;
        let st = upd_log (\<lambda>l. l\<lparr>cleaner_segments := next_segment g\<rparr>) st;
        st \<leftarrow> upd_seg (last_emergency_cleaner_segment (plog st)) (\<lambda>s. s\<lparr>next_segment := 0\<rparr>) st;
        refill_from_cleaner E (persist E off_last_emergency 8 st)
      }
      else Some st)"

definition append_all_cleaner_segments_to_free_segments ::
  "('h, 'd) env \<Rightarrow> ('h, 'd) pmem \<Rightarrow> ('h, 'd) pmem option" where
  "append_all_cleaner_segments_to_free_segments E st =
     (if cleaner_segments (plog st) = 0 then Some st
      else do {
        st \<leftarrow> lock Cleaner_segs st;
        st \<leftarrow> zero_used_space E (cleaner_segments (plog st)) st;
        st \<leftarrow> refill_from_cleaner E st;
        st \<leftarrow> lock Free_segs st;
        let last = last_free_segment (plog st);
        let first = cleaner_segments (plog st);
        st \<leftarrow> (if last = 0 then Some (upd_log (\<lambda>l. l\<lparr>free_segments := first\<rparr>) st)
          else do {
            st \<leftarrow> upd_seg last (\<lambda>s. s\<lparr>next_segment := first\<rparr>) st;
            Some (persist E (last + off_next) 8 st)
          });
        let st = upd_log (\<lambda>l. l\<lparr>last_free_segment := last_cleaner_segment l\<rparr>) st;
        let st = unlock Free_segs st;
        let st = upd_log (\<lambda>l. l\<lparr>cleaner_segments := 0, last_cleaner_segment := 0\<rparr>) st;
        Some (persist E 0 sizeof_log (unlock Cleaner_segs st))
      })"

section \<open>Cleaning\<close>

text \<open>The local variables of a cleaner thread: its segment and the position in it.\<close>

record cleaner =
  cl_seg :: pmo
  cl_pos :: nat

text \<open>
  Room for \<open>n\<close> more bytes in the cleaner segment: a full one joins the used segments and
  a new one is taken.
\<close>

definition make_room ::
  "('h, 'd) env \<Rightarrow> nat \<Rightarrow> cleaner \<Rightarrow> ('h, 'd) pmem \<Rightarrow> (cleaner \<times> ('h, 'd) pmem) option" where
  "make_room E n c st =
     (if area_size - cl_pos c < n
      then do {
        g \<leftarrow> get_seg st (cl_seg c);
        st \<leftarrow> append_cleaner_segment_to_used_segments E (seg_id g) st;
        (s, st) \<leftarrow> get_new_cleaner_segment E st;
        (if s = 0 then None else Some (\<lparr>cl_seg = s, cl_pos = 0\<rparr>, st))
      }
      else Some (c, st))"

definition copy_entry ::
  "('h, 'd) env \<Rightarrow> (nat \<Rightarrow> byte) \<Rightarrow> nat \<Rightarrow> cleaner \<Rightarrow> ('h, 'd) pmem \<Rightarrow> (cleaner \<times> ('h, 'd) pmem) option" where
  "copy_entry E m p c st = do {
     let n = entry_size m p;
     let off = entry_off (cl_seg c) (cl_pos c);
     st \<leftarrow> write_area (cl_seg c) (cl_pos c) (rd_bytes m p n) st;
     let st = persist E off n st;
     st \<leftarrow> upd_seg (cl_seg c) (\<lambda>s. s\<lparr>used_space := used_space s + word_of_nat n\<rparr>) st;
     let st = persist E (cl_seg c + off_used) 8 st;
     Some (c\<lparr>cl_pos := cl_pos c + n\<rparr>, add_to_hash_table E (entry_id m p) off st)
   }"

text \<open>
  One entry of the segment being cleaned.  The version of the entry the table has for its id is
  read only if this entry is not marked deleted; there is no test that the table has one.
\<close>

definition clean_entry ::
  "('h, 'd) env \<Rightarrow> (nat \<Rightarrow> byte) \<Rightarrow> nat \<Rightarrow> cleaner \<Rightarrow> ('h, 'd) pmem \<Rightarrow> (cleaner \<times> ('h, 'd) pmem) option" where
  "clean_entry E m p c st = do {
     st \<leftarrow> lock Update_move st;
     (c, st) \<leftarrow> (if entry_to_delete m p then Some (c, st)
       else do {
         (g, q) \<leftarrow> entry_at st (get_from_hash_table E st (entry_id m p));
         if entry_version (log_entries g) q \<le> entry_version m p
         then do {
           (c, st) \<leftarrow> make_room E (entry_size m p) c st;
           copy_entry E m p c st
         }
         else Some (c, st)
       });
     Some (c, unlock Update_move st)
   }"

function clean_entries ::
  "('h, 'd) env \<Rightarrow> pmo \<Rightarrow> nat \<Rightarrow> cleaner \<Rightarrow> ('h, 'd) pmem \<Rightarrow> (cleaner \<times> ('h, 'd) pmem) option" where
  "clean_entries E cur p c st =
     (case get_seg st cur of None \<Rightarrow> None
      | Some g \<Rightarrow>
        if p < area_size - sizeof_entry then
          if entry_length (log_entries g) p = 0 then Some (c, st)
          else do {
            (c, st) \<leftarrow> clean_entry E (log_entries g) p c st;
            clean_entries E cur (p + entry_size (log_entries g) p) c st
          }
        else Some (c, st))"
  by pat_completeness auto
termination
  by (relation "measure (\<lambda>(E, cur, p, c, st). area_size - p)") (auto simp: entry_size_def)

declare clean_entries.simps [simp del]

text \<open>
  The segment at \<open>cur\<close> is cleaned; the first result is the next segment of the pass.
\<close>

definition clean_segment ::
  "('h, 'd) env \<Rightarrow> pmo \<Rightarrow> cleaner \<Rightarrow> ('h, 'd) pmem \<Rightarrow> (pmo \<times> cleaner \<times> ('h, 'd) pmem) option" where
  "clean_segment E cur c st = do {
     g \<leftarrow> get_seg st cur;
     (c, st) \<leftarrow> (if used_space g \<noteq> 0 then clean_entries E cur 0 c st else Some (c, st));
     st \<leftarrow> lock Used_segs st;
     g \<leftarrow> get_seg st cur;
     let nxt = next_segment g;
     let st = unlock Used_segs st;
     st \<leftarrow> append_cleaned_segment_to_free_segments E (seg_id g) st;
     Some (nxt, c, unset_curr_cleaned E g st)
   }"

partial_function (option) clean_pass ::
  "('h, 'd) env \<Rightarrow> pmo \<Rightarrow> cleaner \<Rightarrow> ('h, 'd) pmem \<Rightarrow> (cleaner \<times> ('h, 'd) pmem) option" where
  "clean_pass E cur c st =
     (if cur = 0 then Some (c, st)
      else do {
        g \<leftarrow> get_seg st cur;
        (chosen, st) \<leftarrow> (if to_clean g then test_and_set_curr_cleaned E g st else Some (False, st));
        (if chosen
         then do {
           (nxt, c, st) \<leftarrow> clean_segment E cur c st;
           clean_pass E nxt c st
         }
         else do {
           st \<leftarrow> lock Used_segs st;
           g \<leftarrow> get_seg st cur;
           clean_pass E (next_segment g) c (unlock Used_segs st)
         })
      })"

section \<open>Starting a cleaner thread\<close>

text \<open>
  A thread that is given a cleaner segment of the previous run finds the end of its entries.
  After an irregular termination it first marks the entries the reconstructed table does not
  point to.
\<close>

function resume_entries ::
  "('h, 'd) env \<Rightarrow> bool \<Rightarrow> pmo \<Rightarrow> nat \<Rightarrow> nat \<Rightarrow> ('h, 'd) pmem \<Rightarrow> (nat \<times> ('h, 'd) pmem) option" where
  "resume_entries E regular s p freed st =
     (case get_seg st s of None \<Rightarrow> None
      | Some g \<Rightarrow>
        if p < unat (used_space g + word_of_nat freed) then
          if area_size < p + sizeof_entry then None
          else let n = entry_size (log_entries g) p;
                   stale = (\<not> regular \<and>
                     get_from_hash_table E st (entry_id (log_entries g) p) \<noteq> entry_off s p) in
            do {
              st \<leftarrow> (if stale
                then upd_seg s (\<lambda>s. s\<lparr>log_entries := patch (log_entries s) (p + 24) [1],
                       used_space := used_space s - word_of_nat n\<rparr>) st
                else Some st);
              resume_entries E regular s (p + n)
                (if stale \<or> entry_to_delete (log_entries g) p then freed + n else freed) st
            }
        else Some (p, st))"
  by pat_completeness auto
termination
  by (relation "measure (\<lambda>(E, regular, s, p, freed, st). area_size - p)") (auto simp: entry_size_def)

declare resume_entries.simps [simp del]

definition start_cleaner ::
  "('h, 'd) env \<Rightarrow> bool \<Rightarrow> pmo \<Rightarrow> ('h, 'd) pmem \<Rightarrow> (cleaner \<times> ('h, 'd) pmem) option" where
  "start_cleaner E regular s st =
     (if s \<noteq> 0 then do {
        g \<leftarrow> get_seg st s;
        (p, st) \<leftarrow> (if used_space g \<noteq> 0 then resume_entries E regular s 0 0 st else Some (0, st));
        Some (\<lparr>cl_seg = s, cl_pos = p\<rparr>, st)
      }
      else do {
        (s, st) \<leftarrow> get_new_cleaner_segment E st;
        (if s = 0 then None else Some (\<lparr>cl_seg = s, cl_pos = 0\<rparr>, st))
      })"

text \<open>
  What a thread is started with (the pointer to the heap aside): thread \<open>i\<close> gets the cleaner segment number
  \<open>i\<close>, or 0.
\<close>

record cleaner_info =
  ci_segment :: pmo
  ci_regular :: bool

fun nth_cleaner_segment :: "('h, 'd) pmem \<Rightarrow> nat \<Rightarrow> pmo \<Rightarrow> pmo option" where
  "nth_cleaner_segment st 0 cur = Some cur"
| "nth_cleaner_segment st (Suc j) cur =
     (if cur = 0 then Some 0
      else case get_seg st cur of None \<Rightarrow> None | Some g \<Rightarrow> nth_cleaner_segment st j (next_segment g))"

text \<open>
  \<open>mk i\<close> and \<open>cr i\<close>: the \<^verbatim>\<open>malloc\<close> for thread \<open>i\<close>, which is not checked, and its
  \<^verbatim>\<open>pthread_create\<close> succeed.  The result is whether a creation failed, and the threads created
  until then.
\<close>

fun create_threads ::
  "(nat \<Rightarrow> bool) \<Rightarrow> (nat \<Rightarrow> bool) \<Rightarrow> bool \<Rightarrow> ('h, 'd) pmem \<Rightarrow> nat list \<Rightarrow> (bool \<times> cleaner_info list) option" where
  "create_threads mk cr regular st [] = Some (False, [])"
| "create_threads mk cr regular st (i # is) =
     (if \<not> mk i then None
      else do {
        s \<leftarrow> nth_cleaner_segment st i (cleaner_segments (plog st));
        (if \<not> cr i then Some (True, [])
         else do {
           (failed, infos) \<leftarrow> create_threads mk cr regular st is;
           Some (failed, \<lparr>ci_segment = s, ci_regular = regular\<rparr> # infos)
         })
      })"

definition init_cleaner ::
  "('h, 'd) env \<Rightarrow> (nat \<Rightarrow> bool) \<Rightarrow> (nat \<Rightarrow> bool) \<Rightarrow> bool \<Rightarrow> ('h, 'd) pmem \<Rightarrow>
   (bool \<times> cleaner_info list \<times> ('h, 'd) pmem) option" where
  "init_cleaner E mk cr regular st = do {
     let st = st\<lparr>currently_cleaned := gh_new E\<rparr>;
     (failed, infos) \<leftarrow> create_threads mk cr regular st [0..<CLEANER_THREAD_COUNT];
     Some (failed, infos, st)
   }"

end
