(* ===== verification/Log_Pmem.thy ===== *)
theory Log_Pmem
  imports Cleaner
begin

text \<open>
  The interface of the heap (\<^verbatim>\<open>project/log_pmem.c\<close>): opening and closing it, allocating an
  object under a new or a given id, updating, freeing and finding it.  Whether \<^verbatim>\<open>malloc\<close>
  succeeds and what the system calls and libpmem2 return are arguments.
\<close>

section \<open>Objects\<close>

definition palloc ::
  "('h, 'd) env \<Rightarrow> bool \<Rightarrow> ('h, 'd) pmem \<Rightarrow> byte list \<Rightarrow> (u64 \<times> ('h, 'd) pmem) option" where
  "palloc E malloc_ok st data =
     (if \<not> consistent st then Some (0, st)
      else if length data = 0 then Some (0, st)
      else if \<not> malloc_ok then Some (0, st)
      else do {
        (n, st) \<leftarrow> gen_id E st;
        let e = \<lparr>e_id = n, e_version = 1, e_length = length data, e_to_delete = False, e_data = data\<rparr>;
        (off, st) \<leftarrow> append_to_log E st e;
        (if off = 0 then Some (0, st) else Some (n, add_to_hash_table E n off st))
      })"

definition pfree :: "('h, 'd) env \<Rightarrow> ('h, 'd) pmem \<Rightarrow> u64 \<Rightarrow> ('h, 'd) pmem option" where
  "pfree E st n = do {
     st \<leftarrow> lock Update_move st;
     let off = get_from_hash_table E st n;
     (if off = 0 then Some (unlock Update_move st)
      else do {
        (g, p) \<leftarrow> entry_at st off;
        let s = seg_of off;
        st \<leftarrow> write_area s (p + 24) [1] st;
        let st = persist E (off + 24) 1 st;
        st \<leftarrow> upd_seg s (\<lambda>s. s\<lparr>used_space :=
          used_space s - word_of_nat (entry_length (log_entries g) p + sizeof_entry)\<rparr>) st;
        let st = persist E (s + off_used) 8 st;
        Some (unlock Update_move (remove_from_hash_table E n st))
      })
   }"

text \<open>The address of the data of an object as an offset; 0 is NULL.\<close>

definition get_address :: "('h, 'd) env \<Rightarrow> ('h, 'd) pmem \<Rightarrow> u64 \<Rightarrow> pmo" where
  "get_address E st n =
     (let off = get_from_hash_table E st n in if off = 0 then 0 else off + 25)"

text \<open>\<^verbatim>\<open>update_data\<close> returns whether it failed.\<close>

definition update_data ::
  "('h, 'd) env \<Rightarrow> bool \<Rightarrow> ('h, 'd) pmem \<Rightarrow> u64 \<Rightarrow> byte list \<Rightarrow> (bool \<times> ('h, 'd) pmem) option" where
  "update_data E malloc_ok st n data =
     (if \<not> consistent st then Some (True, st)
      else if length data = 0 then Some (True, st)
      else if \<not> malloc_ok then Some (True, st)
      else do {
        st \<leftarrow> lock Update_move st;
        let off = get_from_hash_table E st n;
        (if off = 0 then Some (True, unlock Update_move st)
         else do {
           (g, p) \<leftarrow> entry_at st off;
           let m = log_entries g;
           let s = seg_of off;
           st \<leftarrow> upd_seg s (\<lambda>s. s\<lparr>used_space :=
             used_space s - word_of_nat (entry_length m p + sizeof_entry)\<rparr>) st;
           let st = persist E (s + off_used) 8 st;
           let e = \<lparr>e_id = entry_id m p, e_version = entry_version m p + 1, e_length = length data,
             e_to_delete = entry_to_delete m p, e_data = data\<rparr>;
           (off, st) \<leftarrow> append_to_log E st e;
           (if off = 0 then Some (True, unlock Update_move st)
            else Some (False, unlock Update_move (add_to_hash_table E n off st)))
         })
      })"

definition palloc_with_id ::
  "('h, 'd) env \<Rightarrow> bool \<Rightarrow> ('h, 'd) pmem \<Rightarrow> u64 \<Rightarrow> byte list \<Rightarrow> (bool \<times> ('h, 'd) pmem) option" where
  "palloc_with_id E malloc_ok st n data =
     (if \<not> consistent st then Some (True, st)
      else if length data = 0 then Some (True, st)
      else if hash_table_contains E st n then update_data E malloc_ok st n data
      else if \<not> malloc_ok then Some (True, st)
      else do {
        let e = \<lparr>e_id = n, e_version = 1, e_length = length data, e_to_delete = False, e_data = data\<rparr>;
        (off, st) \<leftarrow> append_to_log E st e;
        (if off = 0 then Some (True, st) else Some (False, add_to_hash_table E n off st))
      })"

section \<open>Opening and closing the heap\<close>

text \<open>What a run of \<^verbatim>\<open>init_pmem\<close> holds, and its error paths, which release it.\<close>

datatype resource = Res_fd | Res_path | Res_cfg | Res_src | Res_map

definition err_config :: "resource set \<Rightarrow> resource set" where
  "err_config R = R - {Res_fd, Res_path}"
definition err_granularity :: "resource set \<Rightarrow> resource set" where
  "err_granularity R = err_config (R - {Res_cfg})"
definition err_map :: "resource set \<Rightarrow> resource set" where
  "err_map R = err_granularity (R - {Res_src})"
definition err_src_delete :: "resource set \<Rightarrow> resource set" where
  "err_src_delete R = err_map (R - {Res_map})"

text \<open>
  What the system calls and libpmem2 return; \<open>sys_map_size\<close> is the size of the mapping, \<open>sys_info\<close> and
  \<open>sys_thread\<close> are about the threads.
\<close>

record sys =
  sys_open :: bool
  sys_malloc :: bool
  sys_cfg_new :: bool
  sys_granularity :: bool
  sys_source :: bool
  sys_map :: bool
  sys_map_size :: nat
  sys_source_delete :: bool
  sys_cfg_delete :: bool
  sys_info :: "nat \<Rightarrow> bool"
  sys_thread :: "nat \<Rightarrow> bool"
  sys_map_delete :: bool
  sys_close :: bool

text \<open>
  The part of \<^verbatim>\<open>init_pmem\<close> between mapping the file and giving the configuration back.  The table is
  empty when the saved index is loaded, so loading leaves the file as it is.
\<close>

definition start_heap ::
  "('h, 'd) env \<Rightarrow> sys \<Rightarrow> hash_io \<Rightarrow> hash_file option \<Rightarrow> ('h, 'd) pmem \<Rightarrow> (cleaner_info list \<times> ('h, 'd) pmem) option" where
  "start_heap E y io file st = do {
     st \<leftarrow> (if is_log_initialized st then Some st else init_log E st);
     st \<leftarrow> check_consistency st;
     let st = init_hash_table E st;
     st \<leftarrow> (if \<not> regular_termination (plog st) then reconstruct_hash_table E st
       else do {
         (failed, _, _, st) \<leftarrow> get_persisted_hash_table E io st file;
         (if failed then reconstruct_hash_table E st else Some st)
       });
     (_, threads, st) \<leftarrow> (if consistent st
       then init_cleaner E (sys_info y) (sys_thread y) (regular_termination (plog st)) st
       else Some (False, [], st));
     let st = upd_log (\<lambda>l. l\<lparr>regular_termination := False\<rparr>) st;
     Some (threads, persist E off_regular_termination 1 st)
   }"

text \<open>
  The result is whether it failed, the resources still held, the threads started and the state.
  \<open>st\<close> is what the mapped file holds; \<open>pmem->size\<close> is a \<open>size_t\<close>.
\<close>

definition init_pmem ::
  "('h, 'd) env \<Rightarrow> sys \<Rightarrow> hash_io \<Rightarrow> hash_file option \<Rightarrow> ('h, 'd) pmem \<Rightarrow>
   (bool \<times> resource set \<times> cleaner_info list \<times> ('h, 'd) pmem) option" where
  "init_pmem E y io file st =
     (if \<not> sys_open y then Some (True, {}, [], st)
      else if \<not> sys_malloc y then Some (True, {Res_fd}, [], st)
      else if \<not> sys_cfg_new y then Some (True, err_config {Res_fd, Res_path}, [], st)
      else if \<not> sys_granularity y then Some (True, err_granularity {Res_fd, Res_path, Res_cfg}, [], st)
      else if \<not> sys_source y then Some (True, err_granularity {Res_fd, Res_path, Res_cfg}, [], st)
      else if \<not> sys_map y then Some (True, err_map {Res_fd, Res_path, Res_cfg, Res_src}, [], st)
      else
        let R = {Res_fd, Res_path, Res_cfg, Res_src, Res_map};
            st = st\<lparr>psize := unat (word_of_nat (sys_map_size y) - word_of_nat sizeof_log :: u64)\<rparr> in
        if psize st < MIN_LOG_LENGTH then Some (True, err_src_delete R, [], st)
        else do {
          (threads, st) \<leftarrow> start_heap E y io file (st\<lparr>held := {}\<rparr>);
          (if \<not> sys_source_delete y then Some (True, err_src_delete R, threads, st)
           else if \<not> sys_cfg_delete y then Some (True, err_src_delete (R - {Res_src}), threads, st)
           else Some (False, R - {Res_src, Res_cfg}, threads, st))
        })"

text \<open>
  \<^verbatim>\<open>delete_pmem\<close>: whether it failed, the file of the saved index and the state.  Both hash
  tables are gone afterwards.
\<close>

definition terminate_cleaner :: "('h, 'd) env \<Rightarrow> ('h, 'd) pmem \<Rightarrow> ('h, 'd) pmem" where
  "terminate_cleaner E st = st\<lparr>currently_cleaned := gh_new E\<rparr>"

definition destroy_hash_table :: "('h, 'd) env \<Rightarrow> ('h, 'd) pmem \<Rightarrow> ('h, 'd) pmem" where
  "destroy_hash_table E st = st\<lparr>hash_table := gh_new E\<rparr>"

definition delete_pmem ::
  "('h, 'd) env \<Rightarrow> sys \<Rightarrow> hash_io \<Rightarrow> hash_file option \<Rightarrow> ('h, 'd) pmem \<Rightarrow>
   (bool \<times> hash_file option \<times> ('h, 'd) pmem) option" where
  "delete_pmem E y io file st = do {
     let st = (if consistent st then terminate_cleaner E st else st);
     (_, _, file) \<leftarrow> persist_hash_table E io st file;
     let st = destroy_hash_table E st;
     let st = upd_log (\<lambda>l. l\<lparr>regular_termination := True\<rparr>) st;
     let st = persist E off_regular_termination 1 st;
     Some (\<not> sys_map_delete y \<or> \<not> sys_close y, file, st)
   }"

end
