(* ===== verification/Log_Props.thy ===== *)
theory Log_Props
  imports Log
begin

text \<open>
  What the log guarantees about itself: a fresh log is five well-formed lists of segments, the
  count of the segments is the number of listed ones, and the generator of ids ends.
\<close>

section \<open>Counting segments\<close>

lemma count_segments_path:
  "path (nexts sm) p xs 0 \<Longrightarrow> count_segments sm p n = Some (n + length xs)"
proof (induction xs arbitrary: p n)
  case Nil
  then show ?case by (subst count_segments.simps) simp
next
  case (Cons x xs)
  then obtain g where "p = x" "x \<noteq> 0" "sm x = Some g" "path (nexts sm) (next_segment g) xs 0"
    by (auto elim!: nextsE)
  with Cons.IH [of "next_segment g" "n + 1"] show ?case
    by (subst count_segments.simps) simp
qed

lemma check_consistency_eq:
  assumes "lists_ok (plog st) (segs st) A"
  shows "check_consistency st =
    Some (st\<lparr>consistent := (length (all_segs A) = (psize st - sizeof_log) div SEGMENT_SIZE)\<rparr>)"
proof -
  note p = lists_okD(1-5) [OF assms, unfolded seg_list_def, THEN conjunct1, THEN count_segments_path]
  show ?thesis
    by (simp add: check_consistency_def p all_segs_def ac_simps)
qed

section \<open>A fresh log\<close>

definition seg_off :: "nat \<Rightarrow> pmo" where
  "seg_off j = sizeof_log + SEGMENT_SIZE * j"

lemma seg_off_eq [simp]: "seg_off i = seg_off j \<longleftrightarrow> i = j"
  by (auto simp: seg_off_def)

lemma seg_off_nz [simp]: "seg_off j \<noteq> 0"
  by (simp add: seg_off_def)

lemma seg_off_0: "seg_off 0 = sizeof_log"
  by (simp add: seg_off_def)

lemma seg_off_Suc: "seg_off j + SEGMENT_SIZE = seg_off (Suc j)"
  by (simp add: seg_off_def)

lemma inj_seg_off [simp]: "inj_on seg_off S"
  by (simp add: inj_on_def)

definition segs_for :: "nat \<Rightarrow> nat" where
  "segs_for n = (n + (SEGMENT_SIZE - 1)) div SEGMENT_SIZE"

lemma segs_for_step: "i < n \<Longrightarrow> segs_for (n - i) = Suc (segs_for (n - (i + SEGMENT_SIZE)))"
proof -
  assume "i < n"
  then have "n - i + 4095 = 4096 + (n - i - 1)" by simp
  then have "(n - i + 4095) div 4096 = Suc ((n - i - 1) div 4096)"
    by (simp only: div_add_self1)
  moreover have "(n - i - 1) div 4096 = (n - (i + 4096) + 4095) div 4096"
    by (cases "i + 4096 < n") auto
  moreover have "SEGMENT_SIZE - 1 = 4095" "SEGMENT_SIZE = 4096" by simp_all
  ultimately show ?thesis by (simp only: segs_for_def)
qed

text \<open>The memory after \<open>k\<close> segments from number \<open>j\<close> on were written.\<close>

definition written :: "nat \<Rightarrow> nat \<Rightarrow> nat \<Rightarrow> (pmo \<rightharpoonup> segment) \<Rightarrow> (pmo \<rightharpoonup> segment) \<Rightarrow> bool" where
  "written j k n sm sm' \<longleftrightarrow>
     (\<forall>i. sm' (seg_off i) = (if j \<le> i \<and> i < j + k
        then map_option (\<lambda>g. g\<lparr>seg_id := word_of_nat (n + (i - j)), used_space := 0, next_segment := seg_off (Suc i)\<rparr>) (sm (seg_off i))
        else sm (seg_off i)))"

lemma init_segments_run:
  assumes "\<And>i. i < segs_for (limit - i0) \<Longrightarrow> segs st (seg_off (j + i)) \<noteq> None"
  shows "\<exists>st'. init_segments E limit i0 n prev (seg_off j) st =
      Some (if i0 < limit then seg_off (j + segs_for (limit - i0) - 1) else prev,
        seg_off (j + segs_for (limit - i0)), n + segs_for (limit - i0), st') \<and>
    same_rest st st' \<and> plog st' = plog st \<and> written j (segs_for (limit - i0)) n (segs st) (segs st')"
  using assms
proof (induction "limit - i0" arbitrary: i0 n prev j st rule: less_induct)
  case less
  show ?case
  proof (cases "i0 < limit")
    case False
    then have "segs_for (limit - i0) = 0" by (simp add: segs_for_def)
    with False show ?thesis
      by (subst init_segments.simps) (auto simp: written_def)
  next
    case True
    let ?i = "i0 + SEGMENT_SIZE"
    let ?k = "segs_for (limit - ?i)"
    have k: "segs_for (limit - i0) = Suc ?k"
      using segs_for_step [OF True] .
    obtain g where g: "segs st (seg_off j) = Some g"
      using less.prems [of 0] k by auto
    define st1 where "st1 = persist E (seg_off j) sizeof_segment
      (st\<lparr>segs := (segs st)(seg_off j \<mapsto> g\<lparr>seg_id := word_of_nat n, used_space := 0, next_segment := seg_off (Suc j)\<rparr>)\<rparr>)"
    have step: "init_segments E limit i0 n prev (seg_off j) st =
        init_segments E limit ?i (n + 1) (seg_off j) (seg_off (Suc j)) st1"
      using True g by (subst init_segments.simps) (simp only: seg_off_Suc, simp add: access_simps st1_def)
    have less: "limit - ?i < limit - i0"
      using True by simp
    have "segs st1 (seg_off (Suc j + i')) \<noteq> None" if "i' < ?k" for i'
      using less.prems [of "Suc i'"] that k by (simp add: st1_def persist_def)
    from less.hyps [OF less this, of "n + 1" "seg_off j"]
    obtain st' where st': "init_segments E limit ?i (n + 1) (seg_off j) (seg_off (Suc j)) st1 =
        Some (if ?i < limit then seg_off (Suc j + ?k - 1) else seg_off j, seg_off (Suc j + ?k), n + 1 + ?k, st')"
      and r: "same_rest st1 st'" "plog st' = plog st1" "written (Suc j) ?k (n + 1) (segs st1) (segs st')"
      by blast
    have "?k = 0" if "\<not> ?i < limit"
      using that by (simp add: segs_for_def)
    then have "init_segments E limit i0 n prev (seg_off j) st =
        Some (seg_off (j + Suc ?k - 1), seg_off (j + Suc ?k), n + Suc ?k, st')"
      using st' step by auto
    moreover have "written j (Suc ?k) n (segs st) (segs st')"
      unfolding written_def
    proof
      fix i
      have "n + 1 + (i - Suc j) = n + (i - j)" if "j < i"
        using that by simp
      then show "segs st' (seg_off i) = (if j \<le> i \<and> i < j + Suc ?k then map_option (\<lambda>g. g\<lparr>
          seg_id := word_of_nat (n + (i - j)), used_space := 0, next_segment := seg_off (Suc i)\<rparr>) (segs st (seg_off i))
        else segs st (seg_off i))"
        using r(3) [unfolded written_def, rule_format, of i] g
        by (cases i j rule: linorder_cases) (simp_all add: st1_def persist_def)
    qed
    ultimately show ?thesis
      using r(1,2) True k by (auto simp: st1_def persist_def same_rest_def)
  qed
qed

definition fresh_hdr :: "nat \<Rightarrow> log_hdr \<Rightarrow> log_hdr" where
  "fresh_hdr K l = l\<lparr>signature := LOG_SIGNATURE, head_segment := seg_off 0, free_segments := seg_off 1,
     last_free_segment := seg_off (K - 1), used_segments := 0, last_used_segment := 0,
     cleaner_segments := 0, last_cleaner_segment := 0, emergency_cleaner_segments := seg_off K,
     last_emergency_cleaner_segment := seg_off K, current_id := 0, head_position := 0,
     used_segments_count := 0, current_emergency_count := 1\<rparr>"

definition fresh_segs :: "nat \<Rightarrow> (pmo \<rightharpoonup> segment) \<Rightarrow> (pmo \<rightharpoonup> segment) \<Rightarrow> bool" where
  "fresh_segs K sm sm' \<longleftrightarrow>
     (\<forall>i \<le> K. \<exists>g. sm (seg_off i) = Some g \<and> sm' (seg_off i) = Some (g\<lparr>seg_id := word_of_nat i, used_space := 0,
        next_segment := (if i = 0 \<or> i = K - 1 \<or> i = K then 0 else seg_off (Suc i))\<rparr>))"

text \<open>
  The end of a list of fresh segments, and the head taken from the free segments: the parts of
  \<open>init_log\<close> around the two loops.
\<close>

definition close_list ::
  "('h, 'd) env \<Rightarrow> (log_hdr \<Rightarrow> log_hdr) \<Rightarrow> nat \<Rightarrow> pmo \<Rightarrow> ('h, 'd) pmem \<Rightarrow> ('h, 'd) pmem option" where
  "close_list E f off p st = do {
     st \<leftarrow> upd_seg p (\<lambda>s. s\<lparr>next_segment := 0\<rparr>) st;
     Some (persist E off 8 (upd_log f (persist E (p + off_next) 8 st)))
   }"

definition first_head :: "('h, 'd) env \<Rightarrow> ('h, 'd) pmem \<Rightarrow> ('h, 'd) pmem option" where
  "first_head E st = do {
     let st = upd_log (\<lambda>l. l\<lparr>head_segment := free_segments l\<rparr>) st;
     s \<leftarrow> get_seg st (free_segments (plog st));
     let st = persist E 0 sizeof_log (upd_log (\<lambda>l. l\<lparr>free_segments := next_segment s\<rparr>) st);
     st \<leftarrow> upd_seg (head_segment (plog st)) (\<lambda>s. s\<lparr>next_segment := 0\<rparr>) st;
     let st = persist E (head_segment (plog st) + off_next) 8 st;
     Some (persist E 0 (length LOG_SIGNATURE) (upd_log (\<lambda>l. l\<lparr>signature := LOG_SIGNATURE\<rparr>) st))
   }"

lemma close_list_run:
  assumes "segs st p = Some g" and "p \<noteq> 0"
  shows "\<exists>st'. close_list E f off p st = Some st' \<and> same_rest st st' \<and> plog st' = f (plog st) \<and>
    segs st' = (segs st)(p \<mapsto> g\<lparr>next_segment := 0\<rparr>)"
  using assms by (simp add: close_list_def access_simps same_rest_def)

lemma first_head_run:
  assumes "free_segments (plog st) = p" and "segs st p = Some g" and "p \<noteq> 0"
  shows "\<exists>st'. first_head E st = Some st' \<and> same_rest st st' \<and>
    plog st' = (plog st)\<lparr>head_segment := p, free_segments := next_segment g, signature := LOG_SIGNATURE\<rparr> \<and>
    segs st' = (segs st)(p \<mapsto> g\<lparr>next_segment := 0\<rparr>)"
  using assms by (simp add: first_head_def access_simps same_rest_def Let_def)

lemma init_log_parts:
  "init_log E st = do {
     let st = persist E 0 sizeof_log (upd_log (\<lambda>l. l\<lparr>head_segment := 0, free_segments := seg_off 0, used_segments := 0,
       last_used_segment := 0, cleaner_segments := 0, last_cleaner_segment := 0, current_id := 0,
       head_position := 0, used_segments_count := 0, current_emergency_count := 1\<rparr>) st);
     (prev, cur, n, st) \<leftarrow> init_segments E (psize st - 2 * SEGMENT_SIZE) 0 0 0 (seg_off 0) st;
     st \<leftarrow> close_list E (\<lambda>l. l\<lparr>last_free_segment := prev\<rparr>) off_last_free_segment prev st;
     (prev, cur, n, st) \<leftarrow> init_segments E SEGMENT_SIZE 0 n prev cur (upd_log (\<lambda>l. l\<lparr>emergency_cleaner_segments := cur\<rparr>) st);
     st \<leftarrow> close_list E (\<lambda>l. l\<lparr>last_emergency_cleaner_segment := prev\<rparr>) off_last_emergency prev st;
     first_head E st
   }"
  by (simp add: init_log_def close_list_def first_head_def Let_def seg_off_0 case_prod_unfold)

lemma fresh_segsI:
  assumes w2: "written 0 K 0 sm sm2" and w4: "written K 1 K (sm2(seg_off (K - 1) \<mapsto> g\<lparr>next_segment := 0\<rparr>)) sm4"
    and g: "sm2 (seg_off (K - 1)) = Some g" and gK: "sm4 (seg_off K) = Some gK" and g0: "sm4 (seg_off 0) = Some g0"
    and K: "2 \<le> K" and dom: "\<And>i. i \<le> K \<Longrightarrow> sm (seg_off i) \<noteq> None"
  shows "fresh_segs K sm (sm4(seg_off K \<mapsto> gK\<lparr>next_segment := 0\<rparr>, seg_off 0 \<mapsto> g0\<lparr>next_segment := 0\<rparr>))"
  unfolding fresh_segs_def
proof (intro allI impI)
  fix i
  assume i: "i \<le> K"
  then obtain h where h: "sm (seg_off i) = Some h"
    using dom by blast
  have s2: "sm2 (seg_off j) = (if j < K then map_option (\<lambda>g. g\<lparr>seg_id := word_of_nat j, used_space := 0,
      next_segment := seg_off (Suc j)\<rparr>) (sm (seg_off j)) else sm (seg_off j))" for j
    using w2 by (simp add: written_def)
  have s4: "sm4 (seg_off j) = (if j = K then map_option (\<lambda>g. g\<lparr>seg_id := word_of_nat K, used_space := 0,
      next_segment := seg_off (Suc j)\<rparr>) (sm (seg_off K)) else if j = K - 1 then Some (g\<lparr>next_segment := 0\<rparr>) else sm2 (seg_off j))" for j
    using w4 [unfolded written_def, rule_format, of j] K by (auto simp: s2)
  consider "i = 0" | "i = K - 1" "i \<noteq> 0" "i \<noteq> K" | "i = K" "i \<noteq> 0" | "i \<noteq> 0" "i < K - 1"
    using i K by linarith
  then show "\<exists>g. sm (seg_off i) = Some g \<and>
      (sm4(seg_off K \<mapsto> gK\<lparr>next_segment := 0\<rparr>, seg_off 0 \<mapsto> g0\<lparr>next_segment := 0\<rparr>)) (seg_off i) =
      Some (g\<lparr>seg_id := word_of_nat i, used_space := 0, next_segment := (if i = 0 \<or> i = K - 1 \<or> i = K then 0 else seg_off (Suc i))\<rparr>)"
    using h K g gK g0 s2 s4 by cases auto
qed

lemma init_log_run:
  assumes K_def: "K = segs_for (psize st - 2 * SEGMENT_SIZE)"
    and size: "MIN_LOG_LENGTH \<le> psize st" and dom: "\<And>i. i \<le> K \<Longrightarrow> segs st (seg_off i) \<noteq> None"
  shows "\<exists>st'. init_log E st = Some st' \<and> same_rest st st' \<and>
    plog st' = fresh_hdr K (plog st) \<and> fresh_segs K (segs st) (segs st')"
proof -
  let ?lim = "psize st - 2 * SEGMENT_SIZE"
  have K: "3 \<le> K" "0 < ?lim"
    using size by (simp_all add: K_def segs_for_def)
  define st1 where "st1 = persist E 0 sizeof_log (upd_log (\<lambda>l. l\<lparr>head_segment := 0, free_segments := seg_off 0, used_segments := 0,
       last_used_segment := 0, cleaner_segments := 0, last_cleaner_segment := 0, current_id := 0,
       head_position := 0, used_segments_count := 0, current_emergency_count := 1\<rparr>) st)"
  have st1: "segs st1 = segs st" "same_rest st st1" "psize st1 = psize st"
    by (simp_all add: st1_def access_simps same_rest_def)
  from init_segments_run [of ?lim 0 st1 0 E 0 0] dom st1
  obtain st2 where run2: "init_segments E ?lim 0 0 0 (seg_off 0) st1 = Some (seg_off (K - 1), seg_off K, K, st2)"
    and st2: "same_rest st1 st2" "plog st2 = plog st1" "written 0 K 0 (segs st) (segs st2)"
    using K(2) by (auto simp: K_def)
  obtain g where g: "segs st2 (seg_off (K - 1)) = Some g"
    using st2(3) dom [of "K - 1"] K by (auto simp: written_def)
  obtain st3 where st3: "close_list E (\<lambda>l. l\<lparr>last_free_segment := seg_off (K - 1)\<rparr>) off_last_free_segment (seg_off (K - 1)) st2 = Some st3"
    "same_rest st2 st3" "plog st3 = (plog st2)\<lparr>last_free_segment := seg_off (K - 1)\<rparr>"
    "segs st3 = (segs st2)(seg_off (K - 1) \<mapsto> g\<lparr>next_segment := 0\<rparr>)"
    using close_list_run [OF g] by force
  let ?st3 = "upd_log (\<lambda>l. l\<lparr>emergency_cleaner_segments := seg_off K\<rparr>) st3"
  have s3: "segs ?st3 = segs st3" "plog ?st3 = (plog st3)\<lparr>emergency_cleaner_segments := seg_off K\<rparr>" "same_rest st3 ?st3"
    by (simp_all add: upd_log_def same_rest_def)
  have one: "segs_for 4096 = 1"
    by (simp add: segs_for_def)
  have "\<And>i. i < segs_for (SEGMENT_SIZE - 0) \<Longrightarrow> segs ?st3 (seg_off (K + i)) \<noteq> None"
    using dom [of K] K st2(3) by (simp add: one s3(1) st3(4) written_def)
  from init_segments_run [of SEGMENT_SIZE 0 ?st3 K E K "seg_off (K - 1)", OF this]
  obtain st4 where run4: "init_segments E SEGMENT_SIZE 0 K (seg_off (K - 1)) (seg_off K) ?st3 =
      Some (seg_off K, seg_off (Suc K), Suc K, st4)"
    and st4: "same_rest ?st3 st4" "plog st4 = plog ?st3" "written K 1 K (segs st3) (segs st4)"
    by (auto simp: one s3(1))
  have w4: "written K 1 K ((segs st2)(seg_off (K - 1) \<mapsto> g\<lparr>next_segment := 0\<rparr>)) (segs st4)"
    using st4(3) st3(4) by simp
  have "segs st4 (seg_off K) \<noteq> None"
    using w4 [unfolded written_def, rule_format, of K] st2(3) [unfolded written_def, rule_format, of K] dom [of K] K by auto
  then obtain gK where gK: "segs st4 (seg_off K) = Some gK" by blast
  obtain g0 where g0: "segs st4 (seg_off 0) = Some g0" "next_segment g0 = seg_off 1"
    using w4 [unfolded written_def, rule_format, of 0] st2(3) [unfolded written_def, rule_format, of 0] dom [of 0] K by auto
  obtain st5 where st5: "close_list E (\<lambda>l. l\<lparr>last_emergency_cleaner_segment := seg_off K\<rparr>) off_last_emergency (seg_off K) st4 = Some st5"
    "same_rest st4 st5" "plog st5 = (plog st4)\<lparr>last_emergency_cleaner_segment := seg_off K\<rparr>"
    "segs st5 = (segs st4)(seg_off K \<mapsto> gK\<lparr>next_segment := 0\<rparr>)"
    using close_list_run [OF gK] by force
  have "free_segments (plog st5) = seg_off 0" "segs st5 (seg_off 0) = Some g0"
    using K g0(1) by (simp_all add: st5(3,4) st4(2) s3(2) st3(3) st2(2) st1_def access_simps)
  from first_head_run [OF this, of E] obtain st6 where st6: "first_head E st5 = Some st6" "same_rest st5 st6"
    "plog st6 = (plog st5)\<lparr>head_segment := seg_off 0, free_segments := next_segment g0, signature := LOG_SIGNATURE\<rparr>"
    "segs st6 = (segs st5)(seg_off 0 \<mapsto> g0\<lparr>next_segment := 0\<rparr>)"
    by auto
  have "init_log E st = Some st6"
    unfolding init_log_parts Let_def st1_def [symmetric]
    by (simp add: st1(3) run2 [simplified] st3(1) [simplified] run4 [simplified] st5(1) [simplified] st6(1))
  moreover have "fresh_segs K (segs st) (segs st6)"
    unfolding st6(4) st5(4) by (rule fresh_segsI [OF st2(3) w4 g gK g0(1)]) (use K dom in auto)
  moreover have "same_rest st st6"
    using st1(2) st2(1) st3(2) s3(3) st4(1) st5(2) st6(2) by (simp add: same_rest_def)
  moreover have "plog st6 = fresh_hdr K (plog st)"
    by (simp add: st6(3) st5(3) st4(2) s3(2) st3(3) st2(2) st1_def access_simps fresh_hdr_def g0(2))
  ultimately show ?thesis by blast
qed

definition fresh_lists :: "nat \<Rightarrow> lists" where
  "fresh_lists K = \<lparr>l_head = [seg_off 0], l_free = map seg_off [1..<K], l_used = [], l_cleaner = [],
     l_emergency = [seg_off K]\<rparr>"

lemma path_chain:
  "(\<And>j. i \<le> j \<Longrightarrow> j < K \<Longrightarrow> n (seg_off j) = Some (if Suc j = K then 0 else seg_off (Suc j))) \<Longrightarrow>
   i < K \<Longrightarrow> path n (seg_off i) (map seg_off [i..<K]) 0"
proof (induction "K - i" arbitrary: i)
  case (Suc d)
  then have eq: "[i..<K] = i # [Suc i..<K]" by (simp add: upt_conv_Cons)
  show ?case
  proof (cases "Suc i = K")
    case True
    with Suc.prems(1) [of i] show ?thesis by (simp add: eq)
  next
    case False
    with Suc have "path n (seg_off (Suc i)) (map seg_off [Suc i..<K]) 0" by simp
    with False Suc.prems(1) [of i] Suc.prems(2) show ?thesis by (simp add: eq)
  qed
qed simp

lemma fresh_all_segs: "3 \<le> K \<Longrightarrow> all_segs (fresh_lists K) = map seg_off [0..<Suc K]"
proof -
  assume "3 \<le> K"
  then have "[0..<Suc K] = 0 # [1..<K] @ [K]"
    by (simp add: upt_conv_Cons)
  then show ?thesis by (simp add: all_segs_def fresh_lists_def)
qed

lemma fresh_lists_ok:
  assumes f: "fresh_segs K sm sm'" and K: "3 \<le> K" "Suc K < 2 ^ 64"
  shows "lists_ok (fresh_hdr K l) sm' (fresh_lists K)"
proof -
  have n: "nexts sm' (seg_off i) = Some (if i = 0 \<or> i = K - 1 \<or> i = K then 0 else seg_off (Suc i))"
    and ids: "ids sm' (seg_off i) = Some (word_of_nat i)" if "i \<le> K" for i
    using f that by (force simp: fresh_segs_def nexts_def ids_def)+
  have "path (nexts sm') (seg_off 1) (map seg_off [1..<K]) 0"
    by (rule path_chain) (use n K in auto)
  moreover have "last_of (map seg_off [1..<K]) = seg_off (K - 1)"
    using K by (simp add: last_of_def last_map)
  moreover have "inj_on (ids sm') (set (map seg_off [0..<Suc K]))"
  proof (rule inj_onI)
    fix x y
    assume "x \<in> set (map seg_off [0..<Suc K])" "y \<in> set (map seg_off [0..<Suc K])" "ids sm' x = ids sm' y"
    then obtain i j where ij: "x = seg_off i" "y = seg_off j" "i \<le> K" "j \<le> K" "(word_of_nat i :: u64) = word_of_nat j"
      using ids by (auto simp: less_Suc_eq_le)
    have "unat (word_of_nat i :: u64) = i" "unat (word_of_nat j :: u64) = j"
      using ij(3,4) K(2) by (simp_all add: unsigned_of_nat take_bit_eq_mod)
    with ij(5) have "i = j" by metis
    with ij show "x = y" by simp
  qed
  moreover have "distinct (map seg_off [0..<Suc K])"
    by (simp only: distinct_map inj_seg_off) simp
  ultimately show ?thesis
    using n [of 0] n [of K] by (simp only: lists_ok_def fresh_all_segs [OF K(1)])
      (simp add: fresh_lists_def fresh_hdr_def seg_list_def)
qed

lemma segs_for_div:
  assumes "n = 4096 * q + r" and "r < 4096" and "5 \<le> q"
  shows "segs_for (n - 2 * SEGMENT_SIZE) = (if r = 0 then q - 2 else q - 1)"
proof (cases "r = 0")
  case True
  then have "segs_for (n - 2 * SEGMENT_SIZE) = (4096 * (q - 2) + 4095) div 4096"
    using assms by (simp add: segs_for_def algebra_simps)
  also have "\<dots> = q - 2"
    by simp
  finally show ?thesis using True by simp
next
  case False
  then have "segs_for (n - 2 * SEGMENT_SIZE) = (4096 * (q - 1) + (r - 1)) div 4096"
    using assms by (simp add: segs_for_def algebra_simps)
  also have "\<dots> = q - 1"
    using assms(2) by simp
  finally show ?thesis using False by simp
qed

lemma count_div:
  assumes "n = 4096 * q + r" and "r < 4096" and "5 \<le> q"
  shows "Suc (segs_for (n - 2 * SEGMENT_SIZE)) = (n - 128) div 4096 \<longleftrightarrow> r = 0 \<or> 128 \<le> r"
proof (cases "128 \<le> r")
  case True
  then have "(n - 128) div 4096 = q" using assms by auto
  with True show ?thesis using assms segs_for_div [OF assms] by simp
next
  case False
  have "n - 128 = 4096 * (q - 1) + (3968 + r)" using assms False by simp
  then have "(n - 128) div 4096 = q - 1" using assms(2) False by simp
  moreover have "r = 0 \<Longrightarrow> Suc (q - 2) = q - 1" "q - 1 \<noteq> q" "Suc (q - 1) = q"
    using assms(3) by arith+
  ultimately show ?thesis using False segs_for_div [OF assms] by auto
qed


section \<open>Fresh ids\<close>

lemma unat_dec: "j \<noteq> c \<Longrightarrow> unat (j - (c + 1)) < unat (j - c)" for j c :: u64
  using measure_unat [of "j - c"] by (simp add: diff_diff_add)

lemma gen_id_loop_total:
  assumes "j \<noteq> 0" and "\<not> used j" and "i \<noteq> 0"
  shows "\<exists>i' c'. gen_id_loop used i c = Some (i', c') \<and> i' \<noteq> 0 \<and> \<not> used i'"
  using assms(3)
proof (induction "unat (j - c)" arbitrary: i c rule: less_induct)
  case less
  show ?case
  proof (cases "used i")
    case False
    with less.prems show ?thesis by (subst gen_id_loop.simps) simp
  next
    case True
    obtain i2 c2 where n: "next_id c = (i2, c2)" by force
    then have i2: "i2 \<noteq> 0"
      by (auto simp: next_id_def split: if_splits)
    have "j = i2 \<or> unat (j - c2) < unat (j - c)"
    proof (cases "c = 0")
      case True
      then have c2: "i2 = 1" "c2 = 1 + 1" using n by (simp_all add: next_id_def)
      have "unat (j - (0 + 1)) < unat (j - 0)"
        by (rule unat_dec) (use assms(1) in simp)
      moreover have "j \<noteq> 1 \<Longrightarrow> unat (j - (1 + 1)) < unat (j - 1)"
        by (rule unat_dec)
      ultimately show ?thesis using c2 True by fastforce
    next
      case False
      then show ?thesis using n unat_dec [of j c] by (auto simp: next_id_def)
    qed
    moreover have "gen_id_loop used i c = gen_id_loop used i2 c2"
      using True n by (subst gen_id_loop.simps) simp
    moreover have "gen_id_loop used j c2 = Some (j, c2)"
      using assms(2) by (subst gen_id_loop.simps) simp
    ultimately show ?thesis
      using less.hyps [OF _ i2] assms(1,2) by auto
  qed
qed

lemma gen_id_total:
  assumes "j \<noteq> 0" and "\<not> hash_table_contains E st j"
  shows "\<exists>i c. gen_id E st = Some (i, upd_log (\<lambda>l. l\<lparr>current_id := c\<rparr>) st) \<and> i \<noteq> 0 \<and>
    \<not> hash_table_contains E st i"
proof -
  obtain i c where n: "next_id (current_id (plog st)) = (i, c)" by force
  then have "i \<noteq> 0" by (auto simp: next_id_def split: if_splits)
  from gen_id_loop_total [where used = "hash_table_contains E st", OF assms this, of c] n
  show ?thesis by (auto simp: gen_id_def)
qed

lemma gen_id_loop_sound:
  assumes "gen_id_loop used i c = Some y" and "i \<noteq> 0"
  shows "fst y \<noteq> 0 \<and> \<not> used (fst y)"
proof -
  have "i \<noteq> 0 \<longrightarrow> fst y \<noteq> 0 \<and> \<not> used (fst y)"
    by (rule gen_id_loop.raw_induct [where P = "\<lambda>used i c y. i \<noteq> 0 \<longrightarrow> fst y \<noteq> 0 \<and> \<not> used (fst y)", OF _ assms(1)])
      (fastforce simp: next_id_def split: if_splits)
  with assms(2) show ?thesis by simp
qed

lemma gen_id_sound:
  assumes "gen_id E st = Some (i, st')"
  shows "i \<noteq> 0 \<and> \<not> hash_table_contains E st i"
proof -
  obtain j c where n: "next_id (current_id (plog st)) = (j, c)" by force
  then have "j \<noteq> 0" by (auto simp: next_id_def split: if_splits)
  then show ?thesis
    using assms n gen_id_loop_sound [of "hash_table_contains E st" j c] by (auto simp: gen_id_def bind_eq_Some_conv)
qed

text \<open>
  C35: The generator of ids returns exactly when an id other than 0 is not in use; otherwise its loop
  never ends.
\<close>

theorem gen_id_returns_iff:
  "(\<exists>i st'. gen_id E st = Some (i, st')) \<longleftrightarrow> (\<exists>j. j \<noteq> 0 \<and> \<not> hash_table_contains E st j)"
  by (metis gen_id_sound gen_id_total)

text \<open>An id that the generator returns is not 0 and not in the index.\<close>

lemma gen_id_fresh:
  assumes "gen_id E st = Some (i, st')"
  shows "i \<noteq> 0 \<and> \<not> hash_table_contains E st i"
  by (rule gen_id_sound [OF assms])

text \<open>
  C38: \<^verbatim>\<open>check_consistency\<close> ends and counts every segment of the five lists once; it compares with the
  number of segments of a log that is smaller by the size of the header.
\<close>

theorem check_consistency_counts:
  assumes "lists_ok (plog st) (segs st) A"
  shows "check_consistency st =
    Some (st\<lparr>consistent := (length (all_segs A) = (psize st - sizeof_log) div SEGMENT_SIZE)\<rparr>)"
  by (rule check_consistency_eq [OF assms])

end
