(* ===== verification/Cleaner_Lists.thy ===== *)
theory Cleaner_Lists
  imports Cleaner "HOL-Library.Multiset"
begin

text \<open>
  The operations of the cleaner on the segment lists refine operations on lists.  For each there is
  a lemma \<open>_run\<close> that executes the code on a state whose pointers are defined, and a
  lemma \<open>_refines\<close> that reads the result as lists.
\<close>

lemma get_new_cleaner_run:
  assumes "free_segments (plog st) = f" "f \<noteq> 0" and "nexts (segs st) f = Some y"
    and "last_cleaner_segment (plog st) = l" and "l \<noteq> 0 \<Longrightarrow> nexts (segs st) l \<noteq> None" and "l \<noteq> f"
    and "Cleaner_segs \<notin> held st" "Free_segs \<notin> held st"
  shows "\<exists>st'. get_new_cleaner_segment E st = Some (f, st') \<and>
    relinked st ((plog st)\<lparr>cleaner_segments := (if l = 0 then f else cleaner_segments (plog st)),
        last_cleaner_segment := f, free_segments := y,
        last_free_segment := (if y = 0 then 0 else last_free_segment (plog st))\<rparr>)
      ((if l = 0 then nexts (segs st) else (nexts (segs st))(l \<mapsto> f))(f \<mapsto> 0)) (seg_data (segs st)) st'"
  using assms
  by (cases "l = 0") (auto simp: get_new_cleaner_segment_def access_simps Let_def relinked_def same_rest_def elim!: nextsE)

lemma get_emergency_run:
  assumes "emergency_cleaner_segments (plog st) = f" "f \<noteq> 0" and "nexts (segs st) f = Some y"
    and "last_cleaner_segment (plog st) = l" and "l \<noteq> 0 \<Longrightarrow> nexts (segs st) l \<noteq> None" and "l \<noteq> f"
    and "Cleaner_segs \<notin> held st" "Emergency_segs \<notin> held st"
  shows "\<exists>st'. get_emergency_cleaner_segment E st = Some (f, st') \<and>
    relinked st ((plog st)\<lparr>cleaner_segments := (if l = 0 then f else cleaner_segments (plog st)),
        last_cleaner_segment := f, emergency_cleaner_segments := y,
        last_emergency_cleaner_segment := (if y = 0 then 0 else last_emergency_cleaner_segment (plog st)),
        current_emergency_count := current_emergency_count (plog st) - 1\<rparr>)
      ((if l = 0 then nexts (segs st) else (nexts (segs st))(l \<mapsto> f))(f \<mapsto> 0)) (seg_data (segs st)) st'"
  using assms
  by (cases "l = 0") (auto simp: get_emergency_cleaner_segment_def access_simps Let_def relinked_def same_rest_def elim!: nextsE)

lemma refill_run:
  assumes "last_emergency_cleaner_segment (plog st) = l" and "l \<noteq> 0 \<Longrightarrow> nexts (segs st) l \<noteq> None" 
    and "Emergency_segs \<notin> held st"
  shows "\<exists>st'. refill_emergency_cleaner_segment E cur st = Some st' \<and>
    relinked st ((plog st)\<lparr>emergency_cleaner_segments := (if l = 0 then cur else emergency_cleaner_segments (plog st)),
        last_emergency_cleaner_segment := cur,
        current_emergency_count := current_emergency_count (plog st) + 1\<rparr>)
      (if l = 0 then nexts (segs st) else (nexts (segs st))(l \<mapsto> cur)) (seg_data (segs st)) st'"
  using assms
  by (cases "l = 0") (auto simp: refill_emergency_cleaner_segment_def access_simps Let_def relinked_def same_rest_def elim!: nextsE)

lemma append_free_run:
  assumes "last_free_segment (plog st) = l" and "l \<noteq> 0 \<Longrightarrow> nexts (segs st) l \<noteq> None" 
  shows "\<exists>st'. append_free E cur st = Some st' \<and>
    relinked st ((plog st)\<lparr>free_segments := (if l = 0 then cur else free_segments (plog st)),
        last_free_segment := cur\<rparr>)
      (if l = 0 then nexts (segs st) else (nexts (segs st))(l \<mapsto> cur)) (seg_data (segs st)) st'"
  using assms
  by (cases "l = 0") (auto simp: append_free_def access_simps Let_def relinked_def same_rest_def elim!: nextsE)

lemma reset_run:
  assumes "cur \<noteq> 0" and "seg_data (segs st) cur = Some (i, u, m)"
  shows "\<exists>st'. reset_segment E cur st = Some st' \<and>
    relinked st (plog st) ((nexts (segs st))(cur \<mapsto> 0)) ((seg_data (segs st))(cur \<mapsto> (i, 0, m))) st'"
  using assms
  by (auto simp: reset_segment_def access_simps Let_def relinked_def same_rest_def seg_data_def nexts_def fun_eq_iff)

lemma find_segment_path:
  assumes "path (nexts (segs st)) p (xs @ y # ys) 0" and "ids (segs st) y = Some i"
    and "\<And>x. x \<in> set xs \<Longrightarrow> ids (segs st) x \<noteq> Some i"
  shows "find_segment st i prev p = Some (if xs = [] then prev else last xs, y) \<and>
    find_segment_strict st i prev p = Some (if xs = [] then prev else last xs, y)"
  using assms
proof (induction xs arbitrary: p prev)
  case Nil
  then show ?case
    by (subst find_segment.simps, subst find_segment_strict.simps) (auto simp: get_seg_def nexts_def ids_def)
next
  case (Cons x xs)
  obtain g where g: "p = x" "x \<noteq> 0" "segs st x = Some g" "path (nexts (segs st)) (next_segment g) (xs @ y # ys) 0"
    using Cons.prems(1) by (auto elim: nextsE)
  have "seg_id g \<noteq> i"
    using Cons.prems(3) [of x] g(3) by (simp add: ids_def)
  with g Cons.IH [OF g(4) Cons.prems(2), of x] Cons.prems(3) show ?case
    by (subst find_segment.simps, subst find_segment_strict.simps) (auto simp: get_seg_def)
qed

lemma find_segment_missing:
  assumes "path (nexts (segs st)) p xs 0" and "\<And>x. x \<in> set xs \<Longrightarrow> ids (segs st) x \<noteq> Some i"
  shows "find_segment st i prev p = Some (if xs = [] then prev else last xs, 0)"
  using assms
proof (induction xs arbitrary: p prev)
  case Nil
  then show ?case by (subst find_segment.simps) simp
next
  case (Cons x xs)
  obtain g where g: "p = x" "x \<noteq> 0" "segs st x = Some g" "path (nexts (segs st)) (next_segment g) xs 0"
    using Cons.prems(1) by (auto elim: nextsE)
  have "seg_id g \<noteq> i"
    using Cons.prems(2) [of x] g(3) by (simp add: ids_def)
  with g Cons.IH [OF g(4), of x] Cons.prems(2) show ?case
    by (subst find_segment.simps) (auto simp: get_seg_def)
qed


lemma unlink_used_run:
  assumes l: "seg_list (nexts (segs st)) (used_segments (plog st)) (last_used_segment (plog st)) (xs @ y # ys)"
    and d: "distinct (xs @ y # ys)" and inj: "inj_on (ids (segs st)) (set (xs @ y # ys))"
    and y: "ids (segs st) y = Some i" "nexts (segs st) y = Some z"
  shows "\<exists>st'. unlink_used E i (if xs = [] then 0 else last xs) y st = Some st' \<and>
    relinked st ((plog st)\<lparr>used_segments := (if xs = [] then z else used_segments (plog st)),
        last_used_segment := (if ys = [] then last_of xs else last_used_segment (plog st))\<rparr>)
      (if xs = [] then nexts (segs st) else (nexts (segs st))(last xs \<mapsto> z)) (seg_data (segs st)) st'"
  by (rule unlink_ends [OF assms]; cases "xs = []")
    (auto simp: unlink_used_def access_simps Let_def relinked_def same_rest_def)

lemma unlink_cleaner_run:
  assumes l: "seg_list (nexts (segs st)) (cleaner_segments (plog st)) (last_cleaner_segment (plog st)) (xs @ y # ys)"
    and d: "distinct (xs @ y # ys)" and inj: "inj_on (ids (segs st)) (set (xs @ y # ys))"
    and y: "ids (segs st) y = Some i" "nexts (segs st) y = Some z"
  shows "\<exists>st'. unlink_cleaner E i (if xs = [] then 0 else last xs) y st = Some st' \<and>
    relinked st ((plog st)\<lparr>cleaner_segments := (if xs = [] then z else cleaner_segments (plog st)),
        last_cleaner_segment := (if ys = [] then last_of xs else last_cleaner_segment (plog st))\<rparr>)
      (if xs = [] then nexts (segs st) else (nexts (segs st))(last xs \<mapsto> z)) (seg_data (segs st)) st'"
  by (rule unlink_ends [OF assms]; cases "xs = []")
    (auto simp: unlink_cleaner_def access_simps Let_def relinked_def same_rest_def)


definition abs_new_cleaner :: "lists \<Rightarrow> lists" where
  "abs_new_cleaner A = (case l_free A of
      s # ss \<Rightarrow> A\<lparr>l_free := ss, l_cleaner := l_cleaner A @ [s]\<rparr>
    | [] \<Rightarrow> (case l_emergency A of
        s # ss \<Rightarrow> A\<lparr>l_emergency := ss, l_cleaner := l_cleaner A @ [s]\<rparr>
      | [] \<Rightarrow> A))"

lemma get_emergency_refines:
  assumes ok: "lists_ok (plog st) (segs st) A" and h: "Cleaner_segs \<notin> held st" "Emergency_segs \<notin> held st"
    and f: "l_emergency A = f # fs"
  shows "\<exists>st'. get_emergency_cleaner_segment E st = Some (f, st') \<and> list_frame st st' \<and>
     lists_ok (plog st') (segs st') (A\<lparr>l_emergency := fs, l_cleaner := l_cleaner A @ [f]\<rparr>) \<and>
     seg_data (segs st') = seg_data (segs st) \<and> head_position (plog st') = head_position (plog st)"
proof -
  note okD = lists_okD [OF ok]
  let ?l = "last_cleaner_segment (plog st)" and ?n = "nexts (segs st)"
  define n' where "n' = (if ?l = 0 then ?n else ?n(?l \<mapsto> f))(f \<mapsto> 0)"
  obtain y where y: "emergency_cleaner_segments (plog st) = f" "f \<noteq> 0" "?n f = Some y"
    "seg_list ?n y (if y = 0 then 0 else last_emergency_cleaner_segment (plog st)) fs"
    using seg_list_ConsD [of ?n _ _ f fs] okD(5) f by auto
  have l: "?l \<noteq> 0 \<Longrightarrow> ?l \<in> set (l_cleaner A)" "?l \<noteq> 0 \<Longrightarrow> ?n ?l \<noteq> None"
    using seg_list_last_in [OF okD(4)] seg_list_last_next [OF okD(4)] by auto
  have d: "distinct (l_cleaner A @ [f])" "?l \<noteq> f"
    using okD(6) f l(1) y(2) by (auto simp: all_segs_def)
  obtain st' where st': "get_emergency_cleaner_segment E st = Some (f, st')" and
    r: "relinked st ((plog st)\<lparr>cleaner_segments := (if ?l = 0 then f else cleaner_segments (plog st)),
        last_cleaner_segment := f, emergency_cleaner_segments := y,
        last_emergency_cleaner_segment := (if y = 0 then 0 else last_emergency_cleaner_segment (plog st)),
        current_emergency_count := current_emergency_count (plog st) - 1\<rparr>) n' (seg_data (segs st)) st'"
    using get_emergency_run [OF y(1-3) refl l(2) d(2) h] unfolding n'_def by blast
  have keep: "seg_list n' a b xs" if "seg_list ?n a b xs" "set xs \<inter> set (f # l_cleaner A) = {}" for a b xs
    by (rule seg_list_cong [OF that(1)]) (use that(2) l(1) in \<open>auto simp: n'_def\<close>)
  have sep: "set xs \<inter> set (f # l_cleaner A) = {}" if "xs \<in> {l_head A, l_free A, l_used A, fs}" for xs
    using okD(6) f that by (auto simp: all_segs_def)
  have cnt: "unat (current_emergency_count (plog st) - 1) = length fs"
    using okD(8) f by (simp add: unat_minus_one_nat)
  have cl: "seg_list n' (if ?l = 0 then f else cleaner_segments (plog st)) f (l_cleaner A @ [f])"
    using seg_list_enq [OF okD(4) d(1) y(2)] by (simp add: n'_def)
  have "lists_ok (plog st') (segs st') (A\<lparr>l_emergency := fs, l_cleaner := l_cleaner A @ [f]\<rparr>)"
    by (rule lists_okI [OF r okD(7) refl])
      (use keep [OF okD(1) sep] keep [OF okD(2) sep] keep [OF okD(3) sep] keep [OF y(4) sep] cl
        okD(6) f cnt in \<open>auto simp: all_segs_def\<close>)
  with st' r relinked_frame [OF r] show ?thesis
    by (auto simp: relinked_def)
qed

definition abs_cleaner_choice :: "lists \<Rightarrow> pmo" where
  "abs_cleaner_choice A = (case l_free A @ l_emergency A of [] \<Rightarrow> 0 | s # ss \<Rightarrow> s)"

lemma get_new_cleaner_refines:
  assumes ok: "lists_ok (plog st) (segs st) A"
    and h: "Cleaner_segs \<notin> held st" "Emergency_segs \<notin> held st" "Free_segs \<notin> held st"
  shows "\<exists>st'. get_new_cleaner_segment E st = Some (abs_cleaner_choice A, st') \<and> list_frame st st' \<and>
     lists_ok (plog st') (segs st') (abs_new_cleaner A) \<and>
     seg_data (segs st') = seg_data (segs st) \<and> head_position (plog st') = head_position (plog st)"
proof (cases "l_free A")
  case Nil
  then have f0: "free_segments (plog st) = 0"
    using lists_okD(2) [OF ok] by simp
  show ?thesis
  proof (cases "l_emergency A")
    case Nil
    then have "emergency_cleaner_segments (plog st) = 0"
      using lists_okD(5) [OF ok] by simp
    with f0 ok Nil \<open>l_free A = []\<close> show ?thesis
      by (simp add: get_new_cleaner_segment_def get_emergency_cleaner_segment_def abs_new_cleaner_def
          abs_cleaner_choice_def)
  next
    case (Cons f fs)
    from get_emergency_refines [OF ok h(1,2) Cons] f0 Cons \<open>l_free A = []\<close> show ?thesis
      by (simp add: get_new_cleaner_segment_def abs_new_cleaner_def abs_cleaner_choice_def)
  qed
next
  case (Cons f fs)
  note okD = lists_okD [OF ok]
  let ?l = "last_cleaner_segment (plog st)" and ?n = "nexts (segs st)"
  define n' where "n' = (if ?l = 0 then ?n else ?n(?l \<mapsto> f))(f \<mapsto> 0)"
  obtain y where y: "free_segments (plog st) = f" "f \<noteq> 0" "?n f = Some y"
    "seg_list ?n y (if y = 0 then 0 else last_free_segment (plog st)) fs"
    using seg_list_ConsD [of ?n _ _ f fs] okD(2) Cons by auto
  have l: "?l \<noteq> 0 \<Longrightarrow> ?l \<in> set (l_cleaner A)" "?l \<noteq> 0 \<Longrightarrow> ?n ?l \<noteq> None"
    using seg_list_last_in [OF okD(4)] seg_list_last_next [OF okD(4)] by auto
  have d: "distinct (l_cleaner A @ [f])" "?l \<noteq> f"
    using okD(6) Cons l(1) y(2) by (auto simp: all_segs_def)
  obtain st' where st': "get_new_cleaner_segment E st = Some (f, st')" and
    r: "relinked st ((plog st)\<lparr>cleaner_segments := (if ?l = 0 then f else cleaner_segments (plog st)),
        last_cleaner_segment := f, free_segments := y,
        last_free_segment := (if y = 0 then 0 else last_free_segment (plog st))\<rparr>) n' (seg_data (segs st)) st'"
    using get_new_cleaner_run [OF y(1-3) refl l(2) d(2) h(1,3)] unfolding n'_def by blast
  have keep: "seg_list n' a b xs" if "seg_list ?n a b xs" "set xs \<inter> set (f # l_cleaner A) = {}" for a b xs
    by (rule seg_list_cong [OF that(1)]) (use that(2) l(1) in \<open>auto simp: n'_def\<close>)
  have sep: "set xs \<inter> set (f # l_cleaner A) = {}" if "xs \<in> {l_head A, l_emergency A, l_used A, fs}" for xs
    using okD(6) Cons that by (auto simp: all_segs_def)
  have cl: "seg_list n' (if ?l = 0 then f else cleaner_segments (plog st)) f (l_cleaner A @ [f])"
    using seg_list_enq [OF okD(4) d(1) y(2)] by (simp add: n'_def)
  have "lists_ok (plog st') (segs st') (abs_new_cleaner A)"
    by (rule lists_okI [OF r okD(7) refl])
      (use keep [OF okD(1) sep] keep [OF okD(5) sep] keep [OF okD(3) sep] keep [OF y(4) sep] cl
        okD(6,8) Cons in \<open>auto simp: all_segs_def abs_new_cleaner_def\<close>)
  with st' r Cons relinked_frame [OF r] show ?thesis
    by (auto simp: relinked_def abs_cleaner_choice_def)
qed

lemma append_used_run:
  assumes "last_used_segment (plog st) = l" and "l \<noteq> 0 \<Longrightarrow> nexts (segs st) l \<noteq> None" 
  shows "\<exists>st'. append_used E cur st = Some st' \<and>
    relinked st ((plog st)\<lparr>used_segments := (if l = 0 then cur else used_segments (plog st)),
        last_used_segment := cur\<rparr>)
      (if l = 0 then nexts (segs st) else (nexts (segs st))(l \<mapsto> cur)) (seg_data (segs st)) st'"
  using assms
  by (cases "l = 0") (auto simp: append_used_def access_simps Let_def relinked_def same_rest_def elim!: nextsE)

lemma set_next_run:
  assumes "y \<noteq> 0" and "nexts (segs st) y \<noteq> None"
  shows "\<exists>st'. upd_seg y (\<lambda>s. s\<lparr>next_segment := v\<rparr>) st = Some st' \<and>
    relinked st (plog st) ((nexts (segs st))(y \<mapsto> v)) (seg_data (segs st)) st'"
  using assms by (auto simp: access_simps relinked_def same_rest_def elim!: nextsE)

lemma relinked_ids: "relinked st l n d st' \<Longrightarrow> (\<And>s. map_option fst (d s) = ids (segs st) s) \<Longrightarrow> ids (segs st') = ids (segs st)"
  by (auto simp: relinked_def ids_seg_data fun_eq_iff)

text \<open>A segment on a list is found there by its id.\<close>

lemma found_segment:
  assumes sl: "seg_list (nexts (segs st)) f l (xs @ y # ys)" and d: "distinct (xs @ y # ys)"
    and inj: "inj_on (ids (segs st)) (set (xs @ y # ys))" and iy: "ids (segs st) y = Some i"
  shows "y \<noteq> 0" and "\<exists>z. nexts (segs st) y = Some z"
    and "find_segment (st\<lparr>held := H\<rparr>) i 0 f = Some (if xs = [] then 0 else last xs, y)"
    and "find_segment_strict (st\<lparr>held := H\<rparr>) i 0 f = Some (if xs = [] then 0 else last xs, y)"
proof -
  show "y \<noteq> 0" "\<exists>z. nexts (segs st) y = Some z"
    using seg_list_dom [OF sl] by (auto simp: nexts_def)
  have "path (nexts (segs (st\<lparr>held := H\<rparr>))) f (xs @ y # ys) 0"
    using sl by (simp add: seg_list_def)
  note find = find_segment_path [OF this, of i 0]
  have "ids (segs st) x \<noteq> Some i" if "x \<in> set xs" for x
    using inj d iy that by (auto simp: inj_on_def)
  with find iy show "find_segment (st\<lparr>held := H\<rparr>) i 0 f = Some (if xs = [] then 0 else last xs, y)"
    "find_segment_strict (st\<lparr>held := H\<rparr>) i 0 f = Some (if xs = [] then 0 else last xs, y)"
    by simp_all
qed

lemma append_cleaner_to_used_refines:
  assumes ok: "lists_ok (plog st) (segs st) A" and h: "Cleaner_segs \<notin> held st" "Used_segs \<notin> held st"
    and cl: "l_cleaner A = xs @ y # ys" and i: "ids (segs st) y = Some i"
  shows "\<exists>st'. append_cleaner_segment_to_used_segments E i st = Some st' \<and> list_frame st st' \<and>
     lists_ok (plog st') (segs st') (A\<lparr>l_cleaner := xs @ ys, l_used := l_used A @ [y]\<rparr>) \<and>
     seg_data (segs st') = seg_data (segs st) \<and> head_position (plog st') = head_position (plog st) \<and>
     used_segments_count (plog st') = used_segments_count (plog st)"
proof -
  note okD = lists_okD [OF ok]
  let ?l = "last_used_segment (plog st)" and ?n = "nexts (segs st)"
  let ?prev = "if xs = [] then 0 else last xs"
  define n1 where "n1 = (if ?l = 0 then ?n else ?n(?l \<mapsto> y))"
  have dist: "distinct (xs @ y # ys)" "distinct (l_used A @ [y])" "set (xs @ y # ys) \<inter> set (l_used A) = {}"
    and inj: "inj_on (ids (segs st)) (set (xs @ y # ys))"
    using okD(6,7) cl by (auto simp: all_segs_def intro: inj_on_subset)
  note fs = found_segment [OF okD(4) [unfolded cl] dist(1) inj i]
  note y = fs(1) and find = fs(4)
  obtain z where z: "?n y = Some z" using fs(2) by blast
  have l: "?l \<noteq> 0 \<Longrightarrow> ?l \<in> set (l_used A)" "?l \<noteq> 0 \<Longrightarrow> ?n ?l \<noteq> None"
    using seg_list_last_in [OF okD(3)] seg_list_last_next [OF okD(3)] by auto
  let ?st1 = "st\<lparr>held := insert Cleaner_segs (held st)\<rparr>"
  let ?st2 = "?st1\<lparr>held := insert Used_segs (held ?st1)\<rparr>"
  obtain st3 where st3: "append_used E y ?st2 = Some st3" and r3: "relinked ?st2
      ((plog st)\<lparr>used_segments := (if ?l = 0 then y else used_segments (plog st)), last_used_segment := y\<rparr>)
      n1 (seg_data (segs st)) st3"
    using append_used_run [of ?st2 ?l E y] l(2) by (auto simp: n1_def cong: if_cong)
  have cl1: "seg_list n1 (cleaner_segments (plog st)) (last_cleaner_segment (plog st)) (xs @ y # ys)"
    using okD(4) cl by (auto intro!: seg_list_cong [where n = ?n] simp: n1_def) (use l(1) dist(3) in auto)
  have z1: "n1 y = Some z"
    using z l(1) dist(2) by (auto simp: n1_def)
  have ids3: "ids (segs st3) = ids (segs st)"
    using relinked_ids [OF r3] by (simp add: ids_seg_data)
  obtain st4 where st4: "unlink_cleaner E i ?prev y st3 = Some st4" and r4: "relinked st3
      ((plog st3)\<lparr>cleaner_segments := (if xs = [] then z else cleaner_segments (plog st)),
        last_cleaner_segment := (if ys = [] then last_of xs else last_cleaner_segment (plog st))\<rparr>)
      (if xs = [] then n1 else n1(last xs \<mapsto> z)) (seg_data (segs st)) st4"
    using unlink_cleaner_run [of st3 xs y ys i z E] cl1 dist(1) inj ids3 i z1 r3
    by (auto simp: relinked_def)
  let ?st4 = "unlock Cleaner_segs st4"
  define n3 where "n3 = (if xs = [] then n1 else n1(last xs \<mapsto> z))(y \<mapsto> 0)"
  have y4: "nexts (segs ?st4) y \<noteq> None"
    using r4 z1 by (auto simp: relinked_def unlock_def)
  obtain st5 where st5: "upd_seg y (\<lambda>s. s\<lparr>next_segment := 0\<rparr>) ?st4 = Some st5"
    and r5: "relinked ?st4 (plog st4) n3 (seg_data (segs st)) st5"
    using set_next_run [OF y y4, of 0] r4 by (auto simp: relinked_def n3_def unlock_def)
  let ?st' = "persist E 0 sizeof_log (unlock Used_segs (persist E (y + off_next) 8 st5))"
  define l' where "l' = (plog st)\<lparr>used_segments := (if ?l = 0 then y else used_segments (plog st)), last_used_segment := y,
     cleaner_segments := (if xs = [] then z else cleaner_segments (plog st)),
     last_cleaner_segment := (if ys = [] then last_of xs else last_cleaner_segment (plog st))\<rparr>"
  have run: "append_cleaner_segment_to_used_segments E i st = Some ?st'"
    using h find st3 st4 st5 by (simp add: append_cleaner_segment_to_used_segments_def lock_def Let_def)
  have r: "relinked st l' n3 (seg_data (segs st)) ?st'"
    using h r3 r4 r5 by (auto simp: relinked_def same_rest_def access_simps l'_def)
  have n3_out: "n3 x = ?n x" if "x \<notin> set (xs @ y # l_used A)" for x
  proof -
    have "x \<noteq> y" "xs \<noteq> [] \<Longrightarrow> x \<noteq> last xs" "?l \<noteq> 0 \<Longrightarrow> x \<noteq> ?l"
      using that l(1) last_in_set [of xs] by auto
    then show ?thesis by (simp add: n3_def n1_def)
  qed
  have keep: "seg_list n3 a b zs" if "seg_list ?n a b zs" "set zs \<inter> set (xs @ y # l_used A) = {}" for a b zs
    by (rule seg_list_cong [OF that(1)]) (use that(2) n3_out in blast)
  have sep: "set zs \<inter> set (xs @ y # l_used A) = {}" if "zs \<in> {l_head A, l_free A, l_emergency A}" for zs
    using okD(6) cl that by (auto simp: all_segs_def)
  have n3_used: "n3 x = (n1(y \<mapsto> 0)) x" if "x \<notin> set xs" for x
    using that last_in_set [of xs] by (auto simp: n3_def)
  have "x \<notin> set xs" if "x \<in> set (l_used A @ [y])" for x
    using that dist(1,3) by auto
  then have "seg_list n3 (if ?l = 0 then y else used_segments (plog st)) y (l_used A @ [y])"
    by (intro seg_list_cong [OF seg_list_enq [OF okD(3) dist(2) y, folded n1_def]] n3_used)
  then have "seg_list n3 (used_segments l') (last_used_segment l') (l_used A @ [y])"
    by (simp add: l'_def)
  moreover have "seg_list n3 (cleaner_segments l') (last_cleaner_segment l') (xs @ ys)"
    using seg_list_remove [OF cl1 dist(1) z1] dist(1) by (simp add: n3_def l'_def)
  ultimately have "lists_ok (plog ?st') (segs ?st') (A\<lparr>l_cleaner := xs @ ys, l_used := l_used A @ [y]\<rparr>)"
    by (intro lists_okI [OF r okD(7) refl])
      (use keep [OF okD(1) sep] keep [OF okD(2) sep] keep [OF okD(5) sep] okD(6,8) cl
        in \<open>auto simp: all_segs_def l'_def\<close>)
  with run relinked_frame [OF r] r show ?thesis
    by (auto simp: relinked_def l'_def)
qed

text \<open>A segment that is given back fills the emergency list if that is empty.\<close>

definition abs_release :: "pmo \<Rightarrow> lists \<Rightarrow> lists" where
  "abs_release y A = (if l_emergency A = [] then A\<lparr>l_emergency := [y]\<rparr> else A\<lparr>l_free := l_free A @ [y]\<rparr>)"

definition release_hdr :: "pmo \<Rightarrow> lists \<Rightarrow> log_hdr \<Rightarrow> log_hdr" where
  "release_hdr y A l = (if l_emergency A = []
     then l\<lparr>emergency_cleaner_segments := y, last_emergency_cleaner_segment := y, current_emergency_count := current_emergency_count l + 1\<rparr>
     else l\<lparr>free_segments := (if last_free_segment l = 0 then y else free_segments l), last_free_segment := y\<rparr>)"

definition release_nexts :: "pmo \<Rightarrow> lists \<Rightarrow> log_hdr \<Rightarrow> (pmo \<rightharpoonup> pmo) \<Rightarrow> pmo \<rightharpoonup> pmo" where
  "release_nexts y A l n = (if l_emergency A = [] \<or> last_free_segment l = 0 then n else n(last_free_segment l \<mapsto> y))"

lemma release_run:
  assumes ok: "lists_ok (plog st) (segs st) A" and h: "Emergency_segs \<notin> held st" "Free_segs \<notin> held st"
    and st1: "plog st1 = plog st" "segs st1 = segs st" "held st1 = H" "Emergency_segs \<notin> H" "Free_segs \<notin> H"
  shows "\<exists>st'. (if unat (current_emergency_count (plog st1)) < EMERGENCY_CLEANER_SEGMENT_COUNT
        then refill_emergency_cleaner_segment E y st1
        else do { st \<leftarrow> lock Free_segs st1; append_free E y st }) = Some st' \<and>
     relinked (st1\<lparr>held := (if l_emergency A = [] then H else insert Free_segs H)\<rparr>)
       (release_hdr y A (plog st)) (release_nexts y A (plog st) (nexts (segs st))) (seg_data (segs st)) st'"
proof -
  note okD = lists_okD [OF ok]
  have c: "unat (current_emergency_count (plog st)) < EMERGENCY_CLEANER_SEGMENT_COUNT \<longleftrightarrow> l_emergency A = []"
    using okD(8) by simp
  show ?thesis
  proof (cases "l_emergency A = []")
    case True
    then have "last_emergency_cleaner_segment (plog st) = 0"
      using okD(5) by simp
    then show ?thesis
      using refill_run [of st1 0 E y] c True st1
      by (auto simp: release_hdr_def release_nexts_def relinked_def same_rest_def)
  next
    case False
    have "last_free_segment (plog st) \<noteq> 0 \<Longrightarrow> nexts (segs st) (last_free_segment (plog st)) \<noteq> None"
      using seg_list_last_next [OF okD(2)] by auto
    then show ?thesis
      using append_free_run [of "st1\<lparr>held := insert Free_segs H\<rparr>" "last_free_segment (plog st)" E y] c False st1
      by (simp add: release_hdr_def release_nexts_def lock_def cong: if_cong)
  qed
qed

lemma release_nexts_out:
  assumes ok: "lists_ok l sm A" and x: "x \<notin> set (l_free A)"
  shows "release_nexts y A l n x = n x"
  using seg_list_last_in [OF lists_okD(2) [OF ok]] x by (auto simp: release_nexts_def)

lemma release_lists:
  assumes ok: "lists_ok l sm A" and y: "y \<noteq> 0" "y \<notin> set (l_free A)"
    and out: "\<And>x. x \<in> set (l_free A) \<union> set (l_emergency A) \<union> {y} \<Longrightarrow> n x = ((release_nexts y A l (nexts sm))(y \<mapsto> 0)) x"
    and y': "y \<notin> set (l_emergency A)"
  defines "l' \<equiv> release_hdr y A l" and "A' \<equiv> abs_release y A"
  shows "seg_list n (free_segments l') (last_free_segment l') (l_free A')"
    and "seg_list n (emergency_cleaner_segments l') (last_emergency_cleaner_segment l') (l_emergency A')"
    and "unat (current_emergency_count l') = length (l_emergency A')"
proof -
  note okD = lists_okD [OF ok]
  have dist: "distinct (l_free A @ [y])" "set (l_free A) \<inter> set (l_emergency A) = {}"
    using okD(6) y by (auto simp: all_segs_def)
  have em: "n x = nexts sm x" if "x \<in> set (l_emergency A)" for x
    using out [of x] release_nexts_out [OF ok, of x] dist(2) that y' by auto
  show "seg_list n (free_segments l') (last_free_segment l') (l_free A')"
  proof (cases "l_emergency A = []")
    case True
    have "seg_list n (free_segments l) (last_free_segment l) (l_free A)"
      by (rule seg_list_cong [OF okD(2)]) (use out True y in \<open>auto simp: release_nexts_def\<close>)
    with True show ?thesis by (simp add: l'_def A'_def release_hdr_def abs_release_def)
  next
    case False
    then have "release_nexts y A l (nexts sm) =
        (if last_free_segment l = 0 then nexts sm else (nexts sm)(last_free_segment l \<mapsto> y))"
      by (simp add: release_nexts_def)
    note out' = out [unfolded this]
    have "seg_list n (if last_free_segment l = 0 then y else free_segments l) y (l_free A @ [y])"
      by (rule seg_list_cong [OF seg_list_enq [OF okD(2) dist(1) y(1)]]) (rule out', auto)
    with False show ?thesis by (simp add: l'_def A'_def release_hdr_def abs_release_def)
  qed
  show "seg_list n (emergency_cleaner_segments l') (last_emergency_cleaner_segment l') (l_emergency A')"
  proof (cases "l_emergency A = []")
    case True
    with out [of y] y(1) show ?thesis
      by (simp add: l'_def A'_def release_hdr_def abs_release_def seg_list_singleton)
  next
    case False
    have "seg_list n (emergency_cleaner_segments l) (last_emergency_cleaner_segment l) (l_emergency A)"
      by (rule seg_list_cong [OF okD(5)]) (use em in simp)
    with False show ?thesis by (simp add: l'_def A'_def release_hdr_def abs_release_def)
  qed
  have "current_emergency_count l = 0" if "l_emergency A = []"
    using okD(8) that by (simp add: unat_eq_0)
  with okD(8) show "unat (current_emergency_count l') = length (l_emergency A')"
    by (auto simp: l'_def A'_def release_hdr_def abs_release_def)
qed

lemma release_hdr_simps [simp]:
  "head_segment (release_hdr y A l) = head_segment l" "used_segments (release_hdr y A l) = used_segments l"
  "last_used_segment (release_hdr y A l) = last_used_segment l" "cleaner_segments (release_hdr y A l) = cleaner_segments l"
  "last_cleaner_segment (release_hdr y A l) = last_cleaner_segment l" "signature (release_hdr y A l) = signature l"
  "current_id (release_hdr y A l) = current_id l" "regular_termination (release_hdr y A l) = regular_termination l"
  "head_position (release_hdr y A l) = head_position l" "used_segments_count (release_hdr y A l) = used_segments_count l"
  by (simp_all add: release_hdr_def)

lemma abs_release_simps [simp]:
  "l_head (abs_release y A) = l_head A" "l_used (abs_release y A) = l_used A"
  "l_cleaner (abs_release y A) = l_cleaner A"
  "mset (all_segs (abs_release y A)) = add_mset y (mset (all_segs A))"
  by (simp_all add: abs_release_def all_segs_def)

text \<open>
  The links after the segment \<open>y\<close> has moved from the list \<open>xs @ y # ys\<close> to the free or the emergency
  segments.
\<close>

definition released :: "pmo \<Rightarrow> pmo list \<Rightarrow> pmo \<Rightarrow> lists \<Rightarrow> log_hdr \<Rightarrow> (pmo \<rightharpoonup> pmo) \<Rightarrow> pmo \<rightharpoonup> pmo" where
  "released y xs z A l n = (let n1 = release_nexts y A l n in (if xs = [] then n1 else n1(last xs \<mapsto> z))(y \<mapsto> 0))"

lemma release_links:
  assumes ok: "lists_ok l sm A" and sl: "seg_list (nexts sm) f lst (xs @ y # ys)" and d: "distinct (xs @ y # ys)"
    and out: "set (xs @ y # ys) \<inter> (set (l_free A) \<union> set (l_emergency A)) = {}" and z: "nexts sm y = Some z"
  defines "n1 \<equiv> release_nexts y A l (nexts sm)" and "n3 \<equiv> released y xs z A l (nexts sm)"
  shows "seg_list n1 f lst (xs @ y # ys)" and "n1 y = Some z"
    and "seg_list n3 (if xs = [] then z else f) (if ys = [] then last_of xs else lst) (xs @ ys)"
    and "\<And>x. x \<notin> set xs \<Longrightarrow> n3 x = (n1(y \<mapsto> 0)) x"
    and "\<And>a b zs. seg_list (nexts sm) a b zs \<Longrightarrow> set zs \<inter> (set (xs @ [y]) \<union> set (l_free A)) = {} \<Longrightarrow> seg_list n3 a b zs"
proof -
  have n1: "n1 x = nexts sm x" if "x \<notin> set (l_free A)" for x
    using release_nexts_out [OF ok that] by (simp add: n1_def)
  show 1: "seg_list n1 f lst (xs @ y # ys)"
    using sl out by (auto intro!: seg_list_cong [where n = "nexts sm"] n1)
  show 2: "n1 y = Some z"
    using z n1 [of y] out by simp
  have n3: "n3 = (if xs = [] then n1 else n1(last xs \<mapsto> z))(y \<mapsto> 0)"
    by (simp add: n3_def n1_def released_def Let_def)
  show "seg_list n3 (if xs = [] then z else f) (if ys = [] then last_of xs else lst) (xs @ ys)"
    using seg_list_remove [OF 1 d 2] d by (simp add: n3)
  show 3: "n3 x = (n1(y \<mapsto> 0)) x" if "x \<notin> set xs" for x
    using that last_in_set [of xs] by (auto simp: n3)
  fix a b zs
  assume zs: "seg_list (nexts sm) a b zs" "set zs \<inter> (set (xs @ [y]) \<union> set (l_free A)) = {}"
  show "seg_list n3 a b zs"
  proof (rule seg_list_cong [OF zs(1)])
    fix x
    assume "x \<in> set zs"
    with zs(2) have "x \<notin> set xs" "x \<noteq> y" "x \<notin> set (l_free A)" by auto
    then show "n3 x = nexts sm x" using 3 n1 by simp
  qed
qed

lemma released_lists:
  assumes ok: "lists_ok l sm A" and sl: "seg_list (nexts sm) f lst (xs @ y # ys)" and d: "distinct (xs @ y # ys)"
    and out: "set (xs @ y # ys) \<inter> (set (l_free A) \<union> set (l_emergency A)) = {}" and z: "nexts sm y = Some z" "y \<noteq> 0"
  defines "n3 \<equiv> released y xs z A l (nexts sm)" and "l' \<equiv> release_hdr y A l" and "A' \<equiv> abs_release y A"
  shows "seg_list n3 (free_segments l') (last_free_segment l') (l_free A')"
    and "seg_list n3 (emergency_cleaner_segments l') (last_emergency_cleaner_segment l') (l_emergency A')"
    and "unat (current_emergency_count l') = length (l_emergency A')"
proof -
  have y: "y \<notin> set (l_free A)" "y \<notin> set (l_emergency A)"
    using out by auto
  have "n3 x = ((release_nexts y A l (nexts sm))(y \<mapsto> 0)) x" if "x \<in> set (l_free A) \<union> set (l_emergency A) \<union> {y}" for x
    unfolding n3_def by (rule release_links(4) [OF ok sl d out z(1)]) (use that out d in auto)
  note r = release_lists [OF ok z(2) y(1) this y(2)]
  show "seg_list n3 (free_segments l') (last_free_segment l') (l_free A')"
    unfolding l'_def A'_def by (rule r(1))
  show "seg_list n3 (emergency_cleaner_segments l') (last_emergency_cleaner_segment l') (l_emergency A')"
    unfolding l'_def A'_def by (rule r(2))
  show "unat (current_emergency_count l') = length (l_emergency A')"
    unfolding l'_def A'_def by (rule r(3))
qed

lemma abs_release_upd [simp]:
  "l_free (abs_release y (A\<lparr>l_used := us\<rparr>)) = l_free (abs_release y A)"
  "l_emergency (abs_release y (A\<lparr>l_used := us\<rparr>)) = l_emergency (abs_release y A)"
  "l_free (abs_release y (A\<lparr>l_cleaner := us\<rparr>)) = l_free (abs_release y A)"
  "l_emergency (abs_release y (A\<lparr>l_cleaner := us\<rparr>)) = l_emergency (abs_release y A)"
  by (simp_all add: abs_release_def)

lemma release_okI:
  assumes r: "relinked st l' n3 ((seg_data (segs st))(y \<mapsto> (i, 0, m))) st'" and ok: "lists_ok (plog st) (segs st) A"
    and i: "seg_data (segs st) y = Some (i, u, m)" and ms: "mset (all_segs A') = mset (all_segs A)"
    and l: "seg_list n3 (head_segment l') (head_segment l') (l_head A')"
      "seg_list n3 (free_segments l') (last_free_segment l') (l_free A')"
      "seg_list n3 (used_segments l') (last_used_segment l') (l_used A')"
      "seg_list n3 (cleaner_segments l') (last_cleaner_segment l') (l_cleaner A')"
      "seg_list n3 (emergency_cleaner_segments l') (last_emergency_cleaner_segment l') (l_emergency A')"
      "unat (current_emergency_count l') = length (l_emergency A')"
  shows "lists_ok (plog st') (segs st') A'"
proof (rule lists_okI [OF r lists_okD(7) [OF ok] _ l(1-5) _ _ l(6)])
  show "distinct (all_segs A')"
    using lists_okD(6) [OF ok] ms mset_eq_imp_distinct_iff by blast
  show "set (all_segs A') \<subseteq> set (all_segs A)"
    using ms mset_eq_setD by blast
  show "map_option fst (((seg_data (segs st))(y \<mapsto> (i, 0, m))) s) = map_option fst (seg_data (segs st) s)" for s
    using i by simp
qed

lemma cleaned_to_free_refines:
  assumes ok: "lists_ok (plog st) (segs st) A" and h: "held st \<inter> {Used_segs, Emergency_segs, Free_segs} = {}"
    and us: "l_used A = xs @ y # ys" and i: "seg_data (segs st) y = Some (i, u, m)"
  shows "\<exists>st'. append_cleaned_segment_to_free_segments E i st = Some st' \<and> list_frame st st' \<and>
     lists_ok (plog st') (segs st') (abs_release y (A\<lparr>l_used := xs @ ys\<rparr>)) \<and>
     seg_data (segs st') = (seg_data (segs st))(y \<mapsto> (i, 0, m)) \<and> head_position (plog st') = head_position (plog st) \<and>
     used_segments_count (plog st') = used_segments_count (plog st) - 1"
proof -
  note okD = lists_okD [OF ok]
  let ?n = "nexts (segs st)" and ?prev = "if xs = [] then 0 else last xs" and ?H = "insert Used_segs (held st)" and ?r = "l_emergency A = []"
  have dist: "distinct (xs @ y # ys)" "set (xs @ y # ys) \<inter> (set (l_free A) \<union> set (l_emergency A)) = {}"
    and inj: "inj_on (ids (segs st)) (set (xs @ y # ys))" and iy: "ids (segs st) y = Some i"
    using okD(6,7) us i by (auto simp: all_segs_def ids_seg_data intro: inj_on_subset)
  note sl = okD(3) [unfolded us]
  note fs = found_segment [OF sl dist(1) inj iy]
  note y = fs(1) and find = fs(3)
  obtain z where z: "?n y = Some z" using fs(2) by blast
  note links = release_links [OF ok sl dist z] and rels = released_lists [OF ok sl dist z y]
  let ?st1 = "st\<lparr>held := ?H\<rparr>" and ?n1 = "release_nexts y A (plog st) ?n" and ?n3 = "released y xs z A (plog st) ?n"
  obtain st3 where st3: "(if unat (current_emergency_count (plog ?st1)) < EMERGENCY_CLEANER_SEGMENT_COUNT
        then refill_emergency_cleaner_segment E y ?st1
        else do { st \<leftarrow> lock Free_segs ?st1; append_free E y st }) = Some st3"
    and r3: "relinked (?st1\<lparr>held := (if ?r then ?H else insert Free_segs ?H)\<rparr>) (release_hdr y A (plog st)) ?n1 (seg_data (segs st)) st3"
    using release_run [OF ok, of ?st1 ?H E y] h by auto
  have ids3: "ids (segs st3) = ids (segs st)"
    using relinked_ids [OF r3] by (simp add: ids_seg_data)
  obtain st4 where st4: "unlink_used E i ?prev y st3 = Some st4" and r4: "relinked st3
      ((release_hdr y A (plog st))\<lparr>used_segments := (if xs = [] then z else used_segments (plog st)),
        last_used_segment := (if ys = [] then last_of xs else last_used_segment (plog st))\<rparr>)
      (if xs = [] then ?n1 else ?n1(last xs \<mapsto> z)) (seg_data (segs st)) st4"
    using unlink_used_run [of st3 xs y ys i z E] links(1,2) dist(1) inj ids3 iy r3
    by (auto simp: relinked_def)
  define l' where "l' = (release_hdr y A (plog st))\<lparr>used_segments := (if xs = [] then z else used_segments (plog st)),
     last_used_segment := (if ys = [] then last_of xs else last_used_segment (plog st)),
     used_segments_count := used_segments_count (plog st) - 1\<rparr>"
  let ?st4 = "unlock Used_segs (upd_log (\<lambda>l. l\<lparr>used_segments_count := used_segments_count l - 1\<rparr>) st4)"
  have i4: "seg_data (segs ?st4) y = Some (i, u, m)"
    using r4 i by (simp add: relinked_def unlock_def upd_log_def)
  obtain st5 where st5: "reset_segment E y ?st4 = Some st5"
    and r5: "relinked ?st4 l' ?n3 ((seg_data (segs st))(y \<mapsto> (i, 0, m))) st5"
    using reset_run [OF y i4, of E] r4 by (auto simp: relinked_def released_def Let_def unlock_def upd_log_def l'_def)
  let ?st' = "persist E 0 sizeof_log (if ?r then st5 else unlock Free_segs st5)"
  have c: "unat (current_emergency_count (plog st)) < EMERGENCY_CLEANER_SEGMENT_COUNT \<longleftrightarrow> ?r"
    using okD(8) by simp
  have run: "append_cleaned_segment_to_free_segments E i st = Some ?st'"
    using h find st3 st4 st5 c y by (cases ?r) (simp_all add: append_cleaned_segment_to_free_segments_def lock_def Let_def)
  have "held (if ?r then st5 else unlock Free_segs st5) = held st"
    using h r3 r4 r5 by (cases ?r) (auto simp: relinked_def same_rest_def access_simps)
  then have r: "relinked st l' ?n3 ((seg_data (segs st))(y \<mapsto> (i, 0, m))) ?st'"
    using r3 r4 r5 by (cases ?r) (simp_all add: relinked_def same_rest_def access_simps)
  have sep: "set zs \<inter> (set (xs @ [y]) \<union> set (l_free A)) = {}" if "zs \<in> {l_head A, l_cleaner A}" for zs
    using okD(6) us that by (auto simp: all_segs_def)
  have "mset (all_segs (abs_release y (A\<lparr>l_used := xs @ ys\<rparr>))) = mset (all_segs A)"
    by (simp add: all_segs_def us abs_release_def)
  then have "lists_ok (plog ?st') (segs ?st') (abs_release y (A\<lparr>l_used := xs @ ys\<rparr>))"
    by (rule release_okI [OF r ok i]) (use rels links(3) links(5) [OF okD(1) sep] links(5) [OF okD(4) sep] in \<open>simp_all add: l'_def\<close>)
  with run relinked_frame [OF r] r show ?thesis
    by (auto simp: relinked_def l'_def fun_upd_idem [where f = "ids (segs st)", OF iy])
qed

lemma cleaner_to_free_refines:
  assumes ok: "lists_ok (plog st) (segs st) A" and h: "held st \<inter> {Cleaner_segs, Emergency_segs, Free_segs} = {}"
    and cl: "l_cleaner A = xs @ y # ys" and i: "seg_data (segs st) y = Some (i, u, m)"
  shows "\<exists>st'. append_cleaner_segment_to_free_segments E i st = Some st' \<and> list_frame st st' \<and>
     lists_ok (plog st') (segs st') (abs_release y (A\<lparr>l_cleaner := xs @ ys\<rparr>)) \<and>
     seg_data (segs st') = (seg_data (segs st))(y \<mapsto> (i, 0, m)) \<and> head_position (plog st') = head_position (plog st) \<and>
     used_segments_count (plog st') = used_segments_count (plog st)"
proof -
  note okD = lists_okD [OF ok]
  let ?n = "nexts (segs st)" and ?prev = "if xs = [] then 0 else last xs" and ?H = "insert Cleaner_segs (held st)" and ?r = "l_emergency A = []"
  have dist: "distinct (xs @ y # ys)" "set (xs @ y # ys) \<inter> (set (l_free A) \<union> set (l_emergency A)) = {}"
    and inj: "inj_on (ids (segs st)) (set (xs @ y # ys))" and iy: "ids (segs st) y = Some i"
    using okD(6,7) cl i by (auto simp: all_segs_def ids_seg_data intro: inj_on_subset)
  note sl = okD(4) [unfolded cl]
  note fs = found_segment [OF sl dist(1) inj iy]
  note y = fs(1) and find = fs(4)
  obtain z where z: "?n y = Some z" using fs(2) by blast
  note links = release_links [OF ok sl dist z] and rels = released_lists [OF ok sl dist z y]
  let ?st1 = "st\<lparr>held := ?H\<rparr>" and ?n1 = "release_nexts y A (plog st) ?n" and ?n3 = "released y xs z A (plog st) ?n"
  obtain st3 where st3: "(if unat (current_emergency_count (plog ?st1)) < EMERGENCY_CLEANER_SEGMENT_COUNT
        then refill_emergency_cleaner_segment E y ?st1
        else do { st \<leftarrow> lock Free_segs ?st1; append_free E y st }) = Some st3"
    and r3: "relinked (?st1\<lparr>held := (if ?r then ?H else insert Free_segs ?H)\<rparr>) (release_hdr y A (plog st)) ?n1 (seg_data (segs st)) st3"
    using release_run [OF ok, of ?st1 ?H E y] h by auto
  have ids3: "ids (segs st3) = ids (segs st)"
    using relinked_ids [OF r3] by (simp add: ids_seg_data)
  obtain st4 where st4: "unlink_cleaner E i ?prev y st3 = Some st4" and r4: "relinked st3
      ((release_hdr y A (plog st))\<lparr>cleaner_segments := (if xs = [] then z else cleaner_segments (plog st)),
        last_cleaner_segment := (if ys = [] then last_of xs else last_cleaner_segment (plog st))\<rparr>)
      (if xs = [] then ?n1 else ?n1(last xs \<mapsto> z)) (seg_data (segs st)) st4"
    using unlink_cleaner_run [of st3 xs y ys i z E] links(1,2) dist(1) inj ids3 iy r3
    by (auto simp: relinked_def)
  define l' where "l' = (release_hdr y A (plog st))\<lparr>cleaner_segments := (if xs = [] then z else cleaner_segments (plog st)),
     last_cleaner_segment := (if ys = [] then last_of xs else last_cleaner_segment (plog st))\<rparr>"
  let ?st4 = "unlock Cleaner_segs st4"
  have i4: "seg_data (segs ?st4) y = Some (i, u, m)"
    using r4 i by (simp add: relinked_def unlock_def upd_log_def)
  obtain st5 where st5: "reset_segment E y ?st4 = Some st5"
    and r5: "relinked ?st4 l' ?n3 ((seg_data (segs st))(y \<mapsto> (i, 0, m))) st5"
    using reset_run [OF y i4, of E] r4 by (auto simp: relinked_def released_def Let_def unlock_def upd_log_def l'_def)
  let ?st' = "persist E 0 sizeof_log (if ?r then st5 else unlock Free_segs st5)"
  have c: "unat (current_emergency_count (plog st)) < EMERGENCY_CLEANER_SEGMENT_COUNT \<longleftrightarrow> ?r"
    using okD(8) by simp
  have run: "append_cleaner_segment_to_free_segments E i st = Some ?st'"
    using h find st3 st4 st5 c y by (cases ?r) (simp_all add: append_cleaner_segment_to_free_segments_def lock_def Let_def)
  have "held (if ?r then st5 else unlock Free_segs st5) = held st"
    using h r3 r4 r5 by (cases ?r) (auto simp: relinked_def same_rest_def access_simps)
  then have r: "relinked st l' ?n3 ((seg_data (segs st))(y \<mapsto> (i, 0, m))) ?st'"
    using r3 r4 r5 by (cases ?r) (simp_all add: relinked_def same_rest_def access_simps)
  have sep: "set zs \<inter> (set (xs @ [y]) \<union> set (l_free A)) = {}" if "zs \<in> {l_head A, l_used A}" for zs
    using okD(6) cl that by (auto simp: all_segs_def)
  have "mset (all_segs (abs_release y (A\<lparr>l_cleaner := xs @ ys\<rparr>))) = mset (all_segs A)"
    by (simp add: all_segs_def cl abs_release_def)
  then have "lists_ok (plog ?st') (segs ?st') (abs_release y (A\<lparr>l_cleaner := xs @ ys\<rparr>))"
    by (rule release_okI [OF r ok i]) (use rels links(3) links(5) [OF okD(1) sep] links(5) [OF okD(3) sep] in \<open>simp_all add: l'_def\<close>)
  with run relinked_frame [OF r] r show ?thesis
    by (auto simp: relinked_def l'_def fun_upd_idem [where f = "ids (segs st)", OF iy])
qed

lemma append_all_run:
  assumes "last_used_segment (plog st) = l" and "l \<noteq> 0 \<Longrightarrow> nexts (segs st) l \<noteq> None"
    and "cleaner_segments (plog st) = f" "f \<noteq> 0" and "Cleaner_segs \<notin> held st" "Used_segs \<notin> held st"
  shows "\<exists>st'. append_all_cleaner_segments_to_used_segments E st = Some st' \<and>
    relinked st ((plog st)\<lparr>used_segments := (if l = 0 then f else used_segments (plog st)),
        last_used_segment := last_cleaner_segment (plog st), cleaner_segments := 0, last_cleaner_segment := 0\<rparr>)
      (if l = 0 then nexts (segs st) else (nexts (segs st))(l \<mapsto> f)) (seg_data (segs st)) st'"
  using assms
  by (cases "l = 0") (auto simp: append_all_cleaner_segments_to_used_segments_def access_simps Let_def
      relinked_def same_rest_def elim!: nextsE)

lemma append_all_to_used_refines:
  assumes ok: "lists_ok (plog st) (segs st) A" and h: "Cleaner_segs \<notin> held st" "Used_segs \<notin> held st"
  shows "\<exists>st'. append_all_cleaner_segments_to_used_segments E st = Some st' \<and> list_frame st st' \<and>
     lists_ok (plog st') (segs st') (A\<lparr>l_cleaner := [], l_used := l_used A @ l_cleaner A\<rparr>) \<and>
     seg_data (segs st') = seg_data (segs st) \<and> head_position (plog st') = head_position (plog st)"
proof (cases "l_cleaner A = []")
  case True
  then have "cleaner_segments (plog st) = 0" using lists_okD(4) [OF ok] by simp
  with ok True show ?thesis
    by (simp add: append_all_cleaner_segments_to_used_segments_def lists_ok_def all_segs_def)
next
  case False
  note okD = lists_okD [OF ok]
  let ?l = "last_used_segment (plog st)" and ?n = "nexts (segs st)" and ?f = "cleaner_segments (plog st)"
  define n1 where "n1 = (if ?l = 0 then ?n else ?n(?l \<mapsto> ?f))"
  have f: "?f \<noteq> 0"
    using seg_list_0_iff [OF okD(4)] False by simp
  have l: "?l \<noteq> 0 \<Longrightarrow> ?l \<in> set (l_used A)" "?l \<noteq> 0 \<Longrightarrow> ?n ?l \<noteq> None"
    using seg_list_last_in [OF okD(3)] seg_list_last_next [OF okD(3)] by auto
  obtain st' where st': "append_all_cleaner_segments_to_used_segments E st = Some st'" and r: "relinked st
      ((plog st)\<lparr>used_segments := (if ?l = 0 then ?f else used_segments (plog st)),
        last_used_segment := last_cleaner_segment (plog st), cleaner_segments := 0, last_cleaner_segment := 0\<rparr>)
      n1 (seg_data (segs st)) st'"
    using append_all_run [OF refl l(2) refl f h] unfolding n1_def by blast
  have keep: "seg_list n1 a b zs" if "seg_list ?n a b zs" "set zs \<inter> set (l_used A) = {}" for a b zs
    by (rule seg_list_cong [OF that(1)]) (use that(2) l(1) in \<open>auto simp: n1_def\<close>)
  have sep: "set zs \<inter> set (l_used A) = {}" if "zs \<in> {l_head A, l_free A, l_emergency A}" for zs
    using okD(6) that by (auto simp: all_segs_def)
  have "distinct (l_used A @ l_cleaner A)"
    using okD(6) by (auto simp: all_segs_def)
  note used = seg_list_concat [OF okD(3,4) this False, folded n1_def]
  have "lists_ok (plog st') (segs st') (A\<lparr>l_cleaner := [], l_used := l_used A @ l_cleaner A\<rparr>)"
    by (rule lists_okI [OF r okD(7) refl])
      (use used keep [OF okD(1) sep] keep [OF okD(2) sep] keep [OF okD(5) sep] okD(6,8)
        in \<open>auto simp: all_segs_def\<close>)
  with st' r relinked_frame [OF r] show ?thesis
    by (auto simp: relinked_def)
qed

section \<open>The operations on the lists\<close>

text \<open>
  A cleaner thread that asks for a segment gets the first free one, or else an emergency segment, at
  the end of the cleaner segments; if there is neither the result is NULL and the lists are as before.
\<close>

lemma get_new_cleaner_takes:
  assumes "lists_ok (plog st) (segs st) A"
    and "Cleaner_segs \<notin> held st" and "Emergency_segs \<notin> held st" and "Free_segs \<notin> held st"
  shows "\<exists>st'. get_new_cleaner_segment E st = Some (abs_cleaner_choice A, st') \<and>
    lists_ok (plog st') (segs st') (abs_new_cleaner A) \<and> held st' = held st \<and> seg_data (segs st') = seg_data (segs st)"
  using get_new_cleaner_refines [OF assms, of E] by (auto simp: list_frame_def same_rest_def)

text \<open>
  A full cleaner segment, wherever it is in the list, moves to the end of the used segments.  The
  counter of used segments is not raised (\<^verbatim>\<open>cleaner.c\<close>, lines 290 to 339).
\<close>

lemma cleaner_segment_retires:
  assumes "lists_ok (plog st) (segs st) A" and "Cleaner_segs \<notin> held st" and "Used_segs \<notin> held st"
    and "l_cleaner A = xs @ y # ys" and "ids (segs st) y = Some i"
  shows "\<exists>st'. append_cleaner_segment_to_used_segments E i st = Some st' \<and>
    lists_ok (plog st') (segs st') (A\<lparr>l_cleaner := xs @ ys, l_used := l_used A @ [y]\<rparr>) \<and> held st' = held st \<and>
    seg_data (segs st') = seg_data (segs st) \<and> used_segments_count (plog st') = used_segments_count (plog st)"
  using append_cleaner_to_used_refines [OF assms, of E] by (auto simp: list_frame_def same_rest_def)

text \<open>
  C36: A cleaned segment, wherever it is in the list of used segments, becomes the emergency segment if
  there is none and else the last free segment; its used space is 0 and its memory is as before.
  The counter of used segments goes down by one.
\<close>

theorem cleaned_segment_is_freed:
  assumes "lists_ok (plog st) (segs st) A" and "held st \<inter> {Used_segs, Emergency_segs, Free_segs} = {}"
    and "l_used A = xs @ y # ys" and "seg_data (segs st) y = Some (i, u, m)"
  shows "\<exists>st'. append_cleaned_segment_to_free_segments E i st = Some st' \<and>
    lists_ok (plog st') (segs st') (abs_release y (A\<lparr>l_used := xs @ ys\<rparr>)) \<and> held st' = held st \<and>
    seg_data (segs st') = (seg_data (segs st))(y \<mapsto> (i, 0, m)) \<and>
    used_segments_count (plog st') = used_segments_count (plog st) - 1"
  using cleaned_to_free_refines [OF assms, of E] by (auto simp: list_frame_def same_rest_def)

lemma cleaned_to_free_missing:
  assumes ok: "lists_ok (plog st) (segs st) A" and h: "Used_segs \<notin> held st"
    and no: "\<And>y. y \<in> set (l_used A) \<Longrightarrow> ids (segs st) y \<noteq> Some i"
  shows "append_cleaned_segment_to_free_segments E i st = Some (st\<lparr>held := insert Used_segs (held st)\<rparr>)"
proof -
  let ?st = "st\<lparr>held := insert Used_segs (held st)\<rparr>"
  have "path (nexts (segs ?st)) (used_segments (plog st)) (l_used A) 0"
    using lists_okD(3) [OF ok] by (simp add: seg_list_def)
  from find_segment_missing [OF this, of i 0] no
  show ?thesis
    using h by (simp add: append_cleaned_segment_to_free_segments_def lock_def)
qed

text \<open>
  Releasing a segment that is not in the list of used segments returns without giving back the
  mutex of that list, and every later request for a new head or release blocks
  (\<^verbatim>\<open>cleaner.c\<close>, lines 357 to 359).
\<close>

lemma missing_segment_blocks:
  assumes ok: "lists_ok (plog st) (segs st) A" and h: "Used_segs \<notin> held st"
    and no: "\<And>y. y \<in> set (l_used A) \<Longrightarrow> ids (segs st) y \<noteq> Some i"
  shows "\<exists>st'. append_cleaned_segment_to_free_segments E i st = Some st' \<and> Used_segs \<in> held st' \<and>
    append_cleaned_segment_to_free_segments E k st' = None \<and> append_head_to_used E st' = None"
  using cleaned_to_free_missing [OF ok h no, of E]
  by (simp add: append_cleaned_segment_to_free_segments_def append_head_to_used_def lock_def)

text \<open>
  A cleaner segment that is given up becomes the emergency segment if there is none and else the last
  free segment, with used space 0.
\<close>

lemma cleaner_segment_is_freed:
  assumes "lists_ok (plog st) (segs st) A" and "held st \<inter> {Cleaner_segs, Emergency_segs, Free_segs} = {}"
    and "l_cleaner A = xs @ y # ys" and "seg_data (segs st) y = Some (i, u, m)"
  shows "\<exists>st'. append_cleaner_segment_to_free_segments E i st = Some st' \<and>
    lists_ok (plog st') (segs st') (abs_release y (A\<lparr>l_cleaner := xs @ ys\<rparr>)) \<and> held st' = held st \<and>
    seg_data (segs st') = (seg_data (segs st))(y \<mapsto> (i, 0, m))"
  using cleaner_to_free_refines [OF assms, of E] by (auto simp: list_frame_def same_rest_def)

section \<open>The threads that are started\<close>

lemma nth_cleaner_path:
  "path (nexts (segs st)) p xs 0 \<Longrightarrow> nth_cleaner_segment st i p = Some (if i < length xs then xs ! i else 0)"
proof (induction xs arbitrary: p i)
  case Nil
  then show ?case by (cases i) simp_all
next
  case (Cons x xs)
  then obtain y where x: "p = x" "x \<noteq> 0" "nexts (segs st) x = Some y" "path (nexts (segs st)) y xs 0" by auto
  obtain g where "segs st x = Some g" "next_segment g = y"
    using nextsE [OF x(3)] .
  with x Cons.IH [OF x(4)] show ?case
    by (cases i) (simp_all add: get_seg_def)
qed

text \<open>
  \<^verbatim>\<open>init_cleaner\<close> gives the threads different cleaner segments, in the order of the list, and none
  to a thread beyond its end.  It stops at the first thread that cannot be created.
\<close>

lemma create_threads_run:
  "path (nexts (segs st)) (cleaner_segments (plog st)) ss 0 \<Longrightarrow> \<forall>i \<in> set is. mk i \<Longrightarrow>
   create_threads mk cr regular st is = Some (\<not> list_all cr is,
     map (\<lambda>i. \<lparr>ci_segment = (if i < length ss then ss ! i else 0), ci_regular = regular\<rparr>) (takeWhile cr is))"
  by (induction "is") (auto simp: nth_cleaner_path)

lemma init_cleaner_assigns:
  assumes "path (nexts (segs st)) (cleaner_segments (plog st)) ss 0" and "\<forall>i. mk i"
  shows "init_cleaner E mk cr regular st = Some (\<not> list_all cr [0..<CLEANER_THREAD_COUNT],
    map (\<lambda>i. \<lparr>ci_segment = (if i < length ss then ss ! i else 0), ci_regular = regular\<rparr>) (takeWhile cr [0..<CLEANER_THREAD_COUNT]),
    st\<lparr>currently_cleaned := gh_new E\<rparr>)"
  using create_threads_run [of "st\<lparr>currently_cleaned := gh_new E\<rparr>" ss _ mk cr regular] assms
  by (simp add: init_cleaner_def)

end
