(* ===== verification/Heap.thy ===== *)
theory Heap
  imports Log_Pmem Log_Props Cleaner_Lists
begin

text \<open>
  The invariant of the heap and the abstraction that makes it a finite map: the segments that hold
  data are sequences of entries, and the index points to entries of these sequences.
\<close>

section \<open>Sequences of entries\<close>

fun lay :: "(nat \<Rightarrow> byte) \<Rightarrow> nat \<Rightarrow> nat list \<Rightarrow> nat \<Rightarrow> bool" where
  "lay m p [] q \<longleftrightarrow> p = q"
| "lay m p (x # xs) q \<longleftrightarrow> x = p \<and> 0 < entry_length m p \<and> p + entry_size m p \<le> area_size \<and>
     lay m (p + entry_size m p) xs q"

lemma entry_size_ge: "sizeof_entry \<le> entry_size m p"
  by (simp add: entry_size_def)

lemma lay_le: "lay m p ps q \<Longrightarrow> p \<le> q"
  by (induction ps arbitrary: p) (auto, meson add_leD1)

lemma lay_area: "lay m p ps q \<Longrightarrow> p \<le> area_size \<Longrightarrow> q \<le> area_size"
  by (induction ps arbitrary: p) auto

lemma lay_append: "lay m p (xs @ ys) q \<longleftrightarrow> (\<exists>r. lay m p xs r \<and> lay m r ys q)"
  by (induction xs arbitrary: p) auto

lemma lay_mem:
  "lay m p ps q \<Longrightarrow> x \<in> set ps \<Longrightarrow>
   p \<le> x \<and> x + entry_size m x \<le> q \<and> x + entry_size m x \<le> area_size \<and> 0 < entry_length m x"
proof (induction ps arbitrary: p)
  case (Cons y ys)
  then have l: "lay m (p + entry_size m p) ys q" by simp
  show ?case
  proof (cases "x = y")
    case True
    with Cons.prems lay_le [OF l] show ?thesis by auto
  next
    case False
    with Cons.prems Cons.IH [OF l] show ?thesis by auto
  qed
qed simp

lemma lay_disjoint:
  "lay m p ps q \<Longrightarrow> x \<in> set ps \<Longrightarrow> y \<in> set ps \<Longrightarrow> x < y \<Longrightarrow> x + entry_size m x \<le> y"
proof (induction ps arbitrary: p)
  case (Cons z zs)
  then show ?case
    using lay_mem [of m "p + entry_size m p" zs q] by (cases "x = z"; cases "y = z") fastforce+
qed simp

text \<open>An entry depends on its own bytes only.\<close>

lemma entry_cong:
  assumes "\<And>a. p \<le> a \<Longrightarrow> a < p + sizeof_entry \<Longrightarrow> m a = m' a"
  shows "entry_id m p = entry_id m' p" "entry_version m p = entry_version m' p"
    "entry_length m p = entry_length m' p" "entry_to_delete m p = entry_to_delete m' p"
    "entry_size m p = entry_size m' p"
proof -
  have "rd64 m (p + 16) = rd64 m' (p + 16)" "rd64 m p = rd64 m' p" "rd64 m (p + 8) = rd64 m' (p + 8)"
    by (rule rd64_cong, rule assms, simp_all)+
  then show "entry_id m p = entry_id m' p" "entry_version m p = entry_version m' p"
    "entry_length m p = entry_length m' p" "entry_to_delete m p = entry_to_delete m' p"
    "entry_size m p = entry_size m' p"
    using assms [of "p + 24"]
    by (simp_all add: entry_id_def entry_version_def entry_length_def entry_to_delete_def entry_size_def)
qed

lemma entry_data_cong:
  assumes "\<And>a. p \<le> a \<Longrightarrow> a < p + entry_size m p \<Longrightarrow> m a = m' a"
  shows "entry_data m p = entry_data m' p"
proof -
  have "entry_length m p = entry_length m' p"
    by (rule entry_cong(3), rule assms) (use entry_size_ge [of m p] in auto)
  then show ?thesis
    unfolding entry_data_def by (auto intro!: rd_bytes_cong assms simp: entry_size_def)
qed

lemma lay_cong: "lay m p ps q \<Longrightarrow> (\<And>a. p \<le> a \<Longrightarrow> a < q \<Longrightarrow> m a = m' a) \<Longrightarrow> lay m' p ps q"
proof (induction ps arbitrary: p)
  case (Cons x xs)
  have le: "p + entry_size m p \<le> q"
    using lay_mem [OF Cons.prems(1)] Cons.prems(1) by auto
  have eq: "entry_length m p = entry_length m' p" "entry_size m p = entry_size m' p"
    by (rule entry_cong, rule Cons.prems(2), use le entry_size_ge [of m p] in auto)+
  have "lay m' (p + entry_size m p) xs q"
    by (rule Cons.IH) (use Cons.prems in auto)
  with Cons.prems(1) eq show ?case by simp
qed simp

section \<open>Writing an entry\<close>

lemma length_entry_bytes:
  "e_length e = length (e_data e) \<Longrightarrow> length (entry_bytes e) = sizeof_entry + e_length e"
  by (simp add: entry_bytes_def)

lemma entry_bytes_decode:
  assumes "e_length e = length (e_data e)" and "e_length e < 2 ^ 64"
    and m'_def: "m' = patch m p (entry_bytes e)"
  shows "entry_id m' p = e_id e" and "entry_version m' p = e_version e" and "entry_length m' p = e_length e"
    and "entry_to_delete m' p = e_to_delete e" and "entry_data m' p = e_data e"
proof -
  note len = length_entry_bytes [OF assms(1)]
  show "entry_id m' p = e_id e"
    unfolding entry_id_def m'_def by (rule rd64_patch_in) (simp_all add: len, simp add: entry_bytes_def)
  show "entry_version m' p = e_version e"
    unfolding entry_version_def m'_def by (rule rd64_patch_in) (simp_all add: len, simp add: entry_bytes_def)
  have "rd64 m' (p + 16) = word_of_nat (e_length e)"
    unfolding m'_def by (rule rd64_patch_in) (simp_all add: len, simp add: entry_bytes_def)
  then show l: "entry_length m' p = e_length e"
    using assms(2) by (simp add: entry_length_def unsigned_of_nat take_bit_eq_mod)
  have "m' (p + 24) = entry_bytes e ! 24"
    by (simp add: m'_def mem_simps len)
  also have "\<dots> = (if e_to_delete e then 1 else 0)"
    by (simp add: entry_bytes_def nth_append)
  finally show "entry_to_delete m' p = e_to_delete e"
    by (simp add: entry_to_delete_def)
  have "entry_data m' p = take (e_length e) (drop 25 (entry_bytes e))"
    unfolding entry_data_def l unfolding m'_def by (subst rd_bytes_patch_in) (simp_all add: len)
  then show "entry_data m' p = e_data e"
    using assms(1) by (simp add: entry_bytes_def)
qed

section \<open>The invariant\<close>

text \<open>
  \<open>P s\<close> are the positions of the entries of a segment that holds data and \<open>Q s\<close> the end
  of the last one.  In the head segment this is the head position; in a used segment the code has to
  recognise it, by a mark or by the lack of room for an entry.
\<close>

definition data_segs :: "lists \<Rightarrow> pmo list" where
  "data_segs A = l_head A @ l_used A @ l_cleaner A"

definition mem :: "(pmo \<rightharpoonup> segment) \<Rightarrow> pmo \<Rightarrow> nat \<Rightarrow> byte" where
  "mem sm s = (case sm s of None \<Rightarrow> (\<lambda>_. 0) | Some g \<Rightarrow> log_entries g)"

definition ended :: "(nat \<Rightarrow> byte) \<Rightarrow> nat \<Rightarrow> bool" where
  "ended m q \<longleftrightarrow> area_size - sizeof_entry \<le> q \<or> entry_length m q = 0"

definition layout_ok :: "log_hdr \<Rightarrow> (pmo \<rightharpoonup> segment) \<Rightarrow> lists \<Rightarrow> (pmo \<Rightarrow> nat list) \<Rightarrow> (pmo \<Rightarrow> nat) \<Rightarrow> bool" where
  "layout_ok l sm A P Q \<longleftrightarrow>
     (\<forall>s \<in> set (data_segs A). lay (mem sm s) 0 (P s) (Q s)) \<and>
     (\<forall>s \<in> set (l_head A). Q s = head_position l) \<and>
     (\<forall>s \<in> set (l_used A). ended (mem sm s) (Q s)) \<and>
     (\<forall>s \<in> set (all_segs A). \<exists>j. s = seg_off j)"

text \<open>The entry at an offset is the unmarked entry of an object.\<close>

definition entry_of :: "(pmo \<rightharpoonup> segment) \<Rightarrow> lists \<Rightarrow> (pmo \<Rightarrow> nat list) \<Rightarrow> u64 \<Rightarrow> pmo \<Rightarrow> bool" where
  "entry_of sm A P k off \<longleftrightarrow> (\<exists>s \<in> set (data_segs A). \<exists>p \<in> set (P s). off = entry_off s p \<and>
     entry_id (mem sm s) p = k \<and> \<not> entry_to_delete (mem sm s) p)"

text \<open>No list is locked; a running operation may hold the lock that orders updates and moves.\<close>

definition locks_free :: "('h, 'd) pmem \<Rightarrow> bool" where
  "locks_free st \<longleftrightarrow> held st \<inter> {Free_segs, Used_segs, Cleaner_segs, Emergency_segs} = {}"

definition heap_ok ::
  "('h, 'd) env \<Rightarrow> ('h, 'd) pmem \<Rightarrow> lists \<Rightarrow> (pmo \<Rightarrow> nat list) \<Rightarrow> (pmo \<Rightarrow> nat) \<Rightarrow> bool" where
  "heap_ok E st A P Q \<longleftrightarrow> lists_ok (plog st) (segs st) A \<and> layout_ok (plog st) (segs st) A P Q \<and>
     locks_free st \<and> (\<forall>k off. gh_map E (hash_table st) k = Some off \<longrightarrow> entry_of (segs st) A P k off)"

text \<open>What the heap stores, as a map from ids to data.\<close>

definition contents :: "('h, 'd) env \<Rightarrow> ('h, 'd) pmem \<Rightarrow> u64 \<rightharpoonup> byte list" where
  "contents E st k = (case gh_map E (hash_table st) k of None \<Rightarrow> None
     | Some off \<Rightarrow> (case entry_at st off of None \<Rightarrow> None
       | Some (g, p) \<Rightarrow> Some (entry_data (log_entries g) p)))"

text \<open>The entries of the log, the segments that hold none, and the space the code accounts for.\<close>

definition entries :: "lists \<Rightarrow> (pmo \<Rightarrow> nat list) \<Rightarrow> (pmo \<times> nat) set" where
  "entries A P = {(s, p). s \<in> set (data_segs A) \<and> p \<in> set (P s)}"

definition avail :: "lists \<Rightarrow> pmo set" where
  "avail A = set (l_free A) \<union> set (l_emergency A)"

definition used_of :: "(pmo \<rightharpoonup> segment) \<Rightarrow> pmo \<Rightarrow> u64" where
  "used_of sm s = (case sm s of None \<Rightarrow> 0 | Some g \<Rightarrow> used_space g)"

lemma all_segs_split: "set (all_segs A) = set (data_segs A) \<union> avail A"
  by (auto simp: all_segs_def data_segs_def avail_def)

lemma used_of_seg_data: "seg_data sm = seg_data sm' \<Longrightarrow> used_of sm s = used_of sm' s"
  by (drule fun_cong [where x = s]) (auto simp: seg_data_def used_of_def split: option.splits)

lemma data_segs_sub: "set (data_segs A) \<subseteq> set (all_segs A)"
  by (auto simp: data_segs_def all_segs_def)

lemma mem_Some [simp]: "sm s = Some g \<Longrightarrow> mem sm s = log_entries g"
  by (simp add: mem_def)

lemma mem_seg_data: "seg_data sm = seg_data sm' \<Longrightarrow> mem sm s = mem sm' s"
  by (drule fun_cong [where x = s]) (auto simp: seg_data_def mem_def split: option.splits)

lemma layout_seg:
  assumes ok: "lists_ok l sm A" and lo: "layout_ok l sm A P Q" and s: "s \<in> set (data_segs A)"
  obtains g j where "sm s = Some g" "s = seg_off j" "lay (log_entries g) 0 (P s) (Q s)" "Q s \<le> area_size"
proof -
  from lists_ok_dom [OF ok] s data_segs_sub obtain g where g: "sm s = Some g" by blast
  moreover obtain j where "s = seg_off j"
    using lo s data_segs_sub by (fastforce simp: layout_ok_def)
  moreover have "lay (log_entries g) 0 (P s) (Q s)"
    using lo s g by (auto simp: layout_ok_def)
  ultimately show ?thesis
    using that lay_area by blast
qed

text \<open>An entry pointer leads back to its segment and position.\<close>

lemma seg_of_entry: "p + sizeof_entry \<le> area_size \<Longrightarrow> seg_of (entry_off (seg_off j) p) = seg_off j"
proof -
  assume "p + sizeof_entry \<le> area_size"
  then have "(4096 * j + (24 + p)) div 4096 = j" by simp
  then have "(4096 * j + 24 + p) div 4096 = j" by (simp only: add.assoc)
  then show ?thesis by (simp add: seg_of_def entry_off_def seg_off_def ac_simps)
qed

lemma entry_at_entry:
  "segs st (seg_off j) = Some g \<Longrightarrow> p + sizeof_entry \<le> area_size \<Longrightarrow>
   entry_at st (entry_off (seg_off j) p) = Some (g, p)"
  using seg_of_entry [of p j] by (simp add: entry_at_def entry_off_def) (simp add: seg_off_def)

lemma entry_off_eq:
  assumes "p + sizeof_entry \<le> area_size" and "p' + sizeof_entry \<le> area_size"
    and "entry_off (seg_off j) p = entry_off (seg_off j') p'"
  shows "j = j' \<and> p = p'"
proof -
  have "j = j'"
    using seg_of_entry [OF assms(1), of j] seg_of_entry [OF assms(2), of j'] assms(3) by simp
  with assms(3) show ?thesis by (simp add: entry_off_def)
qed

lemma entry_ofE:
  assumes ok: "lists_ok (plog st) (segs st) A" and lo: "layout_ok (plog st) (segs st) A P Q"
    and e: "entry_of (segs st) A P k off"
  obtains s j g p where "s \<in> set (data_segs A)" "p \<in> set (P s)" "s = seg_off j" "segs st s = Some g"
    "off = entry_off s p" "off \<noteq> 0" "seg_of off = s" "entry_at st off = Some (g, p)"
    "entry_id (log_entries g) p = k" "\<not> entry_to_delete (log_entries g) p"
    "p + entry_size (log_entries g) p \<le> Q s" "Q s \<le> area_size"
    "lay (log_entries g) 0 (P s) (Q s)"
proof -
  from e obtain s p where s: "s \<in> set (data_segs A)" "p \<in> set (P s)" "off = entry_off s p"
    "entry_id (mem (segs st) s) p = k" "\<not> entry_to_delete (mem (segs st) s) p"
    by (auto simp: entry_of_def)
  obtain g j where g: "segs st s = Some g" "s = seg_off j" "lay (log_entries g) 0 (P s) (Q s)" "Q s \<le> area_size"
    using layout_seg [OF ok lo s(1)] .
  have p: "p + entry_size (log_entries g) p \<le> Q s"
    using lay_mem [OF g(3) s(2)] by simp
  then have "p + sizeof_entry \<le> area_size"
    using g(4) entry_size_ge [of "log_entries g" p] by simp
  then show ?thesis
    using that [OF s(1,2) g(2,1) s(3)] s g p entry_at_entry [of st j g p] seg_of_entry [of p j]
    by (simp add: entry_off_def)
qed

lemma contents_entry:
  "gh_map E (hash_table st) k = Some off \<Longrightarrow> entry_at st off = Some (g, p) \<Longrightarrow>
   contents E st k = Some (entry_data (log_entries g) p)"
  by (simp add: contents_def)

lemma heap_okD:
  assumes "heap_ok E st A P Q"
  shows "lists_ok (plog st) (segs st) A" "layout_ok (plog st) (segs st) A P Q" "locks_free st"
    "\<And>k off. gh_map E (hash_table st) k = Some off \<Longrightarrow> entry_of (segs st) A P k off"
  using assms by (auto simp: heap_ok_def)

section \<open>What a step keeps\<close>

definition keeps ::
  "(pmo \<rightharpoonup> segment) \<Rightarrow> lists \<Rightarrow> (pmo \<Rightarrow> nat list) \<Rightarrow> (pmo \<Rightarrow> nat) \<Rightarrow>
   (pmo \<rightharpoonup> segment) \<Rightarrow> lists \<Rightarrow> (pmo \<Rightarrow> nat list) \<Rightarrow> (pmo \<Rightarrow> nat) \<Rightarrow> bool" where
  "keeps sm A P Q sm' A' P' Q' \<longleftrightarrow>
     (\<forall>s \<in> set (data_segs A). s \<in> set (data_segs A') \<and> set (P s) \<subseteq> set (P' s) \<and> Q s \<le> Q' s \<and>
       (\<forall>a < Q s. mem sm' s a = mem sm s a))"

lemma keeps_refl: "(\<And>s. s \<in> set (data_segs A) \<Longrightarrow> mem sm' s = mem sm s) \<Longrightarrow> keeps sm A P Q sm' A P Q"
  by (simp add: keeps_def)

lemma keeps_trans:
  "keeps sm A P Q sm' A' P' Q' \<Longrightarrow> keeps sm' A' P' Q' sm'' A'' P'' Q'' \<Longrightarrow> keeps sm A P Q sm'' A'' P'' Q''"
  unfolding keeps_def by (intro ballI) (drule (1) bspec, elim conjE, drule (1) bspec,
      auto intro: order_trans less_le_trans)

lemma keeps_fields:
  assumes ok: "lists_ok l sm A" "layout_ok l sm A P Q" and k: "keeps sm A P Q sm' A' P' Q'"
    and e: "(s, p) \<in> entries A P"
  shows "(s, p) \<in> entries A' P'" "entry_id (mem sm' s) p = entry_id (mem sm s) p"
    "entry_version (mem sm' s) p = entry_version (mem sm s) p" "entry_length (mem sm' s) p = entry_length (mem sm s) p"
    "entry_to_delete (mem sm' s) p = entry_to_delete (mem sm s) p" "entry_size (mem sm' s) p = entry_size (mem sm s) p"
    "entry_data (mem sm' s) p = entry_data (mem sm s) p"
proof -
  have s: "s \<in> set (data_segs A)" "p \<in> set (P s)"
    using e by (auto simp: entries_def)
  obtain g where "sm s = Some g" "lay (log_entries g) 0 (P s) (Q s)"
    using layout_seg [OF ok s(1)] by metis
  then have "p + entry_size (mem sm s) p \<le> Q s"
    using lay_mem s(2) by auto
  moreover have "s \<in> set (data_segs A')" "p \<in> set (P' s)" "\<And>a. a < Q s \<Longrightarrow> mem sm' s a = mem sm s a"
    using k s by (auto simp: keeps_def)
  ultimately have same: "mem sm s a = mem sm' s a" if "p \<le> a" "a < p + entry_size (mem sm s) p" for a
    using that by simp
  have hdr: "mem sm s a = mem sm' s a" if "p \<le> a" "a < p + sizeof_entry" for a
    using same that entry_size_ge [of "mem sm s" p] by simp
  show "(s, p) \<in> entries A' P'"
    using \<open>s \<in> set (data_segs A')\<close> \<open>p \<in> set (P' s)\<close> by (simp add: entries_def)
  show "entry_id (mem sm' s) p = entry_id (mem sm s) p" "entry_version (mem sm' s) p = entry_version (mem sm s) p"
    "entry_length (mem sm' s) p = entry_length (mem sm s) p" "entry_to_delete (mem sm' s) p = entry_to_delete (mem sm s) p"
    "entry_size (mem sm' s) p = entry_size (mem sm s) p"
    by (rule entry_cong [symmetric], rule hdr, assumption, assumption)+
  show "entry_data (mem sm' s) p = entry_data (mem sm s) p"
    by (rule entry_data_cong [symmetric], rule same)
qed

text \<open>Entries and entry pointers correspond.\<close>

lemma entry_of_entries:
  "entry_of sm A P n off \<longleftrightarrow> (\<exists>s p. (s, p) \<in> entries A P \<and> off = entry_off s p \<and> entry_id (mem sm s) p = n \<and>
     \<not> entry_to_delete (mem sm s) p)"
  by (auto simp: entry_of_def entries_def)

lemma entriesE:
  assumes ok: "lists_ok (plog st) (segs st) A" and lo: "layout_ok (plog st) (segs st) A P Q"
    and e: "(s, p) \<in> entries A P"
  obtains j g where "s \<in> set (data_segs A)" "p \<in> set (P s)" "s = seg_off j" "segs st s = Some g"
    "mem (segs st) s = log_entries g" "entry_off s p \<noteq> 0" "seg_of (entry_off s p) = s"
    "entry_at st (entry_off s p) = Some (g, p)" "p + entry_size (log_entries g) p \<le> Q s" "Q s \<le> area_size"
    "p + sizeof_entry \<le> area_size" "lay (log_entries g) 0 (P s) (Q s)"
proof -
  have s: "s \<in> set (data_segs A)" "p \<in> set (P s)"
    using e by (auto simp: entries_def)
  obtain g j where g: "segs st s = Some g" "s = seg_off j" "lay (log_entries g) 0 (P s) (Q s)" "Q s \<le> area_size"
    using layout_seg [OF ok lo s(1)] .
  have p: "p + entry_size (log_entries g) p \<le> Q s"
    using lay_mem [OF g(3) s(2)] by simp
  then have "p + sizeof_entry \<le> area_size"
    using g(4) entry_size_ge [of "log_entries g" p] by simp
  then show ?thesis
    using that [OF s g(2,1)] g p entry_at_entry [of st j g p] seg_of_entry [of p j]
    by (simp add: entry_off_def)
qed

lemma entries_off_eq:
  assumes ok: "lists_ok l sm A" and lo: "layout_ok l sm A P Q"
    and e: "(s, p) \<in> entries A P" "(s', p') \<in> entries A P" and off: "entry_off s p = entry_off s' p'"
  shows "s = s' \<and> p = p'"
proof -
  have *: "\<exists>j. s = seg_off j \<and> p + sizeof_entry \<le> area_size" if e: "(s, p) \<in> entries A P" for s p
  proof -
    have s: "s \<in> set (data_segs A)" "p \<in> set (P s)"
      using e by (auto simp: entries_def)
    obtain g j where g: "sm s = Some g" "s = seg_off j" "lay (log_entries g) 0 (P s) (Q s)" "Q s \<le> area_size"
      using layout_seg [OF ok lo s(1)] .
    then show ?thesis
      using lay_mem [OF g(3) s(2)] entry_size_ge [of "log_entries g" p] by auto
  qed
  from *[OF e(1)] * [OF e(2)] entry_off_eq off show ?thesis by blast
qed

lemma keeps_entry:
  assumes ok: "lists_ok (plog st) (segs st) A" "layout_ok (plog st) (segs st) A P Q"
    and ok': "lists_ok (plog st') (segs st') A'" "layout_ok (plog st') (segs st') A' P' Q'"
    and k: "keeps (segs st) A P Q (segs st') A' P' Q'" and e: "entry_of (segs st) A P n off"
  shows "entry_of (segs st') A' P' n off"
    and "\<exists>g g' p. entry_at st off = Some (g, p) \<and> entry_at st' off = Some (g', p) \<and>
      entry_data (log_entries g') p = entry_data (log_entries g) p"
proof -
  obtain s p where s: "(s, p) \<in> entries A P" "off = entry_off s p" "entry_id (mem (segs st) s) p = n"
    "\<not> entry_to_delete (mem (segs st) s) p"
    using e by (auto simp: entry_of_entries)
  note f = keeps_fields [OF ok k s(1)]
  show "entry_of (segs st') A' P' n off"
    using s f by (auto simp: entry_of_entries)
  obtain g where "entry_at st off = Some (g, p)" "mem (segs st) s = log_entries g"
    using entriesE [OF ok s(1)] s(2) by metis
  moreover obtain g' where "entry_at st' off = Some (g', p)" "mem (segs st') s = log_entries g'"
    using entriesE [OF ok' f(1)] s(2) by metis
  ultimately show "\<exists>g g' p. entry_at st off = Some (g, p) \<and> entry_at st' off = Some (g', p) \<and>
      entry_data (log_entries g') p = entry_data (log_entries g) p"
    using f(7) by auto
qed

text \<open>A step that keeps the entries and the index keeps the contents.\<close>

lemma keeps_contents:
  assumes ok: "heap_ok E st A P Q" and ok': "heap_ok E st' A' P' Q'"
    and k: "keeps (segs st) A P Q (segs st') A' P' Q'"
    and i: "gh_map E (hash_table st') n = gh_map E (hash_table st) n"
  shows "contents E st' n = contents E st n"
proof (cases "gh_map E (hash_table st) n")
  case None
  then show ?thesis using i by (simp add: contents_def)
next
  case (Some off)
  from keeps_entry(2) [OF heap_okD(1,2) [OF ok] heap_okD(1,2) [OF ok'] k heap_okD(4) [OF ok Some]]
  show ?thesis using Some i by (auto simp: contents_def)
qed

lemma keeps_heap_ok:
  assumes ok: "heap_ok E st A P Q" and "lists_ok (plog st') (segs st') A'"
    and "layout_ok (plog st') (segs st') A' P' Q'" and "locks_free st'"
    and "keeps (segs st) A P Q (segs st') A' P' Q'" and "hash_table st' = hash_table st"
  shows "heap_ok E st' A' P' Q'"
  using assms keeps_entry(1) [OF heap_okD(1,2) [OF ok] assms(2,3,5)] by (auto simp: heap_ok_def)

lemma lists_ok_cong: "nexts sm' = nexts sm \<Longrightarrow> ids sm' = ids sm \<Longrightarrow> lists_ok l sm' A = lists_ok l sm A"
  by (simp add: lists_ok_def)

section \<open>Appending\<close>

lemma mark_run:
  assumes h: "head_segment (plog st) = h" "h \<noteq> 0" "segs st h = Some g" and hp: "head_position (plog st) = q"
  shows "\<exists>st' m. mark_unused_space E st = Some st' \<and> plog st' = plog st \<and> same_rest st st' \<and>
    segs st' = (segs st)(h \<mapsto> g\<lparr>log_entries := m\<rparr>) \<and> (\<forall>a < q. m a = log_entries g a) \<and> ended m q"
proof (cases "area_size - q \<ge> sizeof_entry")
  case True
  let ?m = "patch (log_entries g) (q + 16) (bytes64 0)"
  have "rd64 ?m (q + 16) = 0"
    by (simp add: mem_simps)
  then have "ended ?m q"
    by (simp add: ended_def entry_length_def)
  moreover have "\<forall>a < q. ?m a = log_entries g a"
    by (simp add: mem_simps)
  ultimately show ?thesis
    using True h hp by (auto simp: mark_unused_space_def write_area_def access_simps Let_def same_rest_def)
next
  case False
  then have "ended (log_entries g) q"
    by (auto simp: ended_def)
  then show ?thesis
    using False h hp by (auto simp: mark_unused_space_def fun_upd_idem intro!: exI [of _ "log_entries g"])
qed

definition new_P :: "lists \<Rightarrow> (pmo \<Rightarrow> nat list) \<Rightarrow> pmo \<Rightarrow> nat list" where
  "new_P A P = (case l_free A of [] \<Rightarrow> P | f # fs \<Rightarrow> P(f := []))"

definition new_Q :: "lists \<Rightarrow> (pmo \<Rightarrow> nat) \<Rightarrow> pmo \<Rightarrow> nat" where
  "new_Q A Q = (case l_free A of [] \<Rightarrow> Q | f # fs \<Rightarrow> Q(f := 0))"

lemma new_head_layout:
  assumes ok: "lists_ok l sm A" and lo: "layout_ok l sm A P Q"
    and e: "\<And>s. s \<in> set (l_head A) \<Longrightarrow> ended (mem sm s) (Q s)"
    and m: "\<And>s. mem sm' s = mem sm s" and hp: "l_free A \<noteq> [] \<Longrightarrow> head_position l' = 0"
  shows "layout_ok l' sm' (abs_new_head A) (new_P A P) (new_Q A Q) \<and>
    keeps sm A P Q sm' (abs_new_head A) (new_P A P) (new_Q A Q)"
proof (cases "l_free A")
  case Nil
  then show ?thesis
    using lo e m by (auto simp: layout_ok_def keeps_def abs_new_head_def new_P_def new_Q_def data_segs_def all_segs_def)
next
  case (Cons f fs)
  then have "f \<notin> set (data_segs A)"
    using lists_okD(6) [OF ok] by (auto simp: data_segs_def all_segs_def)
  then show ?thesis
    using lo e m hp Cons
    by (auto simp: layout_ok_def keeps_def abs_new_head_def new_P_def new_Q_def data_segs_def all_segs_def)
qed

lemma new_head_entries:
  assumes "lists_ok l sm A"
  shows "entries (abs_new_head A) (new_P A P) = entries A P" and "set (all_segs (abs_new_head A)) = set (all_segs A)"
    and "avail (abs_new_head A) \<subseteq> avail A"
proof -
  have "f \<notin> set (data_segs A)" if "l_free A = f # fs" for f fs
    using lists_okD(6) [OF assms] that by (auto simp: data_segs_def all_segs_def)
  then show "entries (abs_new_head A) (new_P A P) = entries A P"
    by (auto simp: entries_def abs_new_head_def new_P_def data_segs_def split: list.splits if_splits)
qed (auto simp: abs_new_head_def all_segs_def avail_def split: list.splits)

text \<open>The state after a step of the log: everything but the log itself is as before.\<close>

definition log_step ::
  "('h, 'd) pmem \<Rightarrow> lists \<Rightarrow> (pmo \<Rightarrow> nat list) \<Rightarrow> (pmo \<Rightarrow> nat) \<Rightarrow>
   ('h, 'd) pmem \<Rightarrow> lists \<Rightarrow> (pmo \<Rightarrow> nat list) \<Rightarrow> (pmo \<Rightarrow> nat) \<Rightarrow> bool" where
  "log_step st A P Q st' A' P' Q' \<longleftrightarrow>
     lists_ok (plog st') (segs st') A' \<and> layout_ok (plog st') (segs st') A' P' Q' \<and>
     keeps (segs st) A P Q (segs st') A' P' Q' \<and> list_frame st st' \<and> entries A' P' = entries A P \<and>
     set (all_segs A') = set (all_segs A) \<and> avail A' \<subseteq> avail A"

text \<open>The step leaves the accounting alone.\<close>

definition same_used :: "lists \<Rightarrow> ('h, 'd) pmem \<Rightarrow> ('h, 'd) pmem \<Rightarrow> bool" where
  "same_used A st st' \<longleftrightarrow> (\<forall>s \<in> set (all_segs A). used_of (segs st') s = used_of (segs st) s)"

lemma log_step_trans:
  assumes "log_step st A P Q st' A' P' Q'" and "log_step st' A' P' Q' st'' A'' P'' Q''"
  shows "log_step st A P Q st'' A'' P'' Q''"
proof -
  have "keeps (segs st) A P Q (segs st'') A'' P'' Q''"
    by (rule keeps_trans) (use assms in \<open>auto simp: log_step_def\<close>)
  moreover have "list_frame st st''"
    by (rule list_frame_trans) (use assms in \<open>auto simp: log_step_def\<close>)
  ultimately show ?thesis
    using assms by (auto simp: log_step_def)
qed

lemma same_used_refl [simp]: "same_used A st st"
  by (simp add: same_used_def)

lemma same_used_trans:
  "same_used A st st' \<Longrightarrow> log_step st A P Q st' A' P' Q' \<Longrightarrow> same_used A' st' st'' \<Longrightarrow> same_used A st st''"
  by (simp add: same_used_def log_step_def)

lemma log_step_refl:
  "lists_ok (plog st) (segs st) A \<Longrightarrow> layout_ok (plog st) (segs st) A P Q \<Longrightarrow> log_step st A P Q st A P Q"
  by (simp add: log_step_def keeps_refl)

lemma head_cases:
  assumes "lists_ok l sm A"
  shows "l_head A = (if head_segment l = 0 then [] else [head_segment l])"
  using lists_ok_head_single [OF assms] lists_okD(1) [OF assms] seg_list_0_iff by force

lemma new_head_step:
  assumes ok: "lists_ok (plog st) (segs st) A" and lo: "layout_ok (plog st) (segs st) A P Q"
    and h: "locks_free st" and e: "\<And>s. s \<in> set (l_head A) \<Longrightarrow> ended (mem (segs st) s) (Q s)"
  shows "\<exists>st'. append_head_to_used_segments_and_get_new_head_segment E st = Some (l_free A = [], st') \<and>
    log_step st A P Q st' (abs_new_head A) (new_P A P) (new_Q A Q) \<and> same_used A st st'"
proof -
  have nh: "Used_segs \<notin> held st" "Free_segs \<notin> held st"
    using h by (auto simp: locks_free_def)
  obtain st' where st': "append_head_to_used_segments_and_get_new_head_segment E st = Some (l_free A = [], st')"
    "list_frame st st'" "lists_ok (plog st') (segs st') (abs_new_head A)"
    "head_position (plog st') = (if l_free A = [] then head_position (plog st) else 0)"
    "seg_data (segs st') = seg_data (segs st)"
    using new_head_refines [OF ok nh, of E] by blast
  from new_head_layout [where sm' = "segs st'" and l' = "plog st'", OF ok lo e mem_seg_data [OF st'(5)]] st'
  show ?thesis
    using new_head_entries [OF ok] used_of_seg_data [OF st'(5)] by (auto simp: log_step_def same_used_def)
qed

lemma mark_step:
  assumes ok: "lists_ok (plog st) (segs st) A" and lo: "layout_ok (plog st) (segs st) A P Q"
    and h: "l_head A = [h]"
  shows "\<exists>st'. mark_unused_space E st = Some st' \<and> log_step st A P Q st' A P Q \<and> same_used A st st' \<and>
    ended (mem (segs st') h) (Q h)"
proof -
  have hd: "head_segment (plog st) = h" "h \<noteq> 0"
    using head_cases [OF ok] h by (auto split: if_splits)
  have hA: "h \<in> set (data_segs A)"
    using h by (simp add: data_segs_def)
  obtain g where g: "segs st h = Some g"
    using layout_seg [OF ok lo hA] by blast
  have q: "head_position (plog st) = Q h"
    using lo h by (simp add: layout_ok_def)
  obtain st' m where st': "mark_unused_space E st = Some st'" "plog st' = plog st" "same_rest st st'"
    "segs st' = (segs st)(h \<mapsto> g\<lparr>log_entries := m\<rparr>)" "\<forall>a < Q h. m a = log_entries g a" "ended m (Q h)"
    using mark_run [OF hd g q] by blast
  have same: "nexts (segs st') = nexts (segs st)" "ids (segs st') = ids (segs st)"
    using g by (auto simp: st'(4) nexts_def ids_def)
  then have ok': "lists_ok (plog st') (segs st') A"
    using ok st'(2) lists_ok_cong by metis
  have mem': "mem (segs st') s = (if s = h then m else mem (segs st) s)" for s
    by (simp add: mem_def st'(4))
  have agree: "mem (segs st') s a = mem (segs st) s a" if "a < Q s" for s a
    using st'(5) that g by (auto simp: mem')
  have "lay (mem (segs st') s) 0 (P s) (Q s)" if "s \<in> set (data_segs A)" for s
    by (rule lay_cong [where m = "mem (segs st) s"]) (use lo that in \<open>auto simp: layout_ok_def agree\<close>)
  moreover have "h \<notin> set (l_used A)"
    using lists_okD(6) [OF ok] h by (simp add: all_segs_def)
  ultimately have "layout_ok (plog st') (segs st') A P Q"
    using lo st'(2) by (auto simp: layout_ok_def mem')
  then have "log_step st A P Q st' A P Q"
    using ok' st'(2,3) same by (auto simp: log_step_def keeps_def agree list_frame_def)
  moreover have "same_used A st st'"
    using g by (auto simp: same_used_def used_of_def st'(4))
  ultimately show ?thesis using st' by (auto simp: mem')
qed

text \<open>The entry \<open>e\<close> was written behind the last one of the segment \<open>s\<close>.\<close>

definition wrote ::
  "('h, 'd) pmem \<Rightarrow> lists \<Rightarrow> (pmo \<Rightarrow> nat list) \<Rightarrow> (pmo \<Rightarrow> nat) \<Rightarrow> pmo \<Rightarrow> log_entry \<Rightarrow> ('h, 'd) pmem \<Rightarrow>
   (pmo \<Rightarrow> nat list) \<Rightarrow> (pmo \<Rightarrow> nat) \<Rightarrow> bool" where
  "wrote st A P Q s e st' P' Q' \<longleftrightarrow>
     s \<in> set (data_segs A) \<and> lists_ok (plog st') (segs st') A \<and> layout_ok (plog st') (segs st') A P' Q' \<and>
     list_frame st st' \<and> P' = P(s := P s @ [Q s]) \<and> Q' = Q(s := Q s + sizeof_entry + e_length e) \<and>
     (\<forall>t. t \<noteq> s \<longrightarrow> mem (segs st') t = mem (segs st) t \<and> used_of (segs st') t = used_of (segs st) t) \<and>
     (\<forall>a < Q s. mem (segs st') s a = mem (segs st) s a) \<and>
     used_of (segs st') s = used_of (segs st) s + word_of_nat (sizeof_entry + e_length e) \<and>
     entry_id (mem (segs st') s) (Q s) = e_id e \<and> entry_version (mem (segs st') s) (Q s) = e_version e \<and>
     entry_length (mem (segs st') s) (Q s) = e_length e \<and> entry_data (mem (segs st') s) (Q s) = e_data e \<and>
     entry_to_delete (mem (segs st') s) (Q s) = e_to_delete e"

lemma wrote_keeps: "wrote st A P Q s e st' P' Q' \<Longrightarrow> keeps (segs st) A P Q (segs st') A P' Q'"
  by (auto simp: wrote_def keeps_def)

lemma wrote_entries: "wrote st A P Q s e st' P' Q' \<Longrightarrow> entries A P' = insert (s, Q s) (entries A P)"
proof -
  assume w: "wrote st A P Q s e st' P' Q'"
  then have "P' = P(s := P s @ [Q s])" "s \<in> set (data_segs A)" by (simp_all add: wrote_def)
  then show ?thesis by (auto simp: entries_def split: if_splits)
qed

text \<open>
  A segment \<open>s\<close> whose entry area now holds \<open>m\<close>, with a new entry behind the old ones.
\<close>

lemma wroteI:
  assumes ok: "lists_ok (plog st) (segs st) A" and lo: "layout_ok (plog st) (segs st) A P Q"
    and s: "s \<in> set (l_head A @ l_cleaner A)" "segs st s = Some g"
    and st': "segs st' = (segs st)(s \<mapsto> g\<lparr>log_entries := m, used_space := used_space g + word_of_nat (sizeof_entry + e_length e)\<rparr>)"
      "plog st' = (if s \<in> set (l_head A) then (plog st)\<lparr>head_position := Q s + sizeof_entry + e_length e\<rparr> else plog st)"
      "same_rest st st'"
    and old: "\<And>a. a < Q s \<Longrightarrow> m a = log_entries g a"
    and new: "entry_id m (Q s) = e_id e" "entry_version m (Q s) = e_version e" "entry_length m (Q s) = e_length e"
      "entry_data m (Q s) = e_data e" "entry_to_delete m (Q s) = e_to_delete e"
    and e: "0 < e_length e" and room: "Q s + sizeof_entry + e_length e \<le> area_size"
  shows "wrote st A P Q s e st' (P(s := P s @ [Q s])) (Q(s := Q s + sizeof_entry + e_length e))"
    (is "wrote _ _ _ _ _ _ _ ?P' ?Q'")
proof -
  have hA: "s \<in> set (data_segs A)" "s \<notin> set (l_used A)" "s \<in> set (l_head A) \<Longrightarrow> set (l_head A) = {s}"
    using s(1) lists_okD(6) [OF ok] lists_ok_head_single [OF ok] by (auto simp: data_segs_def all_segs_def)
  have same: "nexts (segs st') = nexts (segs st)" "ids (segs st') = ids (segs st)"
    using s(2) by (auto simp: st'(1) nexts_def ids_def)
  have "lists_ok (plog st') (segs st') A = lists_ok (plog st) (segs st') A"
    by (simp add: lists_ok_def st'(2))
  then have ok': "lists_ok (plog st') (segs st') A"
    using ok lists_ok_cong [OF same] by simp
  have mem': "mem (segs st') t = (if t = s then m else mem (segs st) t)" for t
    by (simp add: mem_def st'(1))
  have agree: "mem (segs st') t a = mem (segs st) t a" if "a < Q t" for t a
    using that s(2) old by (auto simp: mem')
  have lays: "lay (mem (segs st') t) 0 (P t) (Q t)" if "t \<in> set (data_segs A)" for t
    by (rule lay_cong [where m = "mem (segs st) t"]) (use lo that in \<open>auto simp: layout_ok_def agree\<close>)
  have "lay m 0 (?P' s) (?Q' s)"
    using lays [OF hA(1)] new(3) e room by (auto simp: lay_append mem' entry_size_def add.assoc)
  then have lo': "layout_ok (plog st') (segs st') A ?P' ?Q'"
    using lo hA lays s(1) by (auto simp: layout_ok_def mem' st'(2))
  have used': "used_of (segs st') t =
      (if t = s then used_of (segs st) s + word_of_nat (sizeof_entry + e_length e) else used_of (segs st) t)" for t
    using s(2) by (simp add: used_of_def st'(1))
  have "list_frame st st'"
    using st'(2,3) same by (simp add: list_frame_def)
  moreover have "\<forall>a < Q s. mem (segs st') s a = mem (segs st) s a"
    by (simp add: agree)
  ultimately show ?thesis
    using ok' lo' hA(1) new unfolding wrote_def used' by (simp add: mem')
qed

text \<open>\<open>write_head\<close> writes behind the last entry of the head segment.\<close>

lemma write_head_wrote:
  assumes ok: "lists_ok (plog st) (segs st) A" and lo: "layout_ok (plog st) (segs st) A P Q"
    and h: "l_head A = [h]" and e: "e_length e = length (e_data e)" "0 < e_length e"
    and room: "Q h + sizeof_entry + e_length e \<le> area_size"
  shows "\<exists>st'. write_head E e st = Some (entry_off h (Q h), st') \<and>
    wrote st A P Q h e st' (P(h := P h @ [Q h])) (Q(h := Q h + sizeof_entry + e_length e))"
proof -
  let ?n = "sizeof_entry + e_length e"
  have hd: "head_segment (plog st) = h" "h \<noteq> 0"
    using head_cases [OF ok] h by (auto split: if_splits)
  obtain g where g: "segs st h = Some g"
    using layout_seg [OF ok lo, of h] h by (auto simp: data_segs_def)
  have q: "head_position (plog st) = Q h"
    using lo h by (simp add: layout_ok_def)
  have len: "length (entry_bytes e) = ?n"
    by (rule length_entry_bytes [OF e(1)])
  define m where "m = patch (log_entries g) (Q h) (entry_bytes e)"
  obtain st' where st': "write_head E e st = Some (entry_off h (Q h), st')"
    "plog st' = (plog st)\<lparr>head_position := Q h + ?n\<rparr>" "same_rest st st'"
    "segs st' = (segs st)(h \<mapsto> g\<lparr>log_entries := m, used_space := used_space g + word_of_nat ?n\<rparr>)"
    using hd g room len q
    by (simp add: write_head_def write_area_def access_simps Let_def same_rest_def m_def add.assoc)
  have "e_length e < 2 ^ 64"
    using room by simp
  note dec = entry_bytes_decode [OF e(1) this m_def]
  have "wrote st A P Q h e st' (P(h := P h @ [Q h])) (Q(h := Q h + sizeof_entry + e_length e))"
    by (rule wroteI [where g = g and m = m, OF ok lo])
      (use h g st' dec e room in \<open>auto simp: m_def mem_simps add.assoc\<close>)
  with st'(1) show ?thesis by blast
qed

text \<open>The log has room for \<open>n\<close> bytes of data: in the head segment, or in a free one.\<close>

definition has_room :: "log_hdr \<Rightarrow> lists \<Rightarrow> nat \<Rightarrow> bool" where
  "has_room l A n \<longleftrightarrow> l_free A \<noteq> [] \<or> l_head A \<noteq> [] \<and> head_position l + sizeof_entry + n \<le> area_size"

text \<open>
  The cleaner segments and the ends of their entries stay as they are, and the used segments stay
  used, with the same entries.  No segment is lost.
\<close>

definition cleaner_frame :: "lists \<Rightarrow> (pmo \<Rightarrow> nat list) \<Rightarrow> (pmo \<Rightarrow> nat) \<Rightarrow> lists \<Rightarrow> (pmo \<Rightarrow> nat list) \<Rightarrow> (pmo \<Rightarrow> nat) \<Rightarrow> bool" where
  "cleaner_frame A P Q A' P' Q' \<longleftrightarrow> l_cleaner A' = l_cleaner A \<and> (\<forall>s \<in> set (l_cleaner A). Q' s = Q s) \<and>
     (\<forall>s \<in> set (l_used A). s \<in> set (l_used A') \<and> P' s = P s \<and> Q' s = Q s) \<and> set (all_segs A') = set (all_segs A)"

lemma cleaner_frame_refl [simp]: "cleaner_frame A P Q A P Q"
  by (simp add: cleaner_frame_def)

lemma cleaner_frame_trans:
  "cleaner_frame A P Q A' P' Q' \<Longrightarrow> cleaner_frame A' P' Q' A'' P'' Q'' \<Longrightarrow> cleaner_frame A P Q A'' P'' Q''"
  by (simp add: cleaner_frame_def)

lemma new_head_cleaner:
  assumes "lists_ok l sm A"
  shows "cleaner_frame A P Q (abs_new_head A) (new_P A P) (new_Q A Q)"
  using lists_okD(6) [OF assms] by (auto simp: cleaner_frame_def abs_new_head_def new_P_def new_Q_def all_segs_def split: list.splits)

text \<open>
  An append is a step of the log that makes room, followed by the writing of the entry, or by
  nothing if there is no room.
\<close>

definition appends ::
  "('h, 'd) pmem \<Rightarrow> lists \<Rightarrow> (pmo \<Rightarrow> nat list) \<Rightarrow> (pmo \<Rightarrow> nat) \<Rightarrow> log_entry \<Rightarrow> pmo \<Rightarrow> ('h, 'd) pmem \<Rightarrow>
   lists \<Rightarrow> (pmo \<Rightarrow> nat list) \<Rightarrow> (pmo \<Rightarrow> nat) \<Rightarrow> bool" where
  "appends st A P Q e off st' A' P' Q' \<longleftrightarrow> (\<exists>st1 P1 Q1. log_step st A P Q st1 A' P1 Q1 \<and> same_used A st st1 \<and>
     cleaner_frame A P Q A' P1 Q1 \<and>
     (if has_room (plog st) A (e_length e)
      then \<exists>s. l_head A' = [s] \<and> off = entry_off s (Q1 s) \<and> wrote st1 A' P1 Q1 s e st' P' Q'
      else off = 0 \<and> st' = st1 \<and> P' = P1 \<and> Q' = Q1))"

lemma appends_write:
  assumes r: "log_step st A P Q st1 A' P1 Q1" "same_used A st st1" "cleaner_frame A P Q A' P1 Q1" and h: "l_head A' = [h]"
    and e: "e_length e = length (e_data e)" "0 < e_length e"
    and room: "Q1 h + sizeof_entry + e_length e \<le> area_size" "has_room (plog st) A (e_length e)"
  shows "\<exists>st' P' Q' off. write_head E e st1 = Some (off, st') \<and> appends st A P Q e off st' A' P' Q'"
proof -
  have "lists_ok (plog st1) (segs st1) A'" "layout_ok (plog st1) (segs st1) A' P1 Q1"
    using r(1) by (simp_all add: log_step_def)
  from write_head_wrote [OF this h e room(1), of E] r h room(2) show ?thesis
    unfolding appends_def by (simp only: if_True) blast
qed

text \<open>The entry goes to a new head, if there is a free segment.\<close>

lemma append_fresh:
  assumes ok: "lists_ok (plog st) (segs st) A" and e: "e_length e = length (e_data e)" "0 < e_length e" "e_length e \<le> area_size - sizeof_entry"
    and r: "log_step st A P Q st1 (abs_new_head A) (new_P A P) (new_Q A Q)" "same_used A st st1"
    and no: "l_free A = [] \<Longrightarrow> \<not> has_room (plog st) A (e_length e)"
  shows "\<exists>st' P' Q' off. (if l_free A = [] then Some (0, st1) else write_head E e st1) = Some (off, st') \<and>
      appends st A P Q e off st' (abs_new_head A) P' Q'"
    and "l_free A = [] \<or> \<not> area_size - head_position (plog st1) < sizeof_entry + e_length e"
proof -
  let ?A1 = "abs_new_head A" and ?Q1 = "new_Q A Q"
  show "\<exists>st' P' Q' off. (if l_free A = [] then Some (0, st1) else write_head E e st1) = Some (off, st') \<and>
    appends st A P Q e off st' ?A1 P' Q'"
  proof (cases "l_free A")
    case Nil
    with r no new_head_cleaner [OF ok, of P Q] show ?thesis by (auto simp: appends_def)
  next
    case (Cons f fs)
    then have f: "l_head ?A1 = [f]" "?Q1 f = 0" "has_room (plog st) A (e_length e)"
      by (simp_all add: abs_new_head_def new_Q_def has_room_def)
    have "?Q1 f + sizeof_entry + e_length e \<le> area_size"
      using f(2) e(3) by simp
    from appends_write [OF r new_head_cleaner [OF ok] f(1) e(1,2) this f(3), of E] Cons show ?thesis by simp
  qed
  show "l_free A = [] \<or> \<not> area_size - head_position (plog st1) < sizeof_entry + e_length e"
  proof (cases "l_free A")
    case (Cons f fs)
    then have "head_position (plog st1) = 0"
      using r(1) by (simp add: log_step_def layout_ok_def abs_new_head_def new_Q_def)
    with e(3) show ?thesis by simp
  qed simp
qed

text \<open>The head is full: it is marked and left.\<close>

lemma leave_head:
  assumes ok: "lists_ok (plog st) (segs st) A" and lo: "layout_ok (plog st) (segs st) A P Q" and hl: "locks_free st"
    and h: "l_head A = [h]"
  obtains st0 st1 where "mark_unused_space E st = Some st0" 
    "append_head_to_used_segments_and_get_new_head_segment E st0 = Some (l_free A = [], st1)"
    "log_step st A P Q st1 (abs_new_head A) (new_P A P) (new_Q A Q)" "same_used A st st1"
proof -
  obtain st0 where st0: "mark_unused_space E st = Some st0" "log_step st A P Q st0 A P Q" "same_used A st st0"
    "ended (mem (segs st0) h) (Q h)"
    using mark_step [OF ok lo h, of E] by blast
  note r0 = st0(2) [unfolded log_step_def]
  have "locks_free st0"
    using r0 hl by (simp add: list_frame_def same_rest_def locks_free_def)
  then have "\<exists>st1. append_head_to_used_segments_and_get_new_head_segment E st0 = Some (l_free A = [], st1) \<and>
      log_step st0 A P Q st1 (abs_new_head A) (new_P A P) (new_Q A Q) \<and> same_used A st0 st1"
    by (intro new_head_step) (use r0 h st0(4) in auto)
  then obtain st1 where "append_head_to_used_segments_and_get_new_head_segment E st0 = Some (l_free A = [], st1)"
    "log_step st A P Q st1 (abs_new_head A) (new_P A P) (new_Q A Q)" "same_used A st st1"
    using log_step_trans [OF st0(2)] same_used_trans [OF st0(3,2)] by blast
  with st0(1) show ?thesis by (rule that)
qed

lemma append_ok:
  assumes ok: "lists_ok (plog st) (segs st) A" and lo: "layout_ok (plog st) (segs st) A P Q" and hl: "locks_free st"
    and e: "e_length e = length (e_data e)" "0 < e_length e" "e_length e \<le> area_size - sizeof_entry"
  shows "\<exists>st' A' P' Q' off. append_to_log E st e = Some (off, st') \<and> appends st A P Q e off st' A' P' Q'"
proof (cases "l_head A")
  case Nil
  then have "head_segment (plog st) = 0"
    using head_cases [OF ok] by (simp split: if_splits)
  moreover obtain st1 where st1: "append_head_to_used_segments_and_get_new_head_segment E st = Some (l_free A = [], st1)"
    "log_step st A P Q st1 (abs_new_head A) (new_P A P) (new_Q A Q)" "same_used A st st1"
    using new_head_step [OF ok lo hl, of E] Nil by auto
  moreover have no: "l_free A = [] \<Longrightarrow> \<not> has_room (plog st) A (e_length e)"
    using Nil by (simp add: has_room_def)
  ultimately have "append_to_log E st e = (if l_free A = [] then Some (0, st1) else write_head E e st1)"
    using append_fresh(2) [OF ok e st1(2,3) no] by (auto simp: append_to_log_def)
  with append_fresh(1) [OF ok e st1(2,3) no, of E] show ?thesis by metis
next
  case (Cons h hs)
  then have h: "l_head A = [h]" "head_segment (plog st) = h" "h \<noteq> 0"
    using head_cases [OF ok] by (auto split: if_splits)
  have hp: "head_position (plog st) = Q h"
    using lo h by (simp add: layout_ok_def)
  have "h \<in> set (data_segs A)"
    using h by (simp add: data_segs_def)
  then have Qh: "Q h \<le> area_size"
    using layout_seg [OF ok lo] by metis
  show ?thesis
  proof (cases "area_size - Q h < sizeof_entry + e_length e")
    case False
    then have room: "Q h + sizeof_entry + e_length e \<le> area_size"
      using Qh e(3) by simp
    moreover have "append_to_log E st e = write_head E e st"
      using h hp False by (simp add: append_to_log_def)
    moreover have "has_room (plog st) A (e_length e)"
      using room h hp by (simp add: has_room_def)
    ultimately show ?thesis
      using appends_write [OF log_step_refl [OF ok lo] same_used_refl cleaner_frame_refl h(1) e(1,2) room, of E] by metis
  next
    case True
    obtain st0 st1 where st1: "mark_unused_space E st = Some st0" 
      "append_head_to_used_segments_and_get_new_head_segment E st0 = Some (l_free A = [], st1)"
      "log_step st A P Q st1 (abs_new_head A) (new_P A P) (new_Q A Q)" "same_used A st st1"
      by (rule leave_head [OF ok lo hl h(1)])
    have "append_to_log E st e = (if l_free A = [] then Some (0, st1) else write_head E e st1)"
      using h hp True st1(1,2) by (simp add: append_to_log_def)
    moreover have no: "l_free A = [] \<Longrightarrow> \<not> has_room (plog st) A (e_length e)"
      using True h hp Qh by (auto simp: has_room_def)
    ultimately show ?thesis
      using append_fresh(1) [OF ok e st1(3,4) no, of E] by metis
  qed
qed


end
