(* ===== verification/Heap_Index.thy ===== *)
theory Heap_Index
  imports Heap
begin

text \<open>
  The index, the entries of the log and the used space of the segments belong together: the index
  points to the newest entry of each object (\<open>tidy\<close>), and the used space of a segment is the
  size of the entries the index points to (\<open>used_ok\<close>).  The lemmas say how each step of the log
  changes the two.
\<close>

section \<open>The index as a map\<close>

lemma glib_okD:
  assumes "glib_ok E"
  shows "gh_map E (gh_new E) = Map.empty" "gh_map E (gh_insert E h k v) = (gh_map E h)(k \<mapsto> v)"
    "gh_map E (gh_remove E h k) = (gh_map E h)(k := None)" "\<not> gh_contains E h k \<Longrightarrow> gh_lookup E h k = 0"
    "distinct (map fst (gh_entries E h))" "map_of (gh_entries E h) = gh_map E h"
  using assms by (auto simp: glib_ok_def)

lemma gh_map_None: "gh_map E h k = None \<longleftrightarrow> \<not> gh_contains E h k"
  by (simp add: gh_map_def)

lemma gh_map_Some: "gh_map E h k = Some v \<Longrightarrow> gh_contains E h k \<and> gh_lookup E h k = v"
  by (simp add: gh_map_def split: if_splits)

section \<open>Live entries and used space\<close>

definition live :: "(pmo \<rightharpoonup> segment) \<Rightarrow> (u64 \<rightharpoonup> pmo) \<Rightarrow> (pmo \<Rightarrow> nat list) \<Rightarrow> pmo \<Rightarrow> nat set" where
  "live sm i P s = {p \<in> set (P s). i (entry_id (mem sm s) p) = Some (entry_off s p)}"

definition live_bytes :: "(pmo \<rightharpoonup> segment) \<Rightarrow> (u64 \<rightharpoonup> pmo) \<Rightarrow> (pmo \<Rightarrow> nat list) \<Rightarrow> pmo \<Rightarrow> nat" where
  "live_bytes sm i P s = (\<Sum>p \<in> live sm i P s. entry_size (mem sm s) p)"

text \<open>
  The used space of every segment that holds data, but those in \<open>X\<close> (a segment that is being
  cleaned), is the size of its live entries, and a segment without data uses none.
\<close>

definition used_ok ::
  "(pmo \<rightharpoonup> segment) \<Rightarrow> (u64 \<rightharpoonup> pmo) \<Rightarrow> lists \<Rightarrow> (pmo \<Rightarrow> nat list) \<Rightarrow> pmo set \<Rightarrow> bool" where
  "used_ok sm i A P X \<longleftrightarrow>
     (\<forall>s \<in> set (data_segs A) - X. unat (used_of sm s) = live_bytes sm i P s) \<and> (\<forall>s \<in> avail A. used_of sm s = 0)"

text \<open>
  An unmarked entry of the log, outside the set \<open>D\<close> of entries that have been moved away, is the
  one the index points to, or older than that.
\<close>

definition tidy ::
  "(pmo \<rightharpoonup> segment) \<Rightarrow> (u64 \<rightharpoonup> pmo) \<Rightarrow> lists \<Rightarrow> (pmo \<Rightarrow> nat list) \<Rightarrow> (pmo \<times> nat) set \<Rightarrow> bool" where
  "tidy sm i A P D \<longleftrightarrow> D \<subseteq> entries A P \<and>
     (\<forall>s p. (s, p) \<in> D \<longrightarrow> i (entry_id (mem sm s) p) \<noteq> Some (entry_off s p)) \<and>
     (\<forall>s p. (s, p) \<in> entries A P - D \<longrightarrow> \<not> entry_to_delete (mem sm s) p \<longrightarrow>
       0 < entry_version (mem sm s) p \<and> (\<exists>t q. (t, q) \<in> entries A P - D \<and> entry_id (mem sm t) q = entry_id (mem sm s) p \<and>
         i (entry_id (mem sm s) p) = Some (entry_off t q) \<and>
         ((t, q) = (s, p) \<or> entry_version (mem sm s) p < entry_version (mem sm t) q)))"

definition agree :: "(pmo \<rightharpoonup> segment) \<Rightarrow> (pmo \<rightharpoonup> segment) \<Rightarrow> (pmo \<times> nat) set \<Rightarrow> bool" where
  "agree sm sm' S \<longleftrightarrow> (\<forall>s p. (s, p) \<in> S \<longrightarrow> entry_id (mem sm' s) p = entry_id (mem sm s) p \<and>
     entry_version (mem sm' s) p = entry_version (mem sm s) p \<and> entry_to_delete (mem sm' s) p = entry_to_delete (mem sm s) p \<and>
     entry_size (mem sm' s) p = entry_size (mem sm s) p)"

lemma agreeD:
  assumes "agree sm sm' S" and "(s, p) \<in> S"
  shows "entry_id (mem sm' s) p = entry_id (mem sm s) p" "entry_version (mem sm' s) p = entry_version (mem sm s) p"
    "entry_to_delete (mem sm' s) p = entry_to_delete (mem sm s) p" "entry_size (mem sm' s) p = entry_size (mem sm s) p"
  using assms by (auto simp: agree_def)

lemma keeps_agree:
  "lists_ok l sm A \<Longrightarrow> layout_ok l sm A P Q \<Longrightarrow> keeps sm A P Q sm' A' P' Q' \<Longrightarrow> agree sm sm' (entries A P)"
  unfolding agree_def by (auto simp: keeps_fields)

lemma ex2I: "R a b \<Longrightarrow> \<exists>x y. R x y"
  by blast

lemma tidyI:
  assumes "D \<subseteq> entries A P" and "\<And>s p. (s, p) \<in> D \<Longrightarrow> i (entry_id (mem sm s) p) \<noteq> Some (entry_off s p)"
    and "\<And>s p. (s, p) \<in> entries A P - D \<Longrightarrow> \<not> entry_to_delete (mem sm s) p \<Longrightarrow>
      0 < entry_version (mem sm s) p \<and> (\<exists>t q. (t, q) \<in> entries A P - D \<and> entry_id (mem sm t) q = entry_id (mem sm s) p \<and>
        i (entry_id (mem sm s) p) = Some (entry_off t q) \<and>
        ((t, q) = (s, p) \<or> entry_version (mem sm s) p < entry_version (mem sm t) q))"
  shows "tidy sm i A P D"
  using assms unfolding tidy_def by blast

lemma tidyE:
  assumes "tidy sm i A P D" and "(s, p) \<in> entries A P" and "(s, p) \<notin> D" and "\<not> entry_to_delete (mem sm s) p"
  obtains t q where "0 < entry_version (mem sm s) p" "(t, q) \<in> entries A P" "(t, q) \<notin> D" "entry_id (mem sm t) q = entry_id (mem sm s) p"
    "i (entry_id (mem sm s) p) = Some (entry_off t q)"
    "(t, q) = (s, p) \<or> entry_version (mem sm s) p < entry_version (mem sm t) q"
  using assms unfolding tidy_def by blast

lemma tidy_agree:
  assumes t: "tidy sm i A P D" and a: "agree sm sm' (entries A P)" and e: "entries A' P' = entries A P"
  shows "tidy sm' i A' P' D"
proof (rule tidyI, unfold e)
  show D: "D \<subseteq> entries A P"
    using t by (simp add: tidy_def)
  show "i (entry_id (mem sm' s) p) \<noteq> Some (entry_off s p)" if "(s, p) \<in> D" for s p
    using t that D agreeD(1) [OF a, of s p] by (auto simp: tidy_def)
  show "0 < entry_version (mem sm' s) p \<and> (\<exists>t q. (t, q) \<in> entries A P - D \<and> entry_id (mem sm' t) q = entry_id (mem sm' s) p \<and>
      i (entry_id (mem sm' s) p) = Some (entry_off t q) \<and>
      ((t, q) = (s, p) \<or> entry_version (mem sm' s) p < entry_version (mem sm' t) q))"
    if s: "(s, p) \<in> entries A P - D" "\<not> entry_to_delete (mem sm' s) p" for s p
  proof -
    have s': "(s, p) \<in> entries A P" "(s, p) \<notin> D" using s(1) by auto
    note f = agreeD [OF a s'(1)]
    obtain t' q where "0 < entry_version (mem sm s) p" "(t', q) \<in> entries A P" "(t', q) \<notin> D" "entry_id (mem sm t') q = entry_id (mem sm s) p"
      "i (entry_id (mem sm s) p) = Some (entry_off t' q)"
      "(t', q) = (s, p) \<or> entry_version (mem sm s) p < entry_version (mem sm t') q"
      using tidyE [OF t s'] s(2) f(3) by auto
    with f agreeD [OF a this(2)] show ?thesis by (intro conjI ex2I [where a = "t'" and b = "q"]) auto
  qed
qed

lemma live_bytes_agree:
  assumes "agree sm sm' (entries A P)" and "set (P' s) = set (P s)" and "s \<in> set (data_segs A)"
  shows "live_bytes sm' i P' s = live_bytes sm i P s"
proof -
  have *: "entry_id (mem sm' s) p = entry_id (mem sm s) p \<and> entry_size (mem sm' s) p = entry_size (mem sm s) p"
    if "p \<in> set (P s)" for p
    using agreeD(1,4) [OF assms(1)] assms(3) that by (simp add: entries_def)
  then have "live sm' i P' s = live sm i P s"
    using assms(2) by (auto simp: live_def)
  then show ?thesis
    unfolding live_bytes_def by (rule sum.cong) (use * in \<open>auto simp: live_def\<close>)
qed

lemma entries_set:
  "entries A' P' = entries A P \<Longrightarrow> s \<in> set (data_segs A') \<Longrightarrow>
   set (P' s) = (if s \<in> set (data_segs A) then set (P s) else {})"
proof -
  have *: "{p. (s, p) \<in> entries B R} = (if s \<in> set (data_segs B) then set (R s) else {})" for B R
    by (simp add: entries_def)
  show "entries A' P' = entries A P \<Longrightarrow> s \<in> set (data_segs A') \<Longrightarrow> ?thesis"
    using * [of A' P'] * [of A P] by simp
qed

lemma used_log_step:
  assumes ok: "lists_ok (plog st) (segs st) A" "layout_ok (plog st) (segs st) A P Q"
    and r: "log_step st A P Q st' A' P' Q'" "same_used A st st'" and u: "used_ok (segs st) i A P X"
  shows "used_ok (segs st') i A' P' X"
  unfolding used_ok_def
proof (intro conjI ballI)
  have e: "entries A' P' = entries A P" and all: "set (all_segs A') = set (all_segs A)" and av: "avail A' \<subseteq> avail A"
    and k: "keeps (segs st) A P Q (segs st') A' P' Q'"
    using r(1) by (simp_all add: log_step_def)
  note a = keeps_agree [OF ok k]
  have same: "used_of (segs st') s = used_of (segs st) s" if "s \<in> set (all_segs A)" for s
    using r(2) that by (simp add: same_used_def)
  show "used_of (segs st') s = 0" if "s \<in> avail A'" for s
    using u that av same [of s] by (auto simp: used_ok_def all_segs_split)
  show "unat (used_of (segs st') s) = live_bytes (segs st') i P' s" if s: "s \<in> set (data_segs A') - X" for s
  proof (cases "s \<in> set (data_segs A)")
    case True
    then have "set (P' s) = set (P s)"
      using entries_set [OF e] s by simp
    from live_bytes_agree [where P = P and P' = P', OF a this True, where i = i] show ?thesis
      using u s same [of s] True by (auto simp: used_ok_def all_segs_split)
  next
    case False
    then have "set (P' s) = {}"
      using entries_set [OF e] s by simp
    moreover have "s \<in> avail A"
      using s False all by (auto simp: all_segs_split)
    ultimately show ?thesis
      using u same [of s] by (auto simp: used_ok_def all_segs_split live_bytes_def live_def)
  qed
qed

lemma tidy_log_step:
  assumes ok: "lists_ok (plog st) (segs st) A" "layout_ok (plog st) (segs st) A P Q"
    and r: "log_step st A P Q st' A' P' Q'" and t: "tidy (segs st) i A P D"
  shows "tidy (segs st') i A' P' D"
  by (rule tidy_agree [OF t keeps_agree [OF ok]]) (use r in \<open>auto simp: log_step_def\<close>)

section \<open>A new entry\<close>

lemma lay_sum: "lay m p ps q \<Longrightarrow> distinct ps \<and> (\<Sum>x \<in> set ps. entry_size m x) + p = q"
proof (induction ps arbitrary: p)
  case (Cons x xs)
  then have l: "lay m (p + entry_size m p) xs q" "x = p" by auto
  moreover have "p \<notin> set xs"
    using lay_mem [OF l(1)] entry_size_ge [of m p] by fastforce
  ultimately show ?case
    using Cons.IH [OF l(1)] by simp
qed simp

lemma live_bytes_le:
  assumes "lists_ok l sm A" and "layout_ok l sm A P Q" and "s \<in> set (data_segs A)"
  shows "live_bytes sm i P s \<le> Q s"
proof -
  have "lay (mem sm s) 0 (P s) (Q s)"
    using assms(2,3) by (simp add: layout_ok_def)
  moreover have "live_bytes sm i P s \<le> (\<Sum>x \<in> set (P s). entry_size (mem sm s) x)"
    unfolding live_bytes_def by (rule sum_mono2) (auto simp: live_def)
  ultimately show ?thesis
    using lay_sum by fastforce
qed

lemma wroteD:
  assumes "wrote st A P Q s e st' P' Q'"
  shows "s \<in> set (data_segs A)" "lists_ok (plog st') (segs st') A" "layout_ok (plog st') (segs st') A P' Q'"
    "list_frame st st'" "P' = P(s := P s @ [Q s])" "Q' = Q(s := Q s + sizeof_entry + e_length e)"
    "\<And>t. t \<noteq> s \<Longrightarrow> mem (segs st') t = mem (segs st) t \<and> used_of (segs st') t = used_of (segs st) t"
    "used_of (segs st') s = used_of (segs st) s + word_of_nat (sizeof_entry + e_length e)"
    "entry_id (mem (segs st') s) (Q s) = e_id e" "entry_version (mem (segs st') s) (Q s) = e_version e"
    "entry_length (mem (segs st') s) (Q s) = e_length e" "entry_data (mem (segs st') s) (Q s) = e_data e"
    "entry_to_delete (mem (segs st') s) (Q s) = e_to_delete e"
  using assms unfolding wrote_def by blast+

lemma wrote_new:
  assumes w: "wrote st A P Q s e st' P' Q'" and ok: "lists_ok (plog st) (segs st) A" "layout_ok (plog st) (segs st) A P Q"
  shows "(s, Q s) \<notin> entries A P" and "agree (segs st) (segs st') (entries A P)"
    and "(t, q) \<in> entries A P \<Longrightarrow> entry_off t q \<noteq> entry_off s (Q s)"
proof -
  have s: "s \<in> set (data_segs A)" and lo': "lists_ok (plog st') (segs st') A" "layout_ok (plog st') (segs st') A P' Q'"
    using wroteD [OF w] by blast+
  have l: "lay (mem (segs st) s) 0 (P s) (Q s)"
    using ok(2) s by (simp add: layout_ok_def)
  then show n: "(s, Q s) \<notin> entries A P"
    using lay_mem [OF l, of "Q s"] entry_size_ge [of "mem (segs st) s" "Q s"] by (auto simp: entries_def)
  show "agree (segs st) (segs st') (entries A P)"
    by (rule keeps_agree [OF ok wrote_keeps [OF w]])
  show "(t, q) \<in> entries A P \<Longrightarrow> entry_off t q \<noteq> entry_off s (Q s)"
    using entries_off_eq [OF lo', of t q s "Q s"] wrote_entries [OF w] n by auto
qed

lemma used_wrote:
  assumes w: "wrote st A P Q s e st' P' Q'" and ok: "lists_ok (plog st) (segs st) A" "layout_ok (plog st) (segs st) A P Q"
    and u: "used_ok (segs st) i A P X"
    and n: "\<And>t q. (t, q) \<in> entries A P \<Longrightarrow> t \<notin> X \<Longrightarrow> i (e_id e) \<noteq> Some (entry_off t q)"
  shows "used_ok (segs st') (i(e_id e \<mapsto> entry_off s (Q s))) A P' X" (is "used_ok _ ?i _ _ _")
proof -
  note new = wrote_new [OF w ok]
  have s: "s \<in> set (data_segs A)" and P': "P' = P(s := P s @ [Q s])"
    and fld: "entry_id (mem (segs st') s) (Q s) = e_id e" "entry_length (mem (segs st') s) (Q s) = e_length e"
    and used: "used_of (segs st') s = used_of (segs st) s + word_of_nat (sizeof_entry + e_length e)"
      "\<And>t. t \<noteq> s \<Longrightarrow> used_of (segs st') t = used_of (segs st) t"
    and ok': "lists_ok (plog st') (segs st') A" "layout_ok (plog st') (segs st') A P' Q'"
    using wroteD [OF w] by blast+
  have live: "{p \<in> set (P t). ?i (entry_id (mem (segs st') t) p) = Some (entry_off t p)} = live (segs st) i P t"
    if t: "t \<in> set (data_segs A)" "t \<notin> X" for t
  proof -
    have "?i (entry_id (mem (segs st') t) p) = Some (entry_off t p) \<longleftrightarrow> i (entry_id (mem (segs st) t) p) = Some (entry_off t p)"
      if p: "p \<in> set (P t)" for p
    proof -
      have e: "(t, p) \<in> entries A P"
        using t p by (simp add: entries_def)
      from agreeD(1) [OF new(2) e] n [OF e t(2)] new(3) [OF e] show ?thesis by auto
    qed
    then show ?thesis
      unfolding live_def by blast
  qed
  have bytes: "(\<Sum>p \<in> live (segs st) i P t. entry_size (mem (segs st') t) p) = live_bytes (segs st) i P t"
    if t: "t \<in> set (data_segs A)" for t
    unfolding live_bytes_def
    by (rule sum.cong [OF refl]) (use agreeD(4) [OF new(2)] t in \<open>auto simp: live_def entries_def\<close>)
  have dis: "s \<notin> avail A"
    using s lists_okD(6) [OF ok(1)] by (auto simp: data_segs_def avail_def all_segs_def)
  show ?thesis
    unfolding used_ok_def
  proof (intro conjI ballI)
    show "used_of (segs st') t = 0" if "t \<in> avail A" for t
      using u that used(2) [of t] dis by (auto simp: used_ok_def)
    show "unat (used_of (segs st') t) = live_bytes (segs st') ?i P' t" if t: "t \<in> set (data_segs A) - X" for t
    proof (cases "t = s")
      case False
      then have "live (segs st') ?i P' t = live (segs st) i P t"
        using live [of t] t by (auto simp: live_def P')
      then show ?thesis
        using bytes [of t] t u used(2) [OF False] by (simp add: live_bytes_def used_ok_def)
    next
      case True
      have nin: "Q s \<notin> live (segs st) i P s"
        using new(1) s by (auto simp: live_def entries_def)
      have "live (segs st') ?i P' s = insert (Q s) {p \<in> set (P s). ?i (entry_id (mem (segs st') s) p) = Some (entry_off s p)}"
        by (auto simp: live_def P' fld(1))
      also have "\<dots> = insert (Q s) (live (segs st) i P s)"
        using live [OF s] t True by simp
      finally have lb: "live_bytes (segs st') ?i P' s = sizeof_entry + e_length e + live_bytes (segs st) i P s"
        using bytes [OF s] nin fld(2) by (simp add: live_bytes_def live_def entry_size_def)
      moreover have "live_bytes (segs st') ?i P' s \<le> area_size"
        using live_bytes_le [OF ok' s, of ?i] layout_seg [OF ok' s] by (meson le_trans)
      moreover have "unat (used_of (segs st) s) = live_bytes (segs st) i P s"
        using u t True by (simp add: used_ok_def)
      ultimately show ?thesis
        using True used(1) by (simp add: unat_word_ariths(1) unsigned_of_nat take_bit_eq_mod mod_add_right_eq)
    qed
  qed
qed

lemma tidy_wrote:
  assumes w: "wrote st A P Q s e st' P' Q'" and ok: "lists_ok (plog st) (segs st) A" "layout_ok (plog st) (segs st) A P Q"
    and t: "tidy (segs st) i A P D" and D: "D \<subseteq> D'" "D' \<subseteq> entries A P" and v: "0 < e_version e"
    and moved: "\<And>t q. (t, q) \<in> D' - D \<Longrightarrow> entry_id (mem (segs st) t) q = e_id e"
    and old: "\<And>t q. (t, q) \<in> entries A P - D' \<Longrightarrow> entry_id (mem (segs st) t) q = e_id e \<Longrightarrow>
      \<not> entry_to_delete (mem (segs st) t) q \<Longrightarrow> entry_version (mem (segs st) t) q < e_version e"
  shows "tidy (segs st') (i(e_id e \<mapsto> entry_off s (Q s))) A P' D'" (is "tidy _ ?i _ _ _")
proof (rule tidyI, unfold wrote_entries [OF w])
  note new = wrote_new [OF w ok]
  have fld: "entry_id (mem (segs st') s) (Q s) = e_id e" "entry_version (mem (segs st') s) (Q s) = e_version e"
    using wroteD [OF w] by blast+
  have nD: "(s, Q s) \<notin> D'"
    using new(1) D(2) by auto
  show "D' \<subseteq> insert (s, Q s) (entries A P)"
    using D(2) by auto
  show "?i (entry_id (mem (segs st') t') q) \<noteq> Some (entry_off t' q)" if d: "(t', q) \<in> D'" for t' q
  proof -
    have e: "(t', q) \<in> entries A P" using d D(2) by auto
    show ?thesis
      using agreeD(1) [OF new(2) e] new(3) [OF e] moved [of t' q] d t by (auto simp: tidy_def)
  qed
  show "0 < entry_version (mem (segs st') t') p \<and> (\<exists>t q. (t, q) \<in> insert (s, Q s) (entries A P) - D' \<and> entry_id (mem (segs st') t) q = entry_id (mem (segs st') t') p \<and>
      ?i (entry_id (mem (segs st') t') p) = Some (entry_off t q) \<and>
      ((t, q) = (t', p) \<or> entry_version (mem (segs st') t') p < entry_version (mem (segs st') t) q))"
    if m: "(t', p) \<in> insert (s, Q s) (entries A P) - D'" "\<not> entry_to_delete (mem (segs st') t') p" for t' p
  proof (cases "(t', p) = (s, Q s)")
    case True
    with fld nD v show ?thesis by auto
  next
    case False
    with m D have e: "(t', p) \<in> entries A P" "(t', p) \<notin> D'" "(t', p) \<notin> D" by auto
    note f = agreeD [OF new(2) e(1)]
    have pos: "0 < entry_version (mem (segs st') t') p"
      using tidyE [OF t e(1,3)] m(2) f(2,3) by metis
    show ?thesis
    proof (cases "entry_id (mem (segs st) t') p = e_id e")
      case True
      with old [of t' p] e m(2) f fld nD show ?thesis
        by (intro conjI pos ex2I [where a = "s" and b = "Q s"]) simp_all
    next
      case False
      obtain t2 q where x: "(t2, q) \<in> entries A P" "(t2, q) \<notin> D" "entry_id (mem (segs st) t2) q = entry_id (mem (segs st) t') p"
        "i (entry_id (mem (segs st) t') p) = Some (entry_off t2 q)"
        "(t2, q) = (t', p) \<or> entry_version (mem (segs st) t') p < entry_version (mem (segs st) t2) q"
        by (rule tidyE [OF t e(1,3)]) (use m(2) f(3) in auto)
      have "(t2, q) \<notin> D'"
        using moved [of t2 q] x(2,3) False by auto
      with x f agreeD [OF new(2) x(1)] False show ?thesis
        by (intro conjI pos ex2I [where a = "t2" and b = "q"]) auto
    qed
  qed
qed

section \<open>Freeing the space of an entry\<close>

text \<open>An entry the index points to leaves the index, and its size the used space of its segment.\<close>

lemma used_dec:
  assumes ok: "lists_ok l sm A" "layout_ok l sm A P Q" and u: "used_ok sm i A P X"
    and e: "(s, p) \<in> entries A P" "entry_id (mem sm s) p = n" "i n = Some (entry_off s p)"
    and same: "\<And>t q. (t, q) \<in> entries A P \<Longrightarrow> entry_id (mem sm' t) q = entry_id (mem sm t) q \<and>
      entry_size (mem sm' t) q = entry_size (mem sm t) q"
    and used: "\<And>t. used_of sm' t = (if t = s then used_of sm s - word_of_nat (entry_size (mem sm s) p) else used_of sm t)"
  shows "used_ok sm' (i(n := None)) A P X"
proof -
  have s: "s \<in> set (data_segs A)" "p \<in> set (P s)"
    using e(1) by (auto simp: entries_def)
  have live: "live sm' (i(n := None)) P t = (if t = s then live sm i P s - {p} else live sm i P t)"
    if t: "t \<in> set (data_segs A)" for t
  proof -
    have "(i(n := None)) (entry_id (mem sm' t) q) = Some (entry_off t q) \<longleftrightarrow>
        i (entry_id (mem sm t) q) = Some (entry_off t q) \<and> (t, q) \<noteq> (s, p)" if q: "q \<in> set (P t)" for q
    proof -
      have tq: "(t, q) \<in> entries A P"
        using t q by (simp add: entries_def)
      show ?thesis
        using same [OF tq] e(2,3) entries_off_eq [OF ok tq e(1)] by auto
    qed
    then have "live sm' (i(n := None)) P t = {q \<in> set (P t). i (entry_id (mem sm t) q) = Some (entry_off t q) \<and> (t, q) \<noteq> (s, p)}"
      unfolding live_def by blast
    then show ?thesis
      by (auto simp: live_def)
  qed
  have bytes: "(\<Sum>q \<in> live sm i P t - Y. entry_size (mem sm' t) q) = (\<Sum>q \<in> live sm i P t - Y. entry_size (mem sm t) q)"
    if t: "t \<in> set (data_segs A)" for t Y
    by (rule sum.cong [OF refl]) (use same t in \<open>auto simp: live_def entries_def\<close>)
  have dis: "s \<notin> avail A"
    using s lists_okD(6) [OF ok(1)] by (auto simp: data_segs_def avail_def all_segs_def)
  have fin: "finite (live sm i P s)" "p \<in> live sm i P s"
    using s e(2,3) by (auto simp: live_def)
  show ?thesis
    unfolding used_ok_def
  proof (intro conjI ballI)
    show "used_of sm' t = 0" if "t \<in> avail A" for t
      using u that used [of t] dis by (auto simp: used_ok_def)
    show "unat (used_of sm' t) = live_bytes sm' (i(n := None)) P t" if t: "t \<in> set (data_segs A) - X" for t
    proof (cases "t = s")
      case False
      then show ?thesis
        using t u live [of t] bytes [of t "{}"] used [of t] by (simp add: live_bytes_def used_ok_def)
    next
      case True
      have all: "unat (used_of sm s) = entry_size (mem sm s) p + (\<Sum>q \<in> live sm i P s - {p}. entry_size (mem sm s) q)"
        using u s(1) t True sum.remove [OF fin] by (simp add: used_ok_def live_bytes_def)
      have "unat (used_of sm s - word_of_nat (entry_size (mem sm s) p)) = unat (used_of sm s) - entry_size (mem sm s) p"
      proof -
        have "unat (used_of sm s) < 2 ^ 64"
          using unsigned_less [of "used_of sm s"] by simp
        with all have "unat (word_of_nat (entry_size (mem sm s) p) :: u64) = entry_size (mem sm s) p"
          by (simp add: unsigned_of_nat take_bit_eq_mod)
        then show ?thesis
          using all by (simp add: unat_sub_if_size)
      qed
      then show ?thesis
        using True live [OF s(1)] bytes [OF s(1), of "{p}"] used [of s] all by (simp add: live_bytes_def)
    qed
  qed
qed

text \<open>Marking the only unmarked entry of an object keeps the rest in order.\<close>

lemma tidy_mark:
  assumes t: "tidy sm i A P D" and lone: "\<And>t q. (t, q) \<in> entries A P - D \<Longrightarrow> entry_id (mem sm t) q = n \<Longrightarrow>
      \<not> entry_to_delete (mem sm t) q \<Longrightarrow> (t, q) = (s, p)"
    and same: "\<And>t q. (t, q) \<in> entries A P \<Longrightarrow> entry_id (mem sm' t) q = entry_id (mem sm t) q \<and>
      entry_version (mem sm' t) q = entry_version (mem sm t) q \<and>
      entry_to_delete (mem sm' t) q = (entry_to_delete (mem sm t) q \<or> (t, q) = (s, p))"
    and s: "entry_id (mem sm s) p = n"
  shows "tidy sm' (i(n := None)) A P D"
proof (rule tidyI)
  show D: "D \<subseteq> entries A P"
    using t by (simp add: tidy_def)
  show "(i(n := None)) (entry_id (mem sm' t') q) \<noteq> Some (entry_off t' q)" if "(t', q) \<in> D" for t' q
    using t that D same [of t' q] by (auto simp: tidy_def)
  fix t1 q1
  assume "(t1, q1) \<in> entries A P - D" "\<not> entry_to_delete (mem sm' t1) q1"
  then have e: "(t1, q1) \<in> entries A P" "(t1, q1) \<notin> D" "\<not> entry_to_delete (mem sm t1) q1" "(t1, q1) \<noteq> (s, p)"
    using same [of t1 q1] by auto
  then have n: "entry_id (mem sm t1) q1 \<noteq> n"
    using lone by blast
  obtain t2 q2 where x: "0 < entry_version (mem sm t1) q1" "(t2, q2) \<in> entries A P" "(t2, q2) \<notin> D"
    "entry_id (mem sm t2) q2 = entry_id (mem sm t1) q1" "i (entry_id (mem sm t1) q1) = Some (entry_off t2 q2)"
    "(t2, q2) = (t1, q1) \<or> entry_version (mem sm t1) q1 < entry_version (mem sm t2) q2"
    by (rule tidyE [OF t e(1-3)]) (rule that)
  have f: "entry_id (mem sm' t1) q1 = entry_id (mem sm t1) q1" "entry_version (mem sm' t1) q1 = entry_version (mem sm t1) q1"
    "entry_id (mem sm' t2) q2 = entry_id (mem sm t1) q1" "entry_version (mem sm' t2) q2 = entry_version (mem sm t2) q2"
    using same [OF e(1)] same [OF x(2)] x(4) by simp_all
  show "0 < entry_version (mem sm' t1) q1 \<and> (\<exists>t q. (t, q) \<in> entries A P - D \<and>
      entry_id (mem sm' t) q = entry_id (mem sm' t1) q1 \<and> (i(n := None)) (entry_id (mem sm' t1) q1) = Some (entry_off t q) \<and>
      ((t, q) = (t1, q1) \<or> entry_version (mem sm' t1) q1 < entry_version (mem sm' t) q))"
    using x n by (intro conjI ex2I [where a = "t2" and b = "q2"]) (simp_all add: f)
qed

text \<open>An object in its first version has one unmarked entry.\<close>

lemma tidy_lone:
  assumes t: "tidy sm i A P D" and ok: "lists_ok l sm A" "layout_ok l sm A P Q"
    and e: "(s, p) \<in> entries A P" "i n = Some (entry_off s p)" "entry_version (mem sm s) p = 1"
    and q: "(t, q) \<in> entries A P" "(t, q) \<notin> D" "entry_id (mem sm t) q = n" "\<not> entry_to_delete (mem sm t) q"
  shows "(t, q) = (s, p)"
proof -
  obtain t' q' where x: "0 < entry_version (mem sm t) q" "(t', q') \<in> entries A P" "i n = Some (entry_off t' q')"
    "(t', q') = (t, q) \<or> entry_version (mem sm t) q < entry_version (mem sm t') q'"
    by (rule tidyE [OF t q(1,2,4)]) (use q(3) in auto)
  with e have "t' = s \<and> q' = p"
    using entries_off_eq [OF ok x(2) e(1)] by auto
  then show ?thesis
    using x(1,4) e(3) by (auto simp: word_less_nat_alt)
qed

section \<open>Appending to the log\<close>

text \<open>
  C12: \<^verbatim>\<open>append_to_log\<close> returns.  If the head segment, or a free one that replaces it, has room,
  the result is the offset of a new entry that reads back as the one given; otherwise it is 0 and
  the log holds the same entries.  No entry that was in the log changes.
\<close>

theorem append_to_log_appends:
  assumes ok: "lists_ok (plog st) (segs st) A" "layout_ok (plog st) (segs st) A P Q" and l: "locks_free st"
    and e: "e_length e = length (e_data e)" "0 < e_length e" "e_length e \<le> area_size - sizeof_entry"
  shows "\<exists>off st' A' P' Q'. append_to_log E st e = Some (off, st') \<and>
    lists_ok (plog st') (segs st') A' \<and> layout_ok (plog st') (segs st') A' P' Q' \<and>
    (if has_room (plog st) A (e_length e)
     then \<exists>s p. off = entry_off s p \<and> (s, p) \<notin> entries A P \<and> entries A' P' = insert (s, p) (entries A P) \<and>
       entry_id (mem (segs st') s) p = e_id e \<and> entry_version (mem (segs st') s) p = e_version e \<and>
       entry_to_delete (mem (segs st') s) p = e_to_delete e \<and> entry_data (mem (segs st') s) p = e_data e
     else off = 0 \<and> entries A' P' = entries A P) \<and>
    (\<forall>t q. (t, q) \<in> entries A P \<longrightarrow> entry_id (mem (segs st') t) q = entry_id (mem (segs st) t) q \<and>
       entry_version (mem (segs st') t) q = entry_version (mem (segs st) t) q \<and>
       entry_to_delete (mem (segs st') t) q = entry_to_delete (mem (segs st) t) q \<and>
       entry_data (mem (segs st') t) q = entry_data (mem (segs st) t) q)"
proof -
  obtain st' A' P' Q' off st1 P1 Q1 where st': "append_to_log E st e = Some (off, st')"
    and r: "log_step st A P Q st1 A' P1 Q1"
    and a: "if has_room (plog st) A (e_length e) then \<exists>s. l_head A' = [s] \<and> off = entry_off s (Q1 s) \<and> wrote st1 A' P1 Q1 s e st' P' Q'
      else off = 0 \<and> st' = st1 \<and> P' = P1 \<and> Q' = Q1"
    using append_ok [OF ok l e, of E] unfolding appends_def by blast
  have en: "entries A' P1 = entries A P" and k1: "keeps (segs st) A P Q (segs st1) A' P1 Q1"
    and lo1: "lists_ok (plog st1) (segs st1) A'" "layout_ok (plog st1) (segs st1) A' P1 Q1"
    using r by (simp_all add: log_step_def)
  have "keeps (segs st) A P Q (segs st') A' P' Q' \<and> lists_ok (plog st') (segs st') A' \<and> layout_ok (plog st') (segs st') A' P' Q' \<and>
    (if has_room (plog st) A (e_length e)
     then \<exists>s p. off = entry_off s p \<and> (s, p) \<notin> entries A P \<and> entries A' P' = insert (s, p) (entries A P) \<and>
       entry_id (mem (segs st') s) p = e_id e \<and> entry_version (mem (segs st') s) p = e_version e \<and>
       entry_to_delete (mem (segs st') s) p = e_to_delete e \<and> entry_data (mem (segs st') s) p = e_data e
     else off = 0 \<and> entries A' P' = entries A P)"
  proof (cases "has_room (plog st) A (e_length e)")
    case True
    then obtain s where w: "off = entry_off s (Q1 s)" "wrote st1 A' P1 Q1 s e st' P' Q'"
      using a by auto
    show ?thesis
      using True w(1) keeps_trans [OF k1 wrote_keeps [OF w(2)]] wroteD [OF w(2)] wrote_entries [OF w(2)]
        wrote_new(1) [OF w(2) lo1] en by auto
  next
    case False
    then show ?thesis using a en k1 lo1 by simp
  qed
  moreover from this keeps_fields [OF ok, of "segs st'" A' P' Q'] have
    "\<forall>t q. (t, q) \<in> entries A P \<longrightarrow> entry_id (mem (segs st') t) q = entry_id (mem (segs st) t) q \<and>
       entry_version (mem (segs st') t) q = entry_version (mem (segs st) t) q \<and>
       entry_to_delete (mem (segs st') t) q = entry_to_delete (mem (segs st) t) q \<and>
       entry_data (mem (segs st') t) q = entry_data (mem (segs st) t) q"
    by blast
  ultimately show ?thesis
    using st' by blast
qed

end
