(* ===== verification/Heap_Map.thy ===== *)
theory Heap_Map
  imports Heap_Index
begin

text \<open>
  The interface of the heap refines the operations of a finite map from ids to byte strings:
  allocating and updating bind an id, freeing removes it, and an operation that finds no room leaves
  the map as it was.
\<close>

section \<open>The states of a heap\<close>

abbreviation index :: "('h, 'd) env \<Rightarrow> ('h, 'd) pmem \<Rightarrow> u64 \<rightharpoonup> pmo" where
  "index E st \<equiv> gh_map E (hash_table st)"

text \<open>
  Every operation keeps \<open>heap_ok\<close>, which makes the heap a map and all accesses safe.  If
  \<open>b\<close> holds the index and the used spaces are in order as well; a failed update destroys this.
\<close>

definition state_ok ::
  "bool \<Rightarrow> ('h, 'd) env \<Rightarrow> ('h, 'd) pmem \<Rightarrow> lists \<Rightarrow> (pmo \<Rightarrow> nat list) \<Rightarrow> (pmo \<Rightarrow> nat) \<Rightarrow>
   (pmo \<times> nat) set \<Rightarrow> pmo set \<Rightarrow> bool" where
  "state_ok b E st A P Q D X \<longleftrightarrow> heap_ok E st A P Q \<and>
     (b \<longrightarrow> tidy (segs st) (index E st) A P D \<and> used_ok (segs st) (index E st) A P X)"

text \<open>
  The cleaner threads \<open>cs\<close> between two segments: each has a cleaner segment of its own and its
  position is the end of the entries there.
\<close>

definition cleaner_at :: "cleaner \<Rightarrow> lists \<Rightarrow> (pmo \<Rightarrow> nat) \<Rightarrow> bool" where
  "cleaner_at c A Q \<longleftrightarrow> cl_seg c \<in> set (l_cleaner A) \<and> cl_pos c = Q (cl_seg c)"

definition threads_at :: "cleaner list \<Rightarrow> lists \<Rightarrow> (pmo \<Rightarrow> nat) \<Rightarrow> bool" where
  "threads_at cs A Q \<longleftrightarrow> distinct (map cl_seg cs) \<and> (\<forall>c \<in> set cs. cleaner_at c A Q)"

definition okay :: "bool \<Rightarrow> ('h, 'd) env \<Rightarrow> cleaner list \<Rightarrow> ('h, 'd) pmem \<Rightarrow> bool" where
  "okay b E cs st \<longleftrightarrow> held st = {} \<and> (\<exists>A P Q. state_ok b E st A P Q {} {} \<and> threads_at cs A Q)"

text \<open>A heap that is safe to use, and one that is in order as well.\<close>

abbreviation heap :: "('h, 'd) env \<Rightarrow> cleaner list \<Rightarrow> ('h, 'd) pmem \<Rightarrow> bool" where
  "heap \<equiv> okay False"

abbreviation sound :: "('h, 'd) env \<Rightarrow> cleaner list \<Rightarrow> ('h, 'd) pmem \<Rightarrow> bool" where
  "sound \<equiv> okay True"

lemma threads_at_Nil [simp]: "threads_at [] A Q"
  by (simp add: threads_at_def)

lemma threads_at_frame: "threads_at cs A Q \<Longrightarrow> cleaner_frame A P Q A' P' Q' \<Longrightarrow> threads_at cs A' Q'"
  by (auto simp: threads_at_def cleaner_at_def cleaner_frame_def)

lemma state_okD: "state_ok b E st A P Q D X \<Longrightarrow> heap_ok E st A P Q"
  "state_ok b E st A P Q D X \<Longrightarrow> b \<Longrightarrow> tidy (segs st) (index E st) A P D"
  "state_ok b E st A P Q D X \<Longrightarrow> b \<Longrightarrow> used_ok (segs st) (index E st) A P X"
  by (simp_all add: state_ok_def)

lemma okayI: "state_ok b E st A P Q {} {} \<Longrightarrow> threads_at cs A Q \<Longrightarrow> held st = {} \<Longrightarrow> okay b E cs st"
  by (auto simp: okay_def)

lemma okayE:
  assumes "okay b E cs st"
  obtains A P Q where "state_ok b E st A P Q {} {}" "threads_at cs A Q" "held st = {}"
  using assms by (auto simp: okay_def)

text \<open>
  The heap after an operation of the interface, while threads may be half-way through a segment: \<open>D\<close>
  and \<open>X\<close> are the entries and the segments they have dealt with.  No operation of the interface changes the
  marks of the segments that are being cleaned.
\<close>

definition same_marks :: "('h, 'd) pmem \<Rightarrow> ('h, 'd) pmem \<Rightarrow> bool" where
  "same_marks st st' \<longleftrightarrow> ids (segs st') = ids (segs st) \<and> currently_cleaned st' = currently_cleaned st"

definition kept ::
  "bool \<Rightarrow> ('h, 'd) env \<Rightarrow> lists \<Rightarrow> (pmo \<Rightarrow> nat list) \<Rightarrow> (pmo \<Rightarrow> nat) \<Rightarrow> (pmo \<times> nat) set \<Rightarrow> pmo set \<Rightarrow>
   ('h, 'd) pmem \<Rightarrow> ('h, 'd) pmem \<Rightarrow> bool" where
  "kept b E A P Q D X st0 st \<longleftrightarrow> held st = {} \<and> same_marks st0 st \<and>
     (\<exists>A' P' Q'. state_ok b E st A' P' Q' D X \<and> cleaner_frame A P Q A' P' Q')"

lemma keptI:
  "state_ok b E st A' P' Q' D X \<Longrightarrow> cleaner_frame A P Q A' P' Q' \<Longrightarrow> held st = {} \<Longrightarrow> same_marks st0 st \<Longrightarrow>
   kept b E A P Q D X st0 st"
  by (auto simp: kept_def)

lemma kept_okay: "kept b E A P Q {} {} st0 st \<Longrightarrow> threads_at cs A Q \<Longrightarrow> okay b E cs st"
  by (auto simp: kept_def intro: okayI threads_at_frame)

lemma okay_heap: "okay b E cs st \<Longrightarrow> heap E cs st"
  by (auto simp: okay_def state_ok_def)

lemma heapI: "heap_ok E st A P Q \<Longrightarrow> held st = {} \<Longrightarrow> heap E [] st"
  by (auto simp: okay_def state_ok_def)

definition room :: "('h, 'd) pmem \<Rightarrow> nat \<Rightarrow> bool" where
  "room st n \<longleftrightarrow> free_segments (plog st) \<noteq> 0 \<or>
     head_segment (plog st) \<noteq> 0 \<and> head_position (plog st) + sizeof_entry + n \<le> area_size"

definition max_data :: nat where
  "max_data = area_size - sizeof_entry"

lemma has_room_iff: "lists_ok (plog st) sm A \<Longrightarrow> has_room (plog st) A n \<longleftrightarrow> room st n"
  using head_cases [of "plog st" sm A] seg_list_0_iff [OF lists_okD(2)]
  by (auto simp: has_room_def room_def split: if_splits)

lemma list_frame_marks: "list_frame st st' \<Longrightarrow> same_marks st st'"
  by (simp add: list_frame_def same_rest_def same_marks_def)

lemma list_frame_held: "list_frame st st' \<Longrightarrow> held st' = held st \<and> hash_table st' = hash_table st \<and> consistent st' = consistent st"
  by (simp add: list_frame_def same_rest_def)

lemma entry_at_cong: "segs st' = segs st \<Longrightarrow> entry_at st' = entry_at st"
  by (simp add: entry_at_def fun_eq_iff)

lemma contents_cong: "segs st' = segs st \<Longrightarrow> hash_table st' = hash_table st \<Longrightarrow> contents E st' = contents E st"
  using entry_at_cong [of st' st] by (intro ext) (simp add: contents_def cong: option.case_cong)

text \<open>The state of the heap does not depend on the counter of ids and on a lock on updates.\<close>

lemma state_ok_current_id:
  "state_ok b E st A P Q D X \<Longrightarrow> state_ok b E (upd_log (\<lambda>l. l\<lparr>current_id := c\<rparr>) st) A P Q D X"
  by (simp add: state_ok_def heap_ok_def upd_log_def lists_ok_def layout_ok_def locks_free_def)

lemma state_ok_held:
  "state_ok b E st A P Q D X \<Longrightarrow> H \<subseteq> {Update_move, Curr_cleaned} \<Longrightarrow> state_ok b E (st\<lparr>held := H\<rparr>) A P Q D X"
  by (auto simp: state_ok_def heap_ok_def locks_free_def)

lemma contents_None:
  assumes hok: "heap_ok E st A P Q"
  shows "contents E st k = None \<longleftrightarrow> \<not> hash_table_contains E st k"
proof (cases "gh_map E (hash_table st) k")
  case None
  then show ?thesis using gh_map_None [of E "hash_table st" k] by (simp add: contents_def hash_table_contains_def)
next
  case (Some off)
  then obtain g p where "entry_at st off = Some (g, p)"
    using entry_ofE [OF heap_okD(1,2) [OF hok] heap_okD(4) [OF hok Some]] by metis
  with Some gh_map_Some [OF Some] show ?thesis by (simp add: contents_def hash_table_contains_def)
qed

section \<open>Appending an entry to the heap\<close>

lemma step_heap_ok:
  assumes "heap_ok E st A P Q" and "log_step st A P Q st' A' P' Q'"
  shows "heap_ok E st' A' P' Q'" and "contents E st' = contents E st"
proof -
  note r = assms(2) [unfolded log_step_def]
  show ok': "heap_ok E st' A' P' Q'"
    by (rule keeps_heap_ok [OF assms(1)]) (use r list_frame_held heap_okD(3) [OF assms(1)] in \<open>auto simp: locks_free_def\<close>)
  show "contents E st' = contents E st"
    by (rule ext, rule keeps_contents [OF assms(1) ok']) (use r list_frame_held [of st st'] in auto)
qed

lemma wrote_heap_ok:
  assumes ok: "heap_ok E st A P Q" and w: "wrote st A P Q s e st' P' Q'"
  shows "heap_ok E st' A P' Q'" and "contents E st' = contents E st"
proof -
  note f = list_frame_held [OF wroteD(4) [OF w]]
  show ok': "heap_ok E st' A P' Q'"
    by (rule keeps_heap_ok [OF ok wroteD(2,3) [OF w] _ wrote_keeps [OF w]])
      (use f heap_okD(3) [OF ok] in \<open>simp_all add: locks_free_def\<close>)
  show "contents E st' = contents E st"
    by (rule ext, rule keeps_contents [OF ok ok' wrote_keeps [OF w]]) (use f in simp)
qed

text \<open>The index takes the new entry in.\<close>

lemma insert_ok:
  assumes E: "glib_ok E" and ok: "heap_ok E st A P Q" and w: "wrote st A P Q s e st' P' Q'" and e: "\<not> e_to_delete e"
    and off: "off = entry_off s (Q s)"
  shows "off \<noteq> 0" and "heap_ok E (add_to_hash_table E (e_id e) off st') A P' Q'"
    and "contents E (add_to_hash_table E (e_id e) off st') = (contents E st)(e_id e \<mapsto> e_data e)"
proof -
  let ?st = "add_to_hash_table E (e_id e) off st'"
  note ok' = wrote_heap_ok [OF ok w]
  have new: "(s, Q s) \<in> entries A P'"
    using wrote_entries [OF w] by simp
  obtain g where g: "mem (segs st') s = log_entries g" "off \<noteq> 0" "entry_at st' off = Some (g, Q s)"
    by (rule entriesE [OF heap_okD(1,2) [OF ok'(1)] new]) (use off in blast)
  show "off \<noteq> 0" by (rule g(2))
  have gh: "index E ?st = (index E st')(e_id e \<mapsto> off)"
    by (simp add: add_to_hash_table_def glib_okD(2) [OF E])
  have "entry_of (segs st') A P' (e_id e) off"
    unfolding entry_of_entries using new off wroteD(9,13) [OF w] e by blast
  with ok'(1) gh show "heap_ok E ?st A P' Q'"
    by (auto simp: heap_ok_def add_to_hash_table_def locks_free_def)
  have "entry_at ?st x = entry_at st' x" for x
    by (simp add: entry_at_def add_to_hash_table_def)
  then have "contents E ?st = (contents E st')(e_id e \<mapsto> e_data e)"
    using g wroteD(12) [OF w, unfolded g(1)] by (simp add: contents_def gh fun_eq_iff cong: option.case_cong)
  with ok'(2) show "contents E ?st = (contents E st)(e_id e \<mapsto> e_data e)"
    by simp
qed

lemma insert_state_ok:
  assumes E: "glib_ok E" and ok: "heap_ok E st A P Q" and w: "wrote st A P Q s e st' P' Q'"
    and e: "\<not> e_to_delete e" "b \<Longrightarrow> 0 < e_version e" and off: "off = entry_off s (Q s)" and D: "D \<subseteq> D'" "D' \<subseteq> entries A P"
    and t: "b \<Longrightarrow> tidy (segs st) (index E st) A P D" and u: "b \<Longrightarrow> used_ok (segs st) j A P X"
    and j: "\<And>k. k \<noteq> e_id e \<Longrightarrow> j k = index E st k"
      "\<And>t q. (t, q) \<in> entries A P \<Longrightarrow> t \<notin> X \<Longrightarrow> j (e_id e) \<noteq> Some (entry_off t q)"
    and moved: "\<And>t q. (t, q) \<in> D' - D \<Longrightarrow> entry_id (mem (segs st) t) q = e_id e"
    and old: "\<And>t q. b \<Longrightarrow> (t, q) \<in> entries A P - D' \<Longrightarrow> entry_id (mem (segs st) t) q = e_id e \<Longrightarrow>
      \<not> entry_to_delete (mem (segs st) t) q \<Longrightarrow> entry_version (mem (segs st) t) q < e_version e"
  shows "state_ok b E (add_to_hash_table E (e_id e) off st') A P' Q' D' X"
  unfolding state_ok_def
proof (intro conjI impI)
  let ?st = "add_to_hash_table E (e_id e) off st'"
  show "heap_ok E ?st A P' Q'"
    by (rule insert_ok(2) [OF E ok w e(1) off])
  assume b: b
  note lo = heap_okD(1,2) [OF ok]
  have gh: "index E ?st = (index E st)(e_id e \<mapsto> entry_off s (Q s))"
    using list_frame_held [OF wroteD(4) [OF w]] by (simp add: add_to_hash_table_def glib_okD(2) [OF E] off)
  have sg: "segs ?st = segs st'"
    by (simp add: add_to_hash_table_def)
  show "tidy (segs ?st) (index E ?st) A P' D'"
    unfolding gh sg by (rule tidy_wrote [OF w lo t [OF b] D e(2) [OF b] moved old [OF b]])
  have "j(e_id e \<mapsto> entry_off s (Q s)) = (index E st)(e_id e \<mapsto> entry_off s (Q s))"
    using j(1) by auto
  with used_wrote [OF w lo u [OF b] j(2)]
  show "used_ok (segs ?st) (index E ?st) A P' X"
    unfolding gh sg by simp
qed

text \<open>The entry of an object that has no newer one is appended and enters the index.\<close>

lemma append_entry:
  assumes E: "glib_ok E" and ok: "heap_ok E st A P Q"
    and e: "e_length e = length (e_data e)" "e_data e \<noteq> []" "length (e_data e) \<le> max_data" "\<not> e_to_delete e"
      "b \<Longrightarrow> 0 < e_version e" and D: "D \<subseteq> entries A P"
    and t: "b \<Longrightarrow> tidy (segs st) (index E st) A P D" and u: "b \<Longrightarrow> used_ok (segs st) ((index E st)(e_id e := None)) A P X"
    and old: "\<And>t q. b \<Longrightarrow> (t, q) \<in> entries A P - D \<Longrightarrow> entry_id (mem (segs st) t) q = e_id e \<Longrightarrow>
      \<not> entry_to_delete (mem (segs st) t) q \<Longrightarrow> entry_version (mem (segs st) t) q < e_version e"
  obtains off st' A' P' Q' where "append_to_log E st e = Some (off, st')" "off \<noteq> 0 \<longleftrightarrow> room st (e_length e)" "list_frame st st'"
    "off = 0 \<Longrightarrow> heap_ok E st' A' P' Q' \<and> contents E st' = contents E st \<and>
      (b \<longrightarrow> tidy (segs st') (index E st) A' P' D \<and> used_ok (segs st') ((index E st)(e_id e := None)) A' P' X)"
    "off \<noteq> 0 \<Longrightarrow> state_ok b E (add_to_hash_table E (e_id e) off st') A' P' Q' D X \<and>
      contents E (add_to_hash_table E (e_id e) off st') = (contents E st)(e_id e \<mapsto> e_data e)"
    "keeps (segs st) A P Q (segs st') A' P' Q'" "off \<noteq> 0 \<Longrightarrow> (s, p) \<in> entries A P \<Longrightarrow> entry_off s p \<noteq> off"
    "cleaner_frame A P Q A' P' Q'" "off = 0 \<Longrightarrow> same_used A st st'"
proof -
  note lo = heap_okD(1,2) [OF ok]
  have "0 < e_length e" "e_length e \<le> area_size - sizeof_entry"
    using e by (simp_all add: max_data_def)
  from append_ok [OF heap_okD(1-3) [OF ok] e(1) this, of E]
  obtain st' A' P' Q' off st1 P1 Q1 where st': "append_to_log E st e = Some (off, st')"
    and r: "log_step st A P Q st1 A' P1 Q1" "same_used A st st1" and cf: "cleaner_frame A P Q A' P1 Q1"
    and a: "if room st (e_length e) then \<exists>s. l_head A' = [s] \<and> off = entry_off s (Q1 s) \<and> wrote st1 A' P1 Q1 s e st' P' Q'
      else off = 0 \<and> st' = st1 \<and> P' = P1 \<and> Q' = Q1"
    unfolding appends_def has_room_iff [OF lo(1)] by blast
  note ok1 = step_heap_ok [OF ok r(1)]
  have f1: "list_frame st st1" and en: "entries A' P1 = entries A P" and k1: "keeps (segs st) A P Q (segs st1) A' P1 Q1"
    using r(1) by (simp_all add: log_step_def)
  have i: "index E st1 = index E st"
    using list_frame_held [OF f1] by simp
  have ag: "agree (segs st) (segs st1) (entries A P)"
    using keeps_agree [OF lo, of "segs st1" A' P1 Q1] r(1) by (simp add: log_step_def)
  note t1 = tidy_log_step [OF lo r(1) t] and u1 = used_log_step [OF lo r u]
  show ?thesis
  proof (cases "room st (e_length e)")
    case False
    then have *: "off = 0" "st' = st1" "P' = P1" "Q' = Q1"
      using a by simp_all
    show ?thesis
      using that [OF st', of A' P1 Q1] * False f1 ok1 t1 u1 k1 cf r(2) by simp
  next
    case True
    then obtain s where w: "off = entry_off s (Q1 s)" "wrote st1 A' P1 Q1 s e st' P' Q'" and hd: "l_head A' = [s]"
      using a by auto
    have "s \<notin> set (l_cleaner A') \<union> set (l_used A')"
      using hd lists_okD(6) [OF wroteD(2) [OF w(2)]] by (auto simp: all_segs_def)
    then have cf': "cleaner_frame A P Q A' P' Q'"
      using cf wroteD(5,6) [OF w(2)] by (auto simp: cleaner_frame_def)
    have "state_ok b E (add_to_hash_table E (e_id e) off st') A' P' Q' D X"
      by (rule insert_state_ok [where D = D and j = "(index E st)(e_id e := None)", OF E ok1(1) w(2) e(4,5) w(1)])
        (use t1 u1 i old agreeD [OF ag] en D in auto)
    moreover have "list_frame st st'"
      using list_frame_trans [OF f1 wroteD(4) [OF w(2)]] .
    ultimately show ?thesis
      using insert_ok(1,3) [OF E ok1(1) w(2) e(4) w(1)] ok1(2) True keeps_trans [OF k1 wrote_keeps [OF w(2)]]
        wrote_new(3) [OF w(2) heap_okD(1,2) [OF ok1(1)]]
      by (intro that [OF st', of A' P' Q']) (simp_all add: w(1) en cf')
  qed
qed

section \<open>Allocating\<close>

lemma add_simps [simp]: "consistent (add_to_hash_table E n off st) = consistent st"
  "held (add_to_hash_table E n off st) = held st" "segs (add_to_hash_table E n off st) = segs st"
  "plog (add_to_hash_table E n off st) = plog st"
  "same_marks st0 (add_to_hash_table E n off st) = same_marks st0 st"
  by (simp_all add: add_to_hash_table_def same_marks_def)

text \<open>A new object under the id \<open>n\<close>, as \<open>palloc\<close> and \<open>palloc_with_id\<close> append it.\<close>

lemma append_new:
  assumes E: "glib_ok E" and ok: "state_ok b E st A P Q D X" and new: "contents E st n = None" and D: "D \<subseteq> entries A P"
    and data: "data \<noteq> []" "length data \<le> max_data" and h: "held st = {}"
  obtains off st' where
    "append_to_log E st \<lparr>e_id = n, e_version = 1, e_length = length data, e_to_delete = False, e_data = data\<rparr> = Some (off, st')"
    "off \<noteq> 0 \<longleftrightarrow> room st (length data)" "consistent st' = consistent st"
    "off = 0 \<Longrightarrow> kept b E A P Q D X st st' \<and> contents E st' = contents E st"
    "off \<noteq> 0 \<Longrightarrow> kept b E A P Q D X st (add_to_hash_table E n off st') \<and>
      contents E (add_to_hash_table E n off st') = (contents E st)(n \<mapsto> data)"
proof -
  define e where "e = \<lparr>e_id = n, e_version = 1, e_length = length data, e_to_delete = False, e_data = data\<rparr>"
  then have e: "e_id e = n" "e_length e = length data" "e_data e = data" by simp_all
  note hok = state_okD(1) [OF ok]
  have none: "index E st n = None"
    using new contents_None [OF hok, of n] by (simp add: gh_map_None hash_table_contains_def)
  then have i: "(index E st)(e_id e := None) = index E st" by (auto simp: e)
  have no: "entry_to_delete (mem (segs st) t) q" if "b" "(t, q) \<in> entries A P" "(t, q) \<notin> D" "entry_id (mem (segs st) t) q = n" for t q
    using tidyE [OF state_okD(2) [OF ok that(1)] that(2,3)] none that(4) by (metis option.distinct(1))
  have entry: "e_length e = length (e_data e)" "e_data e \<noteq> []" "length (e_data e) \<le> max_data" "\<not> e_to_delete e" "0 < e_version e"
    using data by (simp_all add: e_def)
  have u: "used_ok (segs st) ((index E st)(e_id e := None)) A P X" if b
    using state_okD(3) [OF ok that] by (simp only: i)
  have old: "entry_version (mem (segs st) t) q < e_version e" if "b" "(t, q) \<in> entries A P - D" "entry_id (mem (segs st) t) q = e_id e"
    "\<not> entry_to_delete (mem (segs st) t) q" for t q
    using no that by (simp add: e)
  obtain off st' A' P' Q' where st': "append_to_log E st e = Some (off, st')" "off \<noteq> 0 \<longleftrightarrow> room st (e_length e)" "list_frame st st'"
    "off = 0 \<Longrightarrow> heap_ok E st' A' P' Q' \<and> contents E st' = contents E st \<and>
      (b \<longrightarrow> tidy (segs st') (index E st) A' P' D \<and> used_ok (segs st') ((index E st)(e_id e := None)) A' P' X)"
    "off \<noteq> 0 \<Longrightarrow> state_ok b E (add_to_hash_table E (e_id e) off st') A' P' Q' D X \<and>
      contents E (add_to_hash_table E (e_id e) off st') = (contents E st)(e_id e \<mapsto> e_data e)" "cleaner_frame A P Q A' P' Q'"
    by (rule append_entry [where b = b and e = e and s = 0 and p = 0, OF E hok entry D state_okD(2) [OF ok] u old]) (assumption | rule that)+
  note f = list_frame_held [OF st'(3)] and marks = list_frame_marks [OF st'(3)]
  have "kept b E A P Q D X st st'" if "off = 0"
    by (rule keptI [OF _ st'(6) _ marks]) (use st'(4) [OF that] f h in \<open>auto simp: state_ok_def i\<close>)
  moreover have "kept b E A P Q D X st (add_to_hash_table E n off st')" if "off \<noteq> 0"
    by (rule keptI [OF _ st'(6)]) (use st'(5) [OF that] f h marks in \<open>auto simp: e\<close>)
  ultimately show ?thesis
    by (intro that [OF st'(1) [unfolded e_def]]) (use st'(2,4,5) f in \<open>simp_all add: e\<close>)
qed

lemma palloc_run:
  assumes E: "glib_ok E" and sok: "state_ok b E st A P Q D X" and held: "held st = {}" and D: "D \<subseteq> entries A P"
    and c: "consistent st" and data: "data \<noteq> []" "length data \<le> max_data"
    and free: "j \<noteq> 0" "contents E st j = None"
  shows "\<exists>n st'. palloc E True st data = Some (n, st') \<and> kept b E A P Q D X st st' \<and> consistent st' \<and>
    (if room st (length data) then n \<noteq> 0 \<and> contents E st n = None \<and> contents E st' = (contents E st)(n \<mapsto> data)
     else n = 0 \<and> contents E st' = contents E st)"
proof -
  obtain n c' where n: "gen_id E st = Some (n, upd_log (\<lambda>l. l\<lparr>current_id := c'\<rparr>) st)" "n \<noteq> 0"
    "contents E st n = None"
    using gen_id_total [of j E st] free contents_None [OF state_okD(1) [OF sok]] by metis
  let ?st1 = "upd_log (\<lambda>l. l\<lparr>current_id := c'\<rparr>) st"
  have same: "consistent ?st1 = consistent st" "room ?st1 (length data) = room st (length data)"
    "contents E ?st1 = contents E st" "held ?st1 = {}"
    using contents_cong [of ?st1 st E] held by (simp_all add: upd_log_def room_def)
  have n1: "contents E ?st1 n = None"
    by (simp only: same n(3))
  have km: "kept b E A P Q D X ?st1 x = kept b E A P Q D X st x" for x
    by (simp add: kept_def same_marks_def upd_log_def)
  obtain off st' where st':
    "append_to_log E ?st1 \<lparr>e_id = n, e_version = 1, e_length = length data, e_to_delete = False, e_data = data\<rparr> = Some (off, st')"
    "off \<noteq> 0 \<longleftrightarrow> room ?st1 (length data)" "consistent st' = consistent ?st1"
    "off = 0 \<Longrightarrow> kept b E A P Q D X ?st1 st' \<and> contents E st' = contents E ?st1"
    "off \<noteq> 0 \<Longrightarrow> kept b E A P Q D X ?st1 (add_to_hash_table E n off st') \<and>
      contents E (add_to_hash_table E n off st') = (contents E ?st1)(n \<mapsto> data)"
    by (rule append_new [OF E state_ok_current_id [OF sok] n1 D data same(4)]) blast
  then show ?thesis
    using c data(1) n by (cases "off = 0") (simp_all add: palloc_def same km)
qed

lemma palloc_core:
  assumes "glib_ok E" and ok: "okay b E cs st" and "consistent st" and "data \<noteq> []" "length data \<le> max_data"
    and "j \<noteq> 0" "contents E st j = None"
  shows "\<exists>n st'. palloc E True st data = Some (n, st') \<and> okay b E cs st' \<and> consistent st' \<and>
    (if room st (length data) then n \<noteq> 0 \<and> contents E st n = None \<and> contents E st' = (contents E st)(n \<mapsto> data)
     else n = 0 \<and> contents E st' = contents E st)"
proof -
  from ok obtain A P Q where sok: "state_ok b E st A P Q {} {}" "held st = {}" and th: "threads_at cs A Q"
    by (rule okayE)
  show ?thesis
    using palloc_run [OF assms(1) sok empty_subsetI assms(3-)] kept_okay [OF _ th] by blast
qed

section \<open>Updating\<close>

text \<open>The log holds an unmarked entry of the object that the index does not point to.\<close>

definition shadowed :: "('h, 'd) env \<Rightarrow> ('h, 'd) pmem \<Rightarrow> u64 \<Rightarrow> bool" where
  "shadowed E st n \<longleftrightarrow> (\<exists>A P Q s p. heap_ok E st A P Q \<and> (s, p) \<in> entries A P \<and> entry_id (mem (segs st) s) p = n \<and>
     \<not> entry_to_delete (mem (segs st) s) p \<and> index E st n \<noteq> Some (entry_off s p))"

lemma shadowedI:
  "heap_ok E st A P Q \<Longrightarrow> (s, p) \<in> entries A P \<Longrightarrow> entry_id (mem (segs st) s) p = n \<Longrightarrow>
   \<not> entry_to_delete (mem (segs st) s) p \<Longrightarrow> index E st n \<noteq> Some (entry_off s p) \<Longrightarrow> shadowed E st n"
  unfolding shadowed_def by blast

lemma word_Suc_less: "x \<noteq> - 1 \<Longrightarrow> x < x + 1" for x :: u64
proof -
  assume "x \<noteq> - 1"
  then have "1 + x \<noteq> 0"
    by (metis add.commute eq_neg_iff_add_eq_0)
  from unatSuc [OF this] show ?thesis
    by (simp add: word_less_nat_alt add.commute)
qed

definition version_of :: "('h, 'd) env \<Rightarrow> ('h, 'd) pmem \<Rightarrow> u64 \<Rightarrow> u64 option" where
  "version_of E st k = (case index E st k of None \<Rightarrow> None
     | Some off \<Rightarrow> map_option (\<lambda>(g, p). entry_version (log_entries g) p) (entry_at st off))"

lemma contentsE:
  assumes ok: "heap_ok E st A P Q" and c: "contents E st n \<noteq> None"
  obtains s p g where "index E st n = Some (entry_off s p)" "(s, p) \<in> entries A P" "s \<noteq> 0" "segs st s = Some g"
    "get_from_hash_table E st n = entry_off s p" "entry_off s p \<noteq> 0" "seg_of (entry_off s p) = s"
    "entry_at st (entry_off s p) = Some (g, p)" "entry_id (log_entries g) p = n" "\<not> entry_to_delete (log_entries g) p"
    "version_of E st n = Some (entry_version (log_entries g) p)"
    "lay (log_entries g) 0 (P s) (Q s)" "p + sizeof_entry \<le> area_size"
proof -
  obtain off where off: "index E st n = Some off"
    using c contents_None [OF ok, of n] by (cases "index E st n") (simp_all add: gh_map_None hash_table_contains_def)
  obtain s p where e: "(s, p) \<in> entries A P" "off = entry_off s p" "entry_id (mem (segs st) s) p = n"
    "\<not> entry_to_delete (mem (segs st) s) p"
    using heap_okD(4) [OF ok off] by (auto simp: entry_of_entries)
  obtain g where "segs st s = Some g" "mem (segs st) s = log_entries g" "entry_off s p \<noteq> 0" "seg_of (entry_off s p) = s"
    "entry_at st (entry_off s p) = Some (g, p)" "lay (log_entries g) 0 (P s) (Q s)" "p + sizeof_entry \<le> area_size"
    "s \<in> set (data_segs A)"
    by (rule entriesE [OF heap_okD(1,2) [OF ok] e(1)]) blast
  moreover from this have "s \<noteq> 0"
    using lists_ok_dom [OF heap_okD(1) [OF ok]] data_segs_sub by blast
  ultimately show ?thesis
    by (intro that) (use off e gh_map_Some [OF off] in \<open>simp_all add: get_from_hash_table_def version_of_def\<close>)
qed

text \<open>Giving back the used space of an entry changes no entry.\<close>

lemma used_space_run:
  assumes ok: "heap_ok E st A P Q" and s: "segs st s = Some g" "s \<noteq> 0"
    and st': "st' = st\<lparr>segs := (segs st)(s \<mapsto> g\<lparr>used_space := u\<rparr>), durable := d\<rparr>"
  shows "heap_ok E st' A P Q" and "contents E st' = contents E st" and "\<And>t. mem (segs st') t = mem (segs st) t"
    and "\<And>t. used_of (segs st') t = (if t = s then u else used_of (segs st) t)"
proof -
  have same: "nexts (segs st') = nexts (segs st)" "ids (segs st') = ids (segs st)"
    using s by (auto simp: nexts_def ids_def st')
  show m: "mem (segs st') t = mem (segs st) t" for t
    using s by (simp add: mem_def st')
  have "log_step st A P Q st' A P Q"
    using heap_okD(1,2) [OF ok] lists_ok_cong [OF same] m same
    by (simp add: log_step_def layout_ok_def keeps_refl list_frame_def same_rest_def st')
  from step_heap_ok [OF ok this] show "heap_ok E st' A P Q" "contents E st' = contents E st" .
  show "used_of (segs st') t = (if t = s then u else used_of (segs st) t)" for t
    by (simp add: used_of_def st')
qed

text \<open>The segment of the object has given back the space of its entry.\<close>

definition unaccounted :: "('h, 'd) env \<Rightarrow> ('h, 'd) pmem \<Rightarrow> u64 \<Rightarrow> ('h, 'd) pmem \<Rightarrow> bool" where
  "unaccounted E st n st' \<longleftrightarrow> (\<exists>off g p. index E st n = Some off \<and> index E st' n = Some off \<and> entry_at st off = Some (g, p) \<and>
     used_of (segs st') (seg_of off) = used_space g - word_of_nat (entry_size (log_entries g) p))"

text \<open>The first step of an update: the space of the old entry is given back.\<close>

lemma unaccount_run:
  assumes sok: "state_ok b E st A P Q D X" and e: "index E st n = Some (entry_off s p)" "(s, p) \<in> entries A P" "s \<noteq> 0" "segs st s = Some g"
    "entry_id (log_entries g) p = n"
    and st2: "st2 = persist E (s + off_used) 8 (st\<lparr>held := {Update_move}, segs := (segs st)(s \<mapsto>
      g\<lparr>used_space := used_space g - word_of_nat (entry_length (log_entries g) p + sizeof_entry)\<rparr>)\<rparr>)"
  shows "heap_ok E st2 A P Q" and "contents E st2 = contents E st" and "mem (segs st2) t = mem (segs st) t"
    and "used_of (segs st2) t = (if t = s then used_space g - word_of_nat (entry_size (log_entries g) p) else used_of (segs st) t)"
    and "b \<Longrightarrow> tidy (segs st2) (index E st) A P D" and "b \<Longrightarrow> used_ok (segs st2) ((index E st)(n := None)) A P X"
    and "same_marks st st2" and "held st2 = {Update_move}" and "consistent st2 = consistent st" and "index E st2 = index E st"
    and "plog st2 = plog st"
proof -
  note hok = state_okD(1) [OF sok]
  let ?st1 = "st\<lparr>held := {Update_move}\<rparr>" and ?u = "used_space g - word_of_nat (entry_length (log_entries g) p + sizeof_entry)"
  have hok1: "heap_ok E ?st1 A P Q"
    using state_okD(1) [OF state_ok_held [OF sok]] by simp
  have st2': "st2 = ?st1\<lparr>segs := (segs ?st1)(s \<mapsto> g\<lparr>used_space := ?u\<rparr>), durable := durable st2\<rparr>"
    by (simp add: st2 persist_def)
  have g1: "segs ?st1 s = Some g" using e(4) by simp
  note r2 = used_space_run [OF hok1 g1 e(3) st2']
  have us: "used_of (segs st) s = used_space g"
    using e(4) by (simp add: used_of_def)
  show m: "mem (segs st2) t = mem (segs st) t" for t
    by (simp add: r2(3))
  show u: "used_of (segs st2) t = (if t = s then used_space g - word_of_nat (entry_size (log_entries g) p) else used_of (segs st) t)" for t
    by (simp add: r2(4) entry_size_def add.commute)
  show "heap_ok E st2 A P Q" "contents E st2 = contents E st"
    using r2(1,2) contents_cong [of ?st1 st E] by simp_all
  show "tidy (segs st2) (index E st) A P D" if b
    by (rule tidy_agree [OF state_okD(2) [OF sok that]]) (simp_all add: agree_def m)
  show "used_ok (segs st2) ((index E st)(n := None)) A P X" if b
    by (rule used_dec [OF heap_okD(1,2) [OF hok] state_okD(3) [OF sok that] e(2)])
      (use e(1,4,5) in \<open>simp_all add: m u us\<close>)
  show "same_marks st st2"
    using e(4) by (auto simp: same_marks_def st2 persist_def ids_def fun_eq_iff)
  show "held st2 = {Update_move}" "consistent st2 = consistent st" "index E st2 = index E st" "plog st2 = plog st"
    by (simp_all add: st2 persist_def)
qed

text \<open>The entry the index points to is the newest one of the object.\<close>

lemma newest_version:
  assumes ok: "lists_ok (plog st) (segs st) A" and lo: "layout_ok (plog st) (segs st) A P Q" and t: "tidy (segs st) i A P D"
    and i: "i n = Some (entry_off s p)" "(s, p) \<in> entries A P"
    and q: "(t, q) \<in> entries A P - D" "entry_id (mem (segs st) t) q = n" "\<not> entry_to_delete (mem (segs st) t) q"
  shows "entry_version (mem (segs st) t) q \<le> entry_version (mem (segs st) s) p"
proof -
  have q1: "(t, q) \<in> entries A P" "(t, q) \<notin> D" using q(1) by simp_all
  obtain t' q' where x: "(t', q') \<in> entries A P" "i n = Some (entry_off t' q')"
    "(t', q') = (t, q) \<or> entry_version (mem (segs st) t) q < entry_version (mem (segs st) t') q'"
    by (rule tidyE [OF t q1 q(3)]) (rule that, assumption, simp only: q(2), assumption)
  have "entry_off t' q' = entry_off s p"
    using x(2) i(1) by simp
  from entries_off_eq [OF ok lo x(1) i(2) this] x(3) show ?thesis
    by auto
qed

lemma update_run:
  assumes E: "glib_ok E" and sok: "state_ok b E st A P Q D X" and held: "held st = {}" and D: "D \<subseteq> entries A P"
    and c: "consistent st" and data: "data \<noteq> []" "length data \<le> max_data"
    and old: "contents E st n \<noteq> None" and v: "b \<Longrightarrow> version_of E st n \<noteq> Some (- 1)"
  shows "\<exists>failed st'. update_data E True st n data = Some (failed, st') \<and> kept (b \<and> \<not> failed) E A P Q D X st st' \<and> consistent st' \<and>
    (failed \<longleftrightarrow> \<not> room st (length data)) \<and> (if failed then unaccounted E st n st' else shadowed E st' n) \<and>
    contents E st' = (if failed then contents E st else (contents E st)(n \<mapsto> data))"
proof -
  note hok = state_okD(1) [OF sok]
  obtain s p g where e: "index E st n = Some (entry_off s p)" "(s, p) \<in> entries A P" "s \<noteq> 0" "segs st s = Some g"
    "get_from_hash_table E st n = entry_off s p" "entry_off s p \<noteq> 0" "seg_of (entry_off s p) = s"
    "entry_at st (entry_off s p) = Some (g, p)" "entry_id (log_entries g) p = n" "\<not> entry_to_delete (log_entries g) p"
    "version_of E st n = Some (entry_version (log_entries g) p)"
    by (rule contentsE [OF hok old]) blast
  let ?m = "log_entries g" and ?st1 = "st\<lparr>held := {Update_move}\<rparr>"
  let ?u = "used_space g - word_of_nat (entry_length ?m p + sizeof_entry)"
  define st2 where "st2 = persist E (s + off_used) 8 (?st1\<lparr>segs := (segs st)(s \<mapsto> g\<lparr>used_space := ?u\<rparr>)\<rparr>)"
  note U = unaccount_run [OF sok e(1-4,9) st2_def]
  have t2: "tidy (segs st2) (index E st2) A P D" and u2: "used_ok (segs st2) ((index E st2)(n := None)) A P X" if b
    using U(5,6) that by (simp_all add: U(10))
  have mg: "mem (segs st) s = ?m"
    using e(4) by simp
  define e' where "e' = \<lparr>e_id = n, e_version = entry_version ?m p + 1, e_length = length data, e_to_delete = False, e_data = data\<rparr>"
  then have e': "e_id e' = n" "e_length e' = length data" "e_data e' = data" "e_version e' = entry_version ?m p + 1" by simp_all
  have "entry_version ?m p < e_version e' \<and> 0 < e_version e'" if b
    using v [OF that] e(11) word_Suc_less [of "entry_version ?m p"] by (auto simp: e' word_gt_0)
  then have newer: "entry_version ?m p < e_version e'" "0 < e_version e'" if b
    using that by blast+
  have entry: "e_length e' = length (e_data e')" "e_data e' \<noteq> []" "length (e_data e') \<le> max_data" "\<not> e_to_delete e'"
    using data by (simp_all add: e'_def)
  have old': "entry_version (mem (segs st2) t) q < e_version e'" if b and q: "(t, q) \<in> entries A P - D"
    "entry_id (mem (segs st2) t) q = e_id e'" "\<not> entry_to_delete (mem (segs st2) t) q" for t q
  proof -
    have "entry_version (mem (segs st) t) q \<le> entry_version (mem (segs st) s) p"
      by (rule newest_version [OF heap_okD(1,2) [OF hok] state_okD(2) [OF sok \<open>b\<close>] e(1,2) q(1)])
        (use q(2,3) in \<open>simp_all add: U(3) e'(1)\<close>)
    then show ?thesis
      using newer(1) [OF \<open>b\<close>] by (simp add: U(3) mg)
  qed
  obtain off st' A' P' Q' where st': "append_to_log E st2 e' = Some (off, st')" "off \<noteq> 0 \<longleftrightarrow> room st2 (e_length e')" "list_frame st2 st'"
    "off = 0 \<Longrightarrow> heap_ok E st' A' P' Q' \<and> contents E st' = contents E st2 \<and>
      (b \<longrightarrow> tidy (segs st') (index E st2) A' P' D \<and> used_ok (segs st') ((index E st2)(e_id e' := None)) A' P' X)"
    "off \<noteq> 0 \<Longrightarrow> state_ok b E (add_to_hash_table E (e_id e') off st') A' P' Q' D X \<and>
      contents E (add_to_hash_table E (e_id e') off st') = (contents E st2)(e_id e' \<mapsto> e_data e')"
    "keeps (segs st2) A P Q (segs st') A' P' Q'" "off \<noteq> 0 \<Longrightarrow> (s, p) \<in> entries A P \<Longrightarrow> entry_off s p \<noteq> off"
    "cleaner_frame A P Q A' P' Q'" "off = 0 \<Longrightarrow> same_used A st2 st'"
    by (rule append_entry [where b = b and e = e' and s = s and p = p, OF E U(1) entry newer(2) D t2 u2 [folded e'(1)] old']) (assumption | rule that)+
  note f = list_frame_held [OF st'(3)]
  have marks: "same_marks st st'"
    using list_frame_marks [OF st'(3)] U(7) by (simp add: same_marks_def)
  have "entry_at ?st1 (entry_off s p) = Some (g, p)"
    using e(8) entry_at_cong [of ?st1 st] by simp
  then have run: "update_data E True st n data = Some (if off = 0 then (True, unlock Update_move st')
      else (False, unlock Update_move (add_to_hash_table E n off st')))"
    using c data(1) held e st'(1) [unfolded e'_def]
    by (simp add: update_data_def lock_def get_from_hash_table_def Let_def upd_seg_def get_seg_def st2_def)
  have un: "unlock Update_move x = x\<lparr>held := {}\<rparr>" if "held x = {Update_move}" for x :: "('a, 'b) pmem"
    using that by (simp add: unlock_def)
  have cont: "contents E (x\<lparr>held := {}\<rparr>) = contents E x" for x
    by (rule contents_cong) simp_all
  have ht: "kept b' E A P Q D X st (x\<lparr>held := {}\<rparr>)" if "state_ok b' E x A' P' Q' D X" "same_marks st x" for b' x
    by (rule keptI [OF state_ok_held [OF that(1)] st'(8)]) (use that(2) in \<open>simp_all add: same_marks_def\<close>)
  have "kept False E A P Q D X st (unlock Update_move st')" if "off = 0"
    using st'(4) [OF that] f U(8) ht [of False st', OF _ marks] by (simp add: un state_ok_def)
  moreover have "kept b E A P Q D X st (unlock Update_move (add_to_hash_table E n off st'))" if "off \<noteq> 0"
    using st'(5) [OF that] f U(8) marks ht [of b] by (simp add: un e')
  moreover have "room st2 k = room st k" for k
    by (simp add: room_def U(11))
  moreover have "shadowed E (unlock Update_move (add_to_hash_table E n off st')) n" if nz: "off \<noteq> 0"
  proof (rule shadowedI)
    let ?st = "unlock Update_move (add_to_hash_table E n off st')"
    note k = keeps_fields [OF heap_okD(1,2) [OF U(1)] st'(6) e(2)]
    show "heap_ok E ?st A' P' Q'"
      using state_okD(1) st'(5) [OF nz] state_ok_held [of b E "add_to_hash_table E n off st'" A' P' Q' D X "{}"] f U(8)
      by (simp add: un e')
    show "(s, p) \<in> entries A' P'" "entry_id (mem (segs ?st) s) p = n" "\<not> entry_to_delete (mem (segs ?st) s) p"
      using k e(9,10) by (simp_all add: U(3) mg unlock_def)
    show "index E ?st n \<noteq> Some (entry_off s p)"
      using st'(7) [OF nz e(2)] by (simp add: unlock_def add_to_hash_table_def glib_okD(2) [OF E])
  qed
  moreover have "unaccounted E st n (unlock Update_move st')" if z: "off = 0"
  proof -
    have "s \<in> set (all_segs A)"
      using e(2) data_segs_sub by (auto simp: entries_def)
    then have "used_of (segs st') s = ?u"
      using st'(9) [OF z] U(4) by (simp add: same_used_def entry_size_def add.commute)
    then show ?thesis
      using e(1,4,7,8) f by (auto simp: unaccounted_def unlock_def entry_size_def add.commute U(10))
  qed
  ultimately show ?thesis
    using run st'(2,4,5) f U(8,9,2) c by (cases "off = 0") (auto simp: un cont e')
qed

lemma update_core:
  assumes "glib_ok E" and ok: "okay b E cs st" and "consistent st" and "data \<noteq> []" "length data \<le> max_data"
    and "contents E st n \<noteq> None" and "b \<Longrightarrow> version_of E st n \<noteq> Some (- 1)"
  shows "\<exists>failed st'. update_data E True st n data = Some (failed, st') \<and> okay (b \<and> \<not> failed) E cs st' \<and> consistent st' \<and>
    (failed \<longleftrightarrow> \<not> room st (length data)) \<and> (if failed then unaccounted E st n st' else shadowed E st' n) \<and>
    contents E st' = (if failed then contents E st else (contents E st)(n \<mapsto> data))"
proof -
  from ok obtain A P Q where sok: "state_ok b E st A P Q {} {}" "held st = {}" and th: "threads_at cs A Q"
    by (rule okayE)
  show ?thesis
    using update_run [OF assms(1) sok empty_subsetI assms(3-)] kept_okay [OF _ th] by meson
qed

lemma palloc_with_id_run:
  assumes E: "glib_ok E" and sok: "state_ok b E st A P Q D X" and held: "held st = {}" and D: "D \<subseteq> entries A P"
    and c: "consistent st" and data: "data \<noteq> []" "length data \<le> max_data"
    and v: "b \<Longrightarrow> version_of E st n \<noteq> Some (- 1)"
  shows "\<exists>failed st'. palloc_with_id E True st n data = Some (failed, st') \<and>
    kept (b \<and> (failed \<longrightarrow> contents E st n = None)) E A P Q D X st st' \<and> consistent st' \<and> (failed \<longleftrightarrow> \<not> room st (length data)) \<and>
    contents E st' = (if failed then contents E st else (contents E st)(n \<mapsto> data))"
proof -
  note none = contents_None [OF state_okD(1) [OF sok], of n]
  show ?thesis
  proof (cases "contents E st n = None")
    case False
    have "palloc_with_id E True st n data = update_data E True st n data"
      using False none c data(1) by (simp add: palloc_with_id_def)
    moreover have "contents E st n = None \<longleftrightarrow> False"
      using False by simp
    ultimately show ?thesis
      using update_run [OF E sok held D c data False v] by (simp only: simp_thms) blast
  next
    case True
    show ?thesis
      by (rule append_new [OF E sok True D data held]) (use True none c data(1) in \<open>auto simp: palloc_with_id_def\<close>)
  qed
qed

lemma palloc_with_id_core:
  assumes "glib_ok E" and ok: "okay b E cs st" and "consistent st" and "data \<noteq> []" "length data \<le> max_data"
    and "b \<Longrightarrow> version_of E st n \<noteq> Some (- 1)"
  shows "\<exists>failed st'. palloc_with_id E True st n data = Some (failed, st') \<and>
    okay (b \<and> (failed \<longrightarrow> contents E st n = None)) E cs st' \<and> consistent st' \<and> (failed \<longleftrightarrow> \<not> room st (length data)) \<and>
    contents E st' = (if failed then contents E st else (contents E st)(n \<mapsto> data))"
proof -
  from ok obtain A P Q where sok: "state_ok b E st A P Q {} {}" "held st = {}" and th: "threads_at cs A Q"
    by (rule okayE)
  show ?thesis
    using palloc_with_id_run [OF assms(1) sok empty_subsetI assms(3-)] kept_okay [OF _ th] by meson
qed

section \<open>Freeing an object\<close>

lemma lay_cong_lengths:
  assumes "lay m p ps q" and "\<forall>x \<in> set ps. entry_length m' x = entry_length m x"
  shows "lay m' p ps q"
  using assms by (induction ps arbitrary: p) (auto simp: entry_size_def)

text \<open>The deletion mark of the entry at \<open>p\<close> is in no other field and no other entry.\<close>

definition set_mark :: "(nat \<Rightarrow> byte) \<Rightarrow> nat \<Rightarrow> nat \<Rightarrow> byte" where
  "set_mark m p = patch m (p + 24) [1]"

lemma set_mark_other:
  assumes "x + entry_size m x \<le> p \<or> p + sizeof_entry \<le> x"
  shows "entry_id (set_mark m p) x = entry_id m x" "entry_version (set_mark m p) x = entry_version m x"
    "entry_length (set_mark m p) x = entry_length m x" "entry_to_delete (set_mark m p) x = entry_to_delete m x"
    "entry_data (set_mark m p) x = entry_data m x"
proof -
  have out: "m a = set_mark m p a" if "x \<le> a" "a < x + entry_size m x" for a
    using assms that by (auto simp: set_mark_def mem_simps)
  have hdr: "m a = set_mark m p a" if "x \<le> a" "a < x + sizeof_entry" for a
    using out that entry_size_ge [of m x] by simp
  show "entry_id (set_mark m p) x = entry_id m x" "entry_version (set_mark m p) x = entry_version m x"
    "entry_length (set_mark m p) x = entry_length m x" "entry_to_delete (set_mark m p) x = entry_to_delete m x"
    by (rule entry_cong [symmetric], rule hdr, assumption, assumption)+
  show "entry_data (set_mark m p) x = entry_data m x"
    by (rule entry_data_cong [symmetric], rule out)
qed

lemma set_mark_self:
  "entry_id (set_mark m p) p = entry_id m p" "entry_version (set_mark m p) p = entry_version m p"
  "entry_length (set_mark m p) p = entry_length m p" "entry_to_delete (set_mark m p) p"
  by (simp_all add: set_mark_def entry_id_def entry_version_def entry_length_def entry_to_delete_def mem_simps)

lemma set_mark_lay:
  assumes l: "lay m 0 ps q" and p: "p \<in> set ps"
  shows "lay (set_mark m p) 0 ps q" and "ended m q \<Longrightarrow> ended (set_mark m p) q"
    and "\<And>x. x \<in> set ps \<Longrightarrow> x \<noteq> p \<Longrightarrow> x + entry_size m x \<le> p \<or> p + sizeof_entry \<le> x"
proof -
  show sep: "x + entry_size m x \<le> p \<or> p + sizeof_entry \<le> x" if "x \<in> set ps" "x \<noteq> p" for x
    using lay_disjoint [OF l that(1) p] lay_disjoint [OF l p that(1)] that(2) entry_size_ge [of m p]
    by (meson le_trans linorder_neqE_nat add_left_mono)
  have "entry_length (set_mark m p) x = entry_length m x" if "x \<in> set ps" for x
    using sep [OF that] set_mark_other(3) [of x m p] set_mark_self(3) [of m p] by (cases "x = p") auto
  with lay_cong_lengths [OF l] show "lay (set_mark m p) 0 ps q" by blast
  have "p + sizeof_entry \<le> q"
    using lay_mem [OF l p] entry_size_ge [of m p] by simp
  then have "entry_length (set_mark m p) q = entry_length m q"
    by (simp add: set_mark_other)
  then show "ended m q \<Longrightarrow> ended (set_mark m p) q"
    by (simp add: ended_def)
qed

lemma pfree_missing:
  assumes "heap E cs st" and "glib_ok E" and "contents E st n = None"
  shows "pfree E st n = Some st"
proof -
  from assms obtain A P Q where hok: "heap_ok E st A P Q" and held: "held st = {}" by (auto simp: okay_def state_ok_def)
  have "get_from_hash_table E st n = 0"
    using contents_None [OF hok, of n] glib_okD(4) [OF assms(2)] assms(3)
    by (simp add: hash_table_contains_def get_from_hash_table_def)
  then show ?thesis
    using held by (simp add: pfree_def lock_def unlock_def get_from_hash_table_def)
qed

text \<open>An entry is marked: what the state is afterwards.\<close>

lemma pfree_run:
  assumes E: "glib_ok E" and hok: "heap_ok E st A P Q" and held: "held st = {}" and d: "contents E st n \<noteq> None"
  obtains s p g st' where "pfree E st n = Some st'" "(s, p) \<in> entries A P" "index E st n = Some (entry_off s p)"
    "segs st s = Some g" "entry_id (log_entries g) p = n" "\<not> entry_to_delete (log_entries g) p"
    "version_of E st n = Some (entry_version (log_entries g) p)" "lay (log_entries g) 0 (P s) (Q s)" "s \<noteq> 0"
    "segs st' = (segs st)(s \<mapsto> g\<lparr>log_entries := set_mark (log_entries g) p, used_space :=
      used_space g - word_of_nat (entry_length (log_entries g) p + sizeof_entry)\<rparr>)"
    "plog st' = plog st" "held st' = {}" "index E st' = (index E st)(n := None)" "consistent st' = consistent st" "same_marks st st'"
proof -
  obtain s p g where e: "index E st n = Some (entry_off s p)" "(s, p) \<in> entries A P" "s \<noteq> 0" "segs st s = Some g"
    "get_from_hash_table E st n = entry_off s p" "entry_off s p \<noteq> 0" "seg_of (entry_off s p) = s"
    "entry_at st (entry_off s p) = Some (g, p)" "entry_id (log_entries g) p = n" "\<not> entry_to_delete (log_entries g) p"
    "version_of E st n = Some (entry_version (log_entries g) p)" "lay (log_entries g) 0 (P s) (Q s)" "p + sizeof_entry \<le> area_size"
    by (rule contentsE [OF hok d]) blast
  have "entry_at (st\<lparr>held := {Update_move}\<rparr>) (entry_off s p) = Some (g, p)"
    using e(8) entry_at_cong [of "st\<lparr>held := {Update_move}\<rparr>" st] by simp
  then have "\<exists>st'. pfree E st n = Some st' \<and> segs st' = (segs st)(s \<mapsto> g\<lparr>log_entries := set_mark (log_entries g) p,
      used_space := used_space g - word_of_nat (entry_length (log_entries g) p + sizeof_entry)\<rparr>) \<and>
      plog st' = plog st \<and> held st' = {} \<and> hash_table st' = gh_remove E (hash_table st) n \<and> consistent st' = consistent st \<and>
      same_marks st st'"
    using held e by (simp add: pfree_def access_simps write_area_def get_from_hash_table_def remove_from_hash_table_def
        Let_def set_mark_def same_marks_def fun_upd_idem [where f = "ids (segs st)"] ids_def)
  then show ?thesis
    using that [OF _ e(2,1,4,9-12,3)] by (auto simp: glib_okD(3) [OF E])
qed

text \<open>The fields of the entries after one of them has been marked.\<close>

lemma mark_fields:
  assumes ok: "lists_ok (plog st) (segs st) A" and lo: "layout_ok (plog st) (segs st) A P Q"
    and e: "(s, p) \<in> entries A P" "segs st s = Some g" "lay (log_entries g) 0 (P s) (Q s)"
    and st': "segs st' = (segs st)(s \<mapsto> g\<lparr>log_entries := set_mark (log_entries g) p, used_space := u\<rparr>)" "plog st' = plog st"
  shows "lists_ok (plog st') (segs st') A" and "layout_ok (plog st') (segs st') A P Q"
    and "(t, q) \<in> entries A P \<Longrightarrow> entry_id (mem (segs st') t) q = entry_id (mem (segs st) t) q \<and>
      entry_version (mem (segs st') t) q = entry_version (mem (segs st) t) q \<and>
      entry_size (mem (segs st') t) q = entry_size (mem (segs st) t) q \<and>
      entry_to_delete (mem (segs st') t) q = (entry_to_delete (mem (segs st) t) q \<or> (t, q) = (s, p)) \<and>
      ((t, q) \<noteq> (s, p) \<longrightarrow> entry_data (mem (segs st') t) q = entry_data (mem (segs st) t) q)"
proof -
  have s: "p \<in> set (P s)"
    using e(1) by (simp add: entries_def)
  have same: "nexts (segs st') = nexts (segs st)" "ids (segs st') = ids (segs st)"
    using e(2) by (auto simp: st' nexts_def ids_def)
  have mem': "mem (segs st') x = (if x = s then set_mark (log_entries g) p else mem (segs st) x)" for x
    by (simp add: mem_def st')
  note ml = set_mark_lay [OF e(3) s]
  show "lists_ok (plog st') (segs st') A" "layout_ok (plog st') (segs st') A P Q"
    using ok lo lists_ok_cong [OF same] e(2) ml(1,2) by (auto simp: layout_ok_def mem' st'(2))
  assume tq: "(t, q) \<in> entries A P"
  show "entry_id (mem (segs st') t) q = entry_id (mem (segs st) t) q \<and>
      entry_version (mem (segs st') t) q = entry_version (mem (segs st) t) q \<and>
      entry_size (mem (segs st') t) q = entry_size (mem (segs st) t) q \<and>
      entry_to_delete (mem (segs st') t) q = (entry_to_delete (mem (segs st) t) q \<or> (t, q) = (s, p)) \<and>
      ((t, q) \<noteq> (s, p) \<longrightarrow> entry_data (mem (segs st') t) q = entry_data (mem (segs st) t) q)"
  proof (cases "t = s")
    case True
    then have "q \<in> set (P s)" using tq by (simp add: entries_def)
    with ml(3) [of q] set_mark_other [of q "log_entries g" p] set_mark_self [of "log_entries g" p] True e(2) show ?thesis
      by (cases "q = p") (simp_all add: mem' entry_size_def)
  qed (simp add: mem')
qed

text \<open>An object is taken out of the index and its entry is marked: the others are as before.\<close>

lemma unindexed:
  assumes hok: "heap_ok E st A P Q" and lo': "lists_ok (plog st') (segs st') A" "layout_ok (plog st') (segs st') A P Q"
    and e: "entry_id (mem (segs st) s) p = n" and i: "index E st' = (index E st)(n := None)" "held st' = {}"
    and fld: "\<And>t q. (t, q) \<in> entries A P \<Longrightarrow> entry_id (mem (segs st') t) q = entry_id (mem (segs st) t) q \<and>
      entry_to_delete (mem (segs st') t) q = (entry_to_delete (mem (segs st) t) q \<or> (t, q) = (s, p)) \<and>
      ((t, q) \<noteq> (s, p) \<longrightarrow> entry_data (mem (segs st') t) q = entry_data (mem (segs st) t) q)"
  shows "heap_ok E st' A P Q" and "contents E st' = (contents E st)(n := None)"
proof -
  have keep: "entry_of (segs st') A P k x \<and> (\<exists>g1 g2 q. entry_at st x = Some (g1, q) \<and> entry_at st' x = Some (g2, q) \<and>
      entry_data (log_entries g2) q = entry_data (log_entries g1) q)"
    if k: "index E st k = Some x" "k \<noteq> n" for k x
  proof -
    obtain t q where q: "(t, q) \<in> entries A P" "x = entry_off t q" "entry_id (mem (segs st) t) q = k"
      "\<not> entry_to_delete (mem (segs st) t) q"
      using heap_okD(4) [OF hok k(1)] by (auto simp: entry_of_entries)
    have ne: "(t, q) \<noteq> (s, p)"
      using q(3) e k(2) by auto
    note f = fld [OF q(1)]
    have "entry_of (segs st') A P k x"
      unfolding entry_of_entries using q f ne by (intro exI [of _ t] exI [of _ q]) auto
    moreover obtain g1 where "entry_at st x = Some (g1, q)" "mem (segs st) t = log_entries g1"
      by (rule entriesE [OF heap_okD(1,2) [OF hok] q(1)]) (use q(2) in blast)
    moreover obtain g2 where "entry_at st' x = Some (g2, q)" "mem (segs st') t = log_entries g2"
      by (rule entriesE [OF lo' q(1)]) (use q(2) in blast)
    ultimately show ?thesis using f ne by auto
  qed
  show "heap_ok E st' A P Q"
    using lo' i keep by (auto simp: heap_ok_def locks_free_def)
  show "contents E st' = (contents E st)(n := None)"
  proof
    fix k
    show "contents E st' k = ((contents E st)(n := None)) k"
    proof (cases "k = n \<or> index E st k = None")
      case True
      then show ?thesis by (auto simp: contents_def i(1))
    next
      case False
      then obtain x where "index E st k = Some x" by auto
      with keep [OF this] False show ?thesis by (auto simp: contents_def i(1))
    qed
  qed
qed

lemma pfree_state:
  assumes E: "glib_ok E" and sok: "state_ok b E st A P Q D X" and held: "held st = {}" and d: "contents E st n \<noteq> None"
    and v: "b \<Longrightarrow> version_of E st n = Some 1"
  obtains s p st' where "pfree E st n = Some st'" "(s, p) \<in> entries A P" "index E st n = Some (entry_off s p)"
    "state_ok b E st' A P Q D X" "held st' = {}" "consistent st' = consistent st" "index E st' = (index E st)(n := None)"
    "same_marks st st'" "contents E st' = (contents E st)(n := None)"
    "\<And>t q. (t, q) \<in> entries A P \<Longrightarrow> entry_id (mem (segs st') t) q = entry_id (mem (segs st) t) q \<and>
      entry_to_delete (mem (segs st') t) q = (entry_to_delete (mem (segs st) t) q \<or> (t, q) = (s, p))"
proof -
  note hok = state_okD(1) [OF sok]
  note lo = heap_okD(1,2) [OF hok]
  obtain s p g st' where e: "pfree E st n = Some st'" "(s, p) \<in> entries A P" "index E st n = Some (entry_off s p)"
    "segs st s = Some g" "entry_id (log_entries g) p = n" "\<not> entry_to_delete (log_entries g) p"
    "version_of E st n = Some (entry_version (log_entries g) p)" "lay (log_entries g) 0 (P s) (Q s)" "s \<noteq> 0"
    and st': "segs st' = (segs st)(s \<mapsto> g\<lparr>log_entries := set_mark (log_entries g) p, used_space :=
      used_space g - word_of_nat (entry_length (log_entries g) p + sizeof_entry)\<rparr>)"
    "plog st' = plog st" "held st' = {}" "index E st' = (index E st)(n := None)" "consistent st' = consistent st" "same_marks st st'"
    by (rule pfree_run [OF E hok held d]) blast
  note lo' = mark_fields(1,2) [OF lo e(2,4,8) st'(1,2)] and fld = mark_fields(3) [OF lo e(2,4,8) st'(1,2)]
  have id: "entry_id (mem (segs st) s) p = n" using e(4,5) by simp
  have un: "heap_ok E st' A P Q" "contents E st' = (contents E st)(n := None)"
    by (rule unindexed [OF hok lo' id st'(4,3)], use fld in blast)+
  have "tidy (segs st') ((index E st)(n := None)) A P D" if b
  proof (rule tidy_mark [OF state_okD(2) [OF sok that]])
    have v1: "entry_version (mem (segs st) s) p = 1"
      using v [OF that] e(4,7) by simp
    show "(t, q) = (s, p)" if "(t, q) \<in> entries A P - D" "entry_id (mem (segs st) t) q = n" "\<not> entry_to_delete (mem (segs st) t) q" for t q
      using tidy_lone [OF state_okD(2) [OF sok \<open>b\<close>] lo e(2,3) v1] that by blast
  qed (use fld e(4,5) in auto)
  moreover have "used_ok (segs st') ((index E st)(n := None)) A P X" if b
    by (rule used_dec [OF lo state_okD(3) [OF sok that] e(2) _ e(3)])
      (use fld e(4,5) in \<open>auto simp: st'(1) used_of_def entry_size_def add.commute\<close>)
  ultimately have "state_ok b E st' A P Q D X"
    using un(1) by (simp add: state_ok_def st'(4))
  then show ?thesis
    using un(2) fld by (intro that [OF e(1-3) _ st'(3,5,4,6)]) simp_all
qed

lemma pfree_core:
  assumes E: "glib_ok E" and ok: "okay b E cs st" and d: "contents E st n \<noteq> None" and v: "b \<Longrightarrow> version_of E st n = Some 1"
  shows "\<exists>st'. pfree E st n = Some st' \<and> okay b E cs st' \<and> consistent st' = consistent st \<and>
    contents E st' = (contents E st)(n := None)"
proof -
  from ok obtain A P Q where sok: "state_ok b E st A P Q {} {}" "held st = {}" and th: "threads_at cs A Q" by (rule okayE)
  show ?thesis
    by (rule pfree_state [OF E sok d v]) (auto intro: okayI [OF _ th])
qed

text \<open>Freeing marks the entry the index points to, and no other.\<close>

lemma pfree_shadowed:
  assumes E: "glib_ok E" and sh: "shadowed E st n" and held: "held st = {}" and d: "contents E st n \<noteq> None"
  obtains st' where "pfree E st n = Some st'" "shadowed E st' n"
proof -
  obtain A P Q t q where ok: "heap_ok E st A P Q" and t: "(t, q) \<in> entries A P" "entry_id (mem (segs st) t) q = n"
    "\<not> entry_to_delete (mem (segs st) t) q" "index E st n \<noteq> Some (entry_off t q)"
    using sh by (auto simp: shadowed_def)
  have sok: "state_ok False E st A P Q {} {}"
    using ok by (simp add: state_ok_def)
  obtain s p st' where st': "pfree E st n = Some st'" "index E st n = Some (entry_off s p)" "state_ok False E st' A P Q {} {}"
    "index E st' = (index E st)(n := None)"
    and f: "\<And>t q. (t, q) \<in> entries A P \<Longrightarrow> entry_id (mem (segs st') t) q = entry_id (mem (segs st) t) q \<and>
      entry_to_delete (mem (segs st') t) q = (entry_to_delete (mem (segs st) t) q \<or> (t, q) = (s, p))"
    by (rule pfree_state [OF E sok held d]) simp_all
  have "shadowed E st' n"
    by (rule shadowedI [of E st' A P Q t q]) (use t st' f [OF t(1)] in \<open>auto simp: state_ok_def\<close>)
  with st'(1) show ?thesis by (rule that)
qed

section \<open>A fresh heap\<close>

lemma fresh_heap_ok:
  assumes f: "fresh_segs K sm (segs st)" and l: "plog st = fresh_hdr K l" and K: "3 \<le> K" "Suc K < 2 ^ 64"
    and h: "held st = {}" and i: "gh_map E (hash_table st) = Map.empty"
  shows "heap_ok E st (fresh_lists K) (\<lambda>_. []) (\<lambda>_. 0)"
proof -
  have a: "\<exists>j. s = seg_off j" if "s \<in> set (all_segs (fresh_lists K))" for s
    using that fresh_all_segs [OF K(1)] by auto
  have "layout_ok (plog st) (segs st) (fresh_lists K) (\<lambda>_. []) (\<lambda>_. 0)"
    unfolding layout_ok_def using a by (simp add: l fresh_hdr_def) (simp add: fresh_lists_def)
  then show ?thesis
    using fresh_lists_ok [OF f K, of l] h i by (simp add: heap_ok_def locks_free_def l)
qed

lemma fresh_sound:
  assumes f: "fresh_segs K sm (segs st)" and l: "plog st = fresh_hdr K l" and K: "3 \<le> K" "Suc K < 2 ^ 64"
    and h: "held st = {}" and i: "gh_map E (hash_table st) = Map.empty"
  shows "sound E [] st"
proof -
  have "used_of (segs st) (seg_off j) = 0" if "j \<le> K" for j
    using f that by (fastforce simp: used_of_def fresh_segs_def)
  then have "used_ok (segs st) Map.empty (fresh_lists K) (\<lambda>_. []) {}"
    by (auto simp: used_ok_def live_bytes_def live_def data_segs_def avail_def fresh_lists_def)
  then show ?thesis
    using fresh_heap_ok [OF assms] h i
    by (auto simp: okay_def state_ok_def tidy_def entries_def intro!: exI [of _ "fresh_lists K"] exI [of _ "\<lambda>_. []"] exI [of _ "\<lambda>_. 0"])
qed

section \<open>The operations of the interface\<close>

text \<open>
  C5: \<^verbatim>\<open>palloc\<close> returns; if the log has room for the data, the id it returns is not 0 and was
  unknown, and the object is bound to the data; otherwise it returns 0 and all objects are as before.
  The heap stays safe, and in order if it was.
\<close>

theorem palloc_binds:
  assumes "glib_ok E" and "okay b E cs st" and "consistent st" and "data \<noteq> []" and "length data \<le> max_data"
    and "j \<noteq> 0" and "contents E st j = None"
  shows "\<exists>n st'. palloc E True st data = Some (n, st') \<and> okay b E cs st' \<and> consistent st' \<and>
    (if room st (length data) then n \<noteq> 0 \<and> contents E st n = None \<and> contents E st' = (contents E st)(n \<mapsto> data)
     else n = 0 \<and> contents E st' = contents E st)"
  by (rule palloc_core [OF assms])

text \<open>
  C6: \<^verbatim>\<open>palloc_with_id\<close> binds the id to the data, whether it is known or not, exactly if the log
  has room; otherwise it fails and no object changes.  The heap stays in order but for a failed
  update of a known id.
\<close>

theorem palloc_with_id_binds:
  assumes "glib_ok E" and "okay b E cs st" and "consistent st" and "data \<noteq> []" and "length data \<le> max_data"
    and "b \<Longrightarrow> version_of E st n \<noteq> Some (- 1)"
  shows "\<exists>failed st'. palloc_with_id E True st n data = Some (failed, st') \<and>
    okay (b \<and> (failed \<longrightarrow> contents E st n = None)) E cs st' \<and> consistent st' \<and> (failed \<longleftrightarrow> \<not> room st (length data)) \<and>
    contents E st' = (if failed then contents E st else (contents E st)(n \<mapsto> data))"
  by (rule palloc_with_id_core [OF assms])

text \<open>
  C7: \<^verbatim>\<open>update_data\<close> of a known id rebinds it exactly if the log has room, and otherwise changes
  no object.  After an update the old entry is still in the log without a mark (\<open>shadowed\<close>).
\<close>

theorem update_rebinds:
  assumes "glib_ok E" and "okay b E cs st" and "consistent st" and "data \<noteq> []" and "length data \<le> max_data"
    and "contents E st n \<noteq> None" and "b \<Longrightarrow> version_of E st n \<noteq> Some (- 1)"
  shows "\<exists>failed st'. update_data E True st n data = Some (failed, st') \<and> okay (b \<and> \<not> failed) E cs st' \<and> consistent st' \<and>
    (failed \<longleftrightarrow> \<not> room st (length data)) \<and> (\<not> failed \<longrightarrow> shadowed E st' n) \<and>
    contents E st' = (if failed then contents E st else (contents E st)(n \<mapsto> data))"
  using update_core [OF assms] by (auto split: if_splits)

text \<open>
  C21: An update that finds no room has already given back the space of the object's entry: the object
  is still there, and the used space of its segment no longer counts it
  (\<^verbatim>\<open>log_pmem.c\<close>, line 301).
\<close>

theorem failed_update_unaccounts:
  assumes "glib_ok E" and "heap E cs st" and "consistent st" and "data \<noteq> []" and "length data \<le> max_data"
    and "contents E st n \<noteq> None" and "\<not> room st (length data)"
  shows "\<exists>st' off g p. update_data E True st n data = Some (True, st') \<and> contents E st' = contents E st \<and>
    index E st n = Some off \<and> index E st' n = Some off \<and> entry_at st off = Some (g, p) \<and>
    used_of (segs st') (seg_of off) = used_space g - word_of_nat (entry_size (log_entries g) p)"
proof -
  from update_core [OF assms(1-6)] assms(7) obtain st' where "update_data E True st n data = Some (True, st')"
    "contents E st' = contents E st" "unaccounted E st n st'" by auto
  then show ?thesis unfolding unaccounted_def by blast
qed

text \<open>
  C8: \<^verbatim>\<open>pfree\<close> of a known id removes the object and no other.  The heap stays in order if the
  object has never been updated.
\<close>

theorem pfree_removes:
  assumes "glib_ok E" and "okay b E cs st" and "contents E st n \<noteq> None" and "b \<Longrightarrow> version_of E st n = Some 1"
  shows "\<exists>st'. pfree E st n = Some st' \<and> okay b E cs st' \<and> consistent st' = consistent st \<and>
    contents E st' = (contents E st)(n := None)"
  by (rule pfree_core [OF assms])

text \<open>
  C33: \<^verbatim>\<open>get_address\<close> of a known id is the address of its data in the segment that holds it,
  which is a segment of the log, and NULL for any other id.
\<close>

theorem get_address_finds:
  assumes E: "glib_ok E" and ok: "heap E cs st"
  shows "case contents E st n of None \<Rightarrow> get_address E st n = 0
    | Some d \<Rightarrow> \<exists>s g p. segs st s = Some g \<and> get_address E st n = s + sizeof_segment + p + 25 \<and>
        p + sizeof_entry \<le> area_size \<and> rd_bytes (log_entries g) (p + 25) (length d) = d"
proof -
  from ok obtain A P Q where hok: "heap_ok E st A P Q" by (auto simp: okay_def state_ok_def)
  show ?thesis
  proof (cases "contents E st n")
    case None
    then show ?thesis
      using contents_None [OF hok, of n] glib_okD(4) [OF E]
      by (simp add: get_address_def get_from_hash_table_def hash_table_contains_def)
  next
    case (Some d)
    then have "contents E st n \<noteq> None" by simp
    then obtain s p g where e: "index E st n = Some (entry_off s p)" "segs st s = Some g" "get_from_hash_table E st n = entry_off s p"
      "entry_off s p \<noteq> 0" "entry_at st (entry_off s p) = Some (g, p)" "p + sizeof_entry \<le> area_size"
      by (rule contentsE [OF hok]) blast
    have "d = entry_data (log_entries g) p"
      using Some e(1,5) by (simp add: contents_def)
    then have "rd_bytes (log_entries g) (p + 25) (length d) = d"
      by (simp add: entry_data_def)
    moreover have "get_address E st n = s + sizeof_segment + p + 25"
      using e(3,4) by (simp add: get_address_def entry_off_def)
    ultimately show ?thesis
      using Some e(2,6) by simp blast
  qed
qed

text \<open>The \<open>len\<close> bytes from \<open>a\<close> are in the area for entries of a segment of the log.\<close>

definition inside :: "('h, 'd) pmem \<Rightarrow> pmo \<Rightarrow> nat \<Rightarrow> bool" where
  "inside st a len \<longleftrightarrow> (\<exists>j. segs st (seg_off j) \<noteq> None \<and>
     seg_off j + sizeof_segment + 25 \<le> a \<and> a + len \<le> seg_off (Suc j))"

lemma address_entry:
  assumes ok: "heap_ok E st A P Q" and d: "contents E st n = Some d"
  obtains s p where "get_address E st n = s + sizeof_segment + p + 25" "(s, p) \<in> entries A P"
    "entry_id (mem (segs st) s) p = n" "length d = entry_length (mem (segs st) s) p"
proof -
  obtain off where off: "index E st n = Some off"
    using d by (auto simp: contents_def split: option.splits)
  obtain s j g p where e: "s \<in> set (data_segs A)" "p \<in> set (P s)" "segs st s = Some g" "off = entry_off s p" "off \<noteq> 0"
    "entry_at st off = Some (g, p)" "entry_id (log_entries g) p = n"
    by (rule entry_ofE [OF heap_okD(1,2) [OF ok] heap_okD(4) [OF ok off]]) blast
  have "d = entry_data (log_entries g) p"
    using d contents_entry [OF off e(6)] by simp
  then have "length d = entry_length (log_entries g) p"
    by (simp add: entry_data_def)
  moreover have "get_from_hash_table E st n = off"
    using off by (auto simp: get_from_hash_table_def gh_map_def split: if_splits)
  then have "get_address E st n = s + sizeof_segment + p + 25"
    using e(4,5) by (simp add: get_address_def entry_off_def)
  ultimately show ?thesis
    using e(1,2,3,7) by (intro that [of s p]) (simp_all add: entries_def mem_def)
qed

text \<open>
  C16: Every object lies in a segment of the log, inside the area for entries, and two objects never share a
  byte: the addresses the clients get point to memory of their own.
\<close>

theorem objects_do_not_overlap:
  assumes ok: "heap E cs st" and d: "contents E st n = Some d" "contents E st n' = Some d'" and ne: "n \<noteq> n'"
  shows "inside st (get_address E st n) (length d) \<and> inside st (get_address E st n') (length d') \<and>
    (get_address E st n + length d \<le> get_address E st n' \<or> get_address E st n' + length d' \<le> get_address E st n)"
proof -
  from ok obtain A P Q where hok: "heap_ok E st A P Q" by (auto simp: okay_def state_ok_def)
  obtain s p where e: "get_address E st n = s + sizeof_segment + p + 25" "(s, p) \<in> entries A P"
    "entry_id (mem (segs st) s) p = n" "length d = entry_length (mem (segs st) s) p"
    by (rule address_entry [OF hok d(1)])
  obtain s' p' where e': "get_address E st n' = s' + sizeof_segment + p' + 25" "(s', p') \<in> entries A P"
    "entry_id (mem (segs st) s') p' = n'" "length d' = entry_length (mem (segs st) s') p'"
    by (rule address_entry [OF hok d(2)])
  have pl: "\<exists>j. s = seg_off j \<and> segs st s \<noteq> None \<and> lay (mem (segs st) s) 0 (P s) (Q s) \<and> p \<in> set (P s) \<and>
      p + entry_size (mem (segs st) s) p \<le> area_size" if "(s, p) \<in> entries A P" for s p
    by (rule entriesE [OF heap_okD(1,2) [OF hok] that])
      (use heap_okD(2) [OF hok] in \<open>auto simp: layout_ok_def\<close>)
  obtain j where j: "s = seg_off j" "segs st s \<noteq> None" "lay (mem (segs st) s) 0 (P s) (Q s)" "p \<in> set (P s)"
    "p + entry_size (mem (segs st) s) p \<le> area_size"
    using pl [OF e(2)] by blast
  obtain j' where j': "s' = seg_off j'" "segs st s' \<noteq> None" "p' \<in> set (P s')" "p' + entry_size (mem (segs st) s') p' \<le> area_size"
    using pl [OF e'(2)] by blast
  have "inside st (get_address E st n) (length d)" "inside st (get_address E st n') (length d')"
    unfolding inside_def using e(1,4) e'(1,4) j j'
    by (intro exI [of _ j], simp add: entry_size_def seg_off_def, intro exI [of _ j'], simp add: entry_size_def seg_off_def)
  moreover have "p + entry_size (mem (segs st) s) p \<le> p' \<or> p' + entry_size (mem (segs st) s) p' \<le> p" if "s = s'"
  proof -
    have "p \<noteq> p'" using that e(3) e'(3) ne by auto
    then show ?thesis
      using lay_disjoint [OF j(3)] j(4) j'(3) that by (auto simp: nat_neq_iff)
  qed
  moreover have "s + SEGMENT_SIZE \<le> s' \<or> s' + SEGMENT_SIZE \<le> s" if "s \<noteq> s'"
    using that j(1) j'(1) by (auto simp: seg_off_def nat_neq_iff)
  ultimately show ?thesis
    using e(1,4) e'(1,4) j(5) j'(4) by (cases "s = s'") (auto simp: entry_size_def)
qed

lemma append_oversized:
  assumes ok: "heap_ok E st A P Q" and h: "l_head A = [h]" and f: "l_free A \<noteq> []" and e: "e_length e = length (e_data e)" "max_data < e_length e"
  shows "append_to_log E st e = None"
proof -
  note lo = heap_okD(1,2) [OF ok]
  have hd: "head_segment (plog st) \<noteq> 0"
    using head_cases [OF lo(1)] h by (auto split: if_splits)
  obtain st1 where st1: "mark_unused_space E st = Some st1" "log_step st A P Q st1 A P Q"
    using mark_step [OF lo h] by blast
  then have l1: "lists_ok (plog st1) (segs st1) A" "Used_segs \<notin> held st1" "Free_segs \<notin> held st1"
    using heap_okD(3) [OF ok] list_frame_held [of st st1] by (auto simp: log_step_def locks_free_def)
  obtain st2 where "append_head_to_used_segments_and_get_new_head_segment E st1 = Some (False, st2)"
    using new_head_refines [OF l1, of E] f by auto
  moreover have "write_head E e st2 = None"
    using e length_entry_bytes [OF e(1)] by (simp add: write_head_def write_area_def max_data_def Let_def)
  moreover have "area_size - head_position (plog st) < sizeof_entry + e_length e"
    using e(2) unfolding max_data_def area_size_def sizeof_entry_def by linarith
  ultimately show ?thesis
    using hd st1(1) by (simp add: append_to_log_def Let_def)
qed

text \<open>
  C22: No operation checks that an object fits into a segment.  An allocation that is too large takes a new
  head segment and then writes beyond its end (\<^verbatim>\<open>log.c\<close>, line 108).
\<close>

theorem oversized_palloc_writes_outside:
  assumes ok: "heap E cs st" and c: "consistent st" and big: "max_data < length data"
    and h: "head_segment (plog st) \<noteq> 0" and f: "free_segments (plog st) \<noteq> 0"
  shows "palloc E True st data = None"
proof (cases "gen_id E st")
  case None
  then show ?thesis
    using c big by (auto simp: palloc_def max_data_def)
next
  case (Some r)
  from ok obtain A P Q where sok: "state_ok False E st A P Q {} {}" by (rule okayE)
  obtain c' where c': "gen_id E st = Some (fst r, upd_log (\<lambda>l. l\<lparr>current_id := c'\<rparr>) st)"
    using Some by (auto simp: gen_id_def bind_eq_Some_conv split: prod.splits)
  note lo = heap_okD(1) [OF state_okD(1) [OF sok]]
  have A: "l_head A = [head_segment (plog st)]" "l_free A \<noteq> []"
    using lists_ok_head_single [OF lo] head_cases [OF lo] h f seg_list_0_iff [OF lists_okD(2) [OF lo]] by (auto split: if_splits)
  have "append_to_log E (upd_log (\<lambda>l. l\<lparr>current_id := c'\<rparr>) st)
    \<lparr>e_id = fst r, e_version = 1, e_length = length data, e_to_delete = False, e_data = data\<rparr> = None"
    by (rule append_oversized [OF state_okD(1) [OF state_ok_current_id [OF sok]] A]) (use big in simp_all)
  then show ?thesis
    using c c' big by (auto simp: palloc_def max_data_def Let_def)
qed

end
