(* ===== verification/Demo.thy ===== *)
theory Demo
  imports Heap_Map "HOL-Library.AList"
begin

text \<open>
  A concrete instance: an association list in place of GLib's hash table, and a fresh heap of five
  segments.  It shows that the hypotheses of the theorems can be met, and it runs.
\<close>

section \<open>An association list as hash table\<close>

type_synonym index = "(u64 \<times> pmo) list"

definition alist_env :: "(index, unit) env" where
  "alist_env = \<lparr>gh_new = [], gh_insert = (\<lambda>h k v. AList.update k v h),
     gh_lookup = (\<lambda>h k. case map_of h k of None \<Rightarrow> 0 | Some v \<Rightarrow> v), gh_remove = (\<lambda>h k. AList.delete k h),
     gh_contains = (\<lambda>h k. map_of h k \<noteq> None), gh_entries = AList.clearjunk,
     pm_persist = (\<lambda>off n l sm d. d)\<rparr>"

lemma alist_map [simp]: "gh_map alist_env h = map_of h"
  by (auto simp: gh_map_def alist_env_def fun_eq_iff split: option.splits)

lemma alist_env_ok [simp]: "glib_ok alist_env"
  unfolding glib_ok_def alist_map
  by (auto simp: alist_env_def update_conv' delete_conv' distinct_clearjunk map_of_clearjunk)

lemma alist_simps [simp]:
  "gh_new alist_env = []" "gh_insert alist_env h k v = AList.update k v h"
  "gh_remove alist_env h k = AList.delete k h" "gh_contains alist_env h k = (map_of h k \<noteq> None)"
  "gh_lookup alist_env h k = (case map_of h k of None \<Rightarrow> 0 | Some v \<Rightarrow> v)"
  "pm_persist alist_env off n l sm d = d"
  by (simp_all add: alist_env_def)

section \<open>A fresh heap\<close>

definition blank_seg :: "nat \<Rightarrow> pmo \<Rightarrow> segment" where
  "blank_seg i n = \<lparr>seg_id = word_of_nat i, next_segment = n, used_space = 0, log_entries = (\<lambda>_. 0)\<rparr>"

definition demo_segs :: "pmo \<rightharpoonup> segment" where
  "demo_segs = [128 \<mapsto> blank_seg 0 0, 4224 \<mapsto> blank_seg 1 8320, 8320 \<mapsto> blank_seg 2 0, 12416 \<mapsto> blank_seg 3 0]"

definition demo_hdr :: log_hdr where
  "demo_hdr = \<lparr>signature = LOG_SIGNATURE, regular_termination = False, head_segment = 128,
     free_segments = 4224, last_free_segment = 8320, used_segments = 0, last_used_segment = 0,
     cleaner_segments = 0, last_cleaner_segment = 0, emergency_cleaner_segments = 12416,
     last_emergency_cleaner_segment = 12416, current_id = 0, head_position = 0, used_segments_count = 0,
     current_emergency_count = 1\<rparr>"

definition demo_heap :: "(index, unit) pmem" where
  "demo_heap = \<lparr>plog = demo_hdr, segs = demo_segs, psize = 20480, hash_table = [], currently_cleaned = [],
     consistent = True, held = {}, durable = ()\<rparr>"

definition demo_lists :: lists where
  "demo_lists = \<lparr>l_head = [128], l_free = [4224, 8320], l_used = [], l_cleaner = [], l_emergency = [12416]\<rparr>"

lemma demo_lists_ok: "lists_ok demo_hdr demo_segs demo_lists"
  by (simp add: lists_ok_def seg_list_def last_of_def all_segs_def demo_lists_def demo_hdr_def
      nexts_def ids_def demo_segs_def blank_seg_def)

text \<open>Any arrangement of blank segments on the lists is a heap in order.\<close>

definition all_blank :: "(pmo \<rightharpoonup> segment) \<Rightarrow> bool" where
  "all_blank sm \<longleftrightarrow> (\<forall>s g. sm s = Some g \<longrightarrow> used_space g = 0 \<and> log_entries g = (\<lambda>_. 0))"

lemma blank_state_ok:
  assumes l: "lists_ok (plog st) (segs st) A" "\<forall>s \<in> set (all_segs A). \<exists>j. s = seg_off j"
    and b: "all_blank (segs st)" "head_position (plog st) = 0" "held st = {}" "hash_table st = []"
  shows "state_ok c alist_env st A (\<lambda>_. []) (\<lambda>_. 0) {} {}"
proof -
  have "used_of (segs st) s = 0" "mem (segs st) s = (\<lambda>_. 0)" for s
    using b(1) by (auto simp: used_of_def all_blank_def mem_def split: option.splits)
  then show ?thesis
    using l b by (simp add: state_ok_def heap_ok_def layout_ok_def locks_free_def tidy_def entries_def used_ok_def
        live_bytes_def live_def ended_def entry_length_def rd64_def)
qed

lemma demo_offs: "\<exists>j. seg_off j = 128" "\<exists>j. seg_off j = 4224" "\<exists>j. seg_off j = 8320" "\<exists>j. seg_off j = 12416"
  by (rule exI [of _ 0], simp add: seg_off_def, rule exI [of _ 1], simp add: seg_off_def,
      rule exI [of _ 2], simp add: seg_off_def, rule exI [of _ 3], simp add: seg_off_def)

lemma demo_state_ok: "state_ok c alist_env demo_heap demo_lists (\<lambda>_. []) (\<lambda>_. 0) {} {}"
proof (rule blank_state_ok)
  show "lists_ok (plog demo_heap) (segs demo_heap) demo_lists"
    by (simp add: demo_heap_def demo_lists_ok)
  show "\<forall>s \<in> set (all_segs demo_lists). \<exists>j. s = seg_off j"
    by (simp add: demo_lists_def all_segs_def demo_offs)
qed (simp_all add: demo_heap_def demo_hdr_def all_blank_def demo_segs_def blank_seg_def)

lemma demo_sound: "sound alist_env [] demo_heap"
  by (rule okayI [OF demo_state_ok]) (simp_all add: demo_heap_def)

lemma demo_heap: "okay b alist_env [] demo_heap" "consistent demo_heap" "contents alist_env demo_heap = Map.empty"
  using demo_sound by (cases b) (simp_all add: okay_heap demo_heap_def contents_def fun_eq_iff)

lemma demo_room: "room demo_heap n"
  by (simp add: room_def demo_heap_def demo_hdr_def)

section \<open>A heap with an object\<close>

definition demo_entry :: log_entry where
  "demo_entry = \<lparr>e_id = 5, e_version = 1, e_length = 1, e_to_delete = False, e_data = [7]\<rparr>"

definition demo_object :: "(index, unit) pmem" where
  "demo_object = demo_heap\<lparr>plog := demo_hdr\<lparr>head_position := 33\<rparr>,
     segs := demo_segs(128 \<mapsto> (blank_seg 0 0)\<lparr>used_space := 33, log_entries := patch (\<lambda>_. 0) 0 (entry_bytes demo_entry)\<rparr>),
     hash_table := [(5, 152)]\<rparr>"

lemma demo_palloc: "palloc_with_id alist_env True demo_heap 5 [7] = Some (False, demo_object)"
  by (simp add: palloc_with_id_def append_to_log_def write_head_def write_area_def demo_heap_def demo_hdr_def demo_segs_def
    hash_table_contains_def access_simps Let_def entry_off_def add_to_hash_table_def demo_object_def demo_entry_def blank_seg_def
    length_entry_bytes)

lemma demo_object:
  "okay b alist_env [] demo_object" "consistent demo_object" "contents alist_env demo_object = [5 \<mapsto> [7]]"
proof -
  have s: "sound alist_env [] demo_object \<and> consistent demo_object \<and> contents alist_env demo_object = [5 \<mapsto> [7]]"
    using palloc_with_id_core [OF alist_env_ok demo_sound demo_heap(2), of "[7]" 5] demo_palloc demo_heap(3)
    by (simp add: max_data_def version_of_def demo_heap_def)
  then show "okay b alist_env [] demo_object"
    using okay_heap [of True alist_env "[]" demo_object] by (cases b) simp_all
  show "consistent demo_object" "contents alist_env demo_object = [5 \<mapsto> [7]]"
    using s by simp_all
qed

lemma demo_bytes:
  "entry_length (patch (\<lambda>_. 0) 0 (entry_bytes demo_entry)) 0 = 1" "entry_version (patch (\<lambda>_. 0) 0 (entry_bytes demo_entry)) 0 = 1"
  "entry_id (patch (\<lambda>_. 0) 0 (entry_bytes demo_entry)) 0 = 5" "\<not> entry_to_delete (patch (\<lambda>_. 0) 0 (entry_bytes demo_entry)) 0"
  "entry_data (patch (\<lambda>_. 0) 0 (entry_bytes demo_entry)) 0 = [7]"
  using entry_bytes_decode [of demo_entry "patch (\<lambda>_. 0) 0 (entry_bytes demo_entry)" "\<lambda>_. 0" 0] by (simp_all add: demo_entry_def)

lemma demo_version: "version_of alist_env demo_object 5 = Some 1"
  by (simp add: version_of_def demo_object_def entry_at_def seg_of_def demo_bytes)

section \<open>A heap that is full\<close>

text \<open>As before, but without a free segment, and with a cleaner thread's segment beside it.\<close>

definition demo_full :: "(index, unit) pmem" where
  "demo_full = demo_object\<lparr>plog := (plog demo_object)\<lparr>free_segments := 0, last_free_segment := 0\<rparr>\<rparr>"

definition demo_full_lists :: lists where
  "demo_full_lists = \<lparr>l_head = [128], l_free = [], l_used = [], l_cleaner = [], l_emergency = [12416]\<rparr>"

lemma demo_full: "heap alist_env [] demo_full" "consistent demo_full" "contents alist_env demo_full = [5 \<mapsto> [7]]"
  "\<not> room demo_full 4040"
proof -
  have l: "lists_ok (plog demo_full) (segs demo_full) demo_full_lists"
    by (simp add: lists_ok_def seg_list_def last_of_def all_segs_def demo_full_lists_def demo_full_def demo_object_def demo_hdr_def
        nexts_def ids_def demo_segs_def blank_seg_def)
  have "heap_ok alist_env demo_full demo_full_lists (\<lambda>s. if s = 128 then [0] else []) (\<lambda>s. if s = 128 then 33 else 0)"
    using l demo_bytes by (simp add: heap_ok_def layout_ok_def locks_free_def entry_of_def demo_full_def demo_object_def demo_heap_def demo_hdr_def
      demo_full_lists_def data_segs_def all_segs_def demo_offs entry_size_def entry_off_def mem_def)
  then show "heap alist_env [] demo_full"
    by (rule heapI) (simp add: demo_full_def demo_object_def demo_heap_def)
  show "consistent demo_full" "\<not> room demo_full 4040"
    by (simp_all add: demo_full_def demo_object_def demo_heap_def demo_hdr_def room_def)
  show "contents alist_env demo_full = [5 \<mapsto> [7]]"
    using demo_object(3) contents_cong [of demo_full demo_object alist_env] by (simp add: demo_full_def)
qed

section \<open>A heap that is being cleaned\<close>

text \<open>A used segment without live entries, and a cleaner thread with a segment of its own.\<close>

definition demo_cleaning :: "(index, unit) pmem" where
  "demo_cleaning = demo_heap\<lparr>
     plog := demo_hdr\<lparr>free_segments := 0, last_free_segment := 0, used_segments := 4224, last_used_segment := 4224,
       used_segments_count := 1, cleaner_segments := 8320, last_cleaner_segment := 8320\<rparr>,
     segs := demo_segs(4224 \<mapsto> blank_seg 1 0)\<rparr>"

definition demo_cleaning_lists :: lists where
  "demo_cleaning_lists = \<lparr>l_head = [128], l_free = [], l_used = [4224], l_cleaner = [8320], l_emergency = [12416]\<rparr>"

lemma demo_cleaning_lists_ok: "lists_ok (plog demo_cleaning) (segs demo_cleaning) demo_cleaning_lists"
  by (simp add: lists_ok_def seg_list_def last_of_def all_segs_def demo_cleaning_lists_def demo_cleaning_def demo_hdr_def
      nexts_def ids_def demo_segs_def blank_seg_def)

lemma demo_cleaning_state_ok: "state_ok b alist_env demo_cleaning demo_cleaning_lists (\<lambda>_. []) (\<lambda>_. 0) {} {}"
proof (rule blank_state_ok [OF demo_cleaning_lists_ok])
  show "\<forall>s \<in> set (all_segs demo_cleaning_lists). \<exists>j. s = seg_off j"
    by (simp add: demo_cleaning_lists_def all_segs_def demo_offs)
qed (simp_all add: demo_cleaning_def demo_heap_def demo_hdr_def all_blank_def demo_segs_def blank_seg_def)

lemma demo_cleaning_held: "held demo_cleaning = {}"
  by (simp add: demo_cleaning_def demo_heap_def)

lemma demo_cleaning_thread: "sound alist_env [\<lparr>cl_seg = 8320, cl_pos = 0\<rparr>] demo_cleaning"
  by (rule okayI [OF demo_cleaning_state_ok _ demo_cleaning_held]) (simp add: threads_at_def cleaner_at_def demo_cleaning_lists_def)

text \<open>
  The same with two threads: the second is about to give the used segment back, and has marked it; the
  first is about to mark it.
\<close>

definition demo_race :: "(index, unit) pmem" where
  "demo_race = demo_cleaning\<lparr>
     plog := (plog demo_cleaning)\<lparr>last_cleaner_segment := 12416, emergency_cleaner_segments := 0,
       last_emergency_cleaner_segment := 0, current_emergency_count := 0\<rparr>,
     segs := demo_segs(4224 \<mapsto> blank_seg 1 0, 8320 \<mapsto> blank_seg 2 12416), currently_cleaned := [(1, 1)]\<rparr>"

definition demo_race_lists :: lists where
  "demo_race_lists = \<lparr>l_head = [128], l_free = [], l_used = [4224], l_cleaner = [8320, 12416], l_emergency = []\<rparr>"

lemma demo_race_state_ok: "state_ok b alist_env demo_race demo_race_lists (\<lambda>_. []) (\<lambda>_. 0) {} {}"
proof (rule blank_state_ok)
  show "lists_ok (plog demo_race) (segs demo_race) demo_race_lists"
    by (simp add: lists_ok_def seg_list_def last_of_def all_segs_def demo_race_lists_def demo_race_def demo_cleaning_def demo_hdr_def
        nexts_def ids_def demo_segs_def blank_seg_def)
  show "\<forall>s \<in> set (all_segs demo_race_lists). \<exists>j. s = seg_off j"
    by (simp add: demo_race_lists_def all_segs_def demo_offs)
qed (simp_all add: demo_race_def demo_cleaning_def demo_heap_def demo_hdr_def all_blank_def demo_segs_def blank_seg_def)

section \<open>An empty file, and an environment in which nothing fails\<close>

definition demo_blank :: "(index, unit) pmem" where
  "demo_blank = demo_heap\<lparr>plog := demo_hdr\<lparr>signature := []\<rparr>, segs := (\<lambda>_. Some (blank_seg 0 0))\<rparr>"

definition demo_sys :: sys where
  "demo_sys = \<lparr>sys_open = True, sys_malloc = True, sys_cfg_new = True, sys_granularity = True, sys_source = True, sys_map = True,
     sys_map_size = 20608, sys_source_delete = True, sys_cfg_delete = True, sys_info = (\<lambda>_. True), sys_thread = (\<lambda>_. True), sys_map_delete = True, sys_close = True\<rparr>"

definition demo_io :: hash_io where
  "demo_io = \<lparr>io_path = True, io_malloc = True, io_init_path = True, io_open = True, io_truncate = True, io_cfg_new = True,
     io_granularity = True, io_source = True, io_map = True, io_source_delete = True, io_cfg_delete = True, io_map_delete = True,
     io_close = True\<rparr>"

end
