(* ===== verification/Cleaning.thy ===== *)
theory Cleaning
  imports Heap_Map
begin

text \<open>
  The cleaner on a heap in order: the live entries of a segment are copied behind the entries of the
  cleaner segment, the index follows them, and the segment is given back.  The contents of the heap do
  not change, and one segment in reserve is enough.
\<close>

section \<open>A new cleaner segment\<close>

definition blank :: "(nat \<Rightarrow> byte) \<Rightarrow> nat \<Rightarrow> bool" where
  "blank m q \<longleftrightarrow> (\<forall>a \<ge> q. m a = 0)"

lemma blank_ended: "blank m q \<Longrightarrow> ended m q"
  by (simp add: blank_def ended_def entry_length_def rd64_def)

text \<open>The segment the cleaner takes holds no entry yet.\<close>

definition take_P :: "lists \<Rightarrow> (pmo \<Rightarrow> nat list) \<Rightarrow> pmo \<Rightarrow> nat list" where
  "take_P A P = P(abs_cleaner_choice A := [])"

definition take_Q :: "lists \<Rightarrow> (pmo \<Rightarrow> nat) \<Rightarrow> pmo \<Rightarrow> nat" where
  "take_Q A Q = Q(abs_cleaner_choice A := 0)"

lemma choice_avail:
  assumes "avail A \<noteq> {}"
  shows "abs_cleaner_choice A \<in> avail A" and "abs_cleaner_choice A \<in> set (l_cleaner (abs_new_cleaner A))"
    and "l_cleaner (abs_new_cleaner A) = l_cleaner A @ [abs_cleaner_choice A]"
    and "l_used (abs_new_cleaner A) = l_used A" and "l_head (abs_new_cleaner A) = l_head A"
    and "set (all_segs (abs_new_cleaner A)) = set (all_segs A)" and "avail (abs_new_cleaner A) \<subseteq> avail A"
  using assms
  by (cases "l_free A"; cases "l_emergency A"; auto simp: abs_cleaner_choice_def abs_new_cleaner_def avail_def all_segs_def)+

text \<open>A relinking of the lists that keeps the data of the segments is a step of the log.\<close>

lemma relink_step:
  assumes ok: "lists_ok (plog st) (segs st) A" and lo: "layout_ok (plog st) (segs st) A P Q"
    and f: "list_frame st st'" and ok': "lists_ok (plog st') (segs st') A'" and d: "seg_data (segs st') = seg_data (segs st)"
    and hp: "head_position (plog st') = head_position (plog st)" and h: "l_head A' = l_head A"
    and all: "set (all_segs A') = set (all_segs A)" and av: "avail A' \<subseteq> avail A"
    and old: "\<And>s. s \<in> set (data_segs A) \<Longrightarrow> s \<in> set (data_segs A') \<and> P' s = P s \<and> Q' s = Q s"
    and new: "\<And>s. s \<in> set (data_segs A') \<Longrightarrow> s \<notin> set (data_segs A) \<Longrightarrow> P' s = [] \<and> Q' s = 0"
    and e: "\<And>s. s \<in> set (l_used A') \<Longrightarrow> s \<in> set (data_segs A) \<and> ended (mem (segs st) s) (Q s)"
  shows "log_step st A P Q st' A' P' Q'" and "same_used A st st'"
proof -
  have m: "mem (segs st') s = mem (segs st) s" for s
    by (rule mem_seg_data [OF d])
  have lays: "lay (mem (segs st') s) 0 (P' s) (Q' s)" if "s \<in> set (data_segs A')" for s
    using old [of s] new [OF that] lo by (cases "s \<in> set (data_segs A)") (auto simp: layout_ok_def m)
  have "layout_ok (plog st') (segs st') A' P' Q'"
    unfolding layout_ok_def
  proof (intro conjI ballI)
    fix s
    show "s \<in> set (l_head A') \<Longrightarrow> Q' s = head_position (plog st')"
      using lo old [of s] h by (simp add: layout_ok_def hp data_segs_def)
    show "s \<in> set (l_used A') \<Longrightarrow> ended (mem (segs st') s) (Q' s)"
      using e old by (simp add: m)
    show "s \<in> set (all_segs A') \<Longrightarrow> \<exists>j. s = seg_off j"
      using lo all by (simp add: layout_ok_def)
  qed (rule lays)
  moreover have "keeps (segs st) A P Q (segs st') A' P' Q'"
    using old by (simp add: keeps_def m)
  moreover have "entries A' P' = entries A P"
  proof -
    have "(s, p) \<in> entries A' P' \<longleftrightarrow> (s, p) \<in> entries A P" for s p
      using old [of s] new [of s] by (cases "s \<in> set (data_segs A)") (auto simp: entries_def)
    then show ?thesis by auto
  qed
  ultimately show "log_step st A P Q st' A' P' Q'"
    using ok' f all av by (simp add: log_step_def)
  show "same_used A st st'"
    using used_of_seg_data [OF d] by (simp add: same_used_def)
qed

lemma new_cleaner_step:
  assumes ok: "heap_ok E st A P Q" and av: "avail A \<noteq> {}"
  obtains st' where "get_new_cleaner_segment E st = Some (abs_cleaner_choice A, st')"
    "log_step st A P Q st' (abs_new_cleaner A) (take_P A P) (take_Q A Q)" "same_used A st st'"
    "seg_data (segs st') = seg_data (segs st)"
proof -
  let ?f = "abs_cleaner_choice A"
  note lo = heap_okD(1,2) [OF ok] and c = choice_avail [OF av]
  have h: "Cleaner_segs \<notin> held st" "Emergency_segs \<notin> held st" "Free_segs \<notin> held st"
    using heap_okD(3) [OF ok] by (auto simp: locks_free_def)
  obtain st' where st': "get_new_cleaner_segment E st = Some (?f, st')" "list_frame st st'"
    "lists_ok (plog st') (segs st') (abs_new_cleaner A)" "seg_data (segs st') = seg_data (segs st)"
    "head_position (plog st') = head_position (plog st)"
    using get_new_cleaner_refines [OF lo(1) h, of E] by blast
  have f: "?f \<notin> set (data_segs A)"
    using c(1) lists_okD(6) [OF lo(1)] by (auto simp: data_segs_def avail_def all_segs_def)
  have d: "set (data_segs (abs_new_cleaner A)) = insert ?f (set (data_segs A))"
    by (auto simp: data_segs_def c(3-5))
  have "log_step st A P Q st' (abs_new_cleaner A) (take_P A P) (take_Q A Q)" "same_used A st st'"
    by (rule relink_step [where P' = "take_P A P" and Q' = "take_Q A Q", OF lo st'(2,3,4,5) c(5-7)];
        use f d lo(2) c(4) in \<open>auto simp: take_P_def take_Q_def layout_ok_def data_segs_def\<close>)+
  with st' show ?thesis by (intro that)
qed

text \<open>A full cleaner segment joins the used segments.\<close>

lemma retire_step:
  assumes ok: "heap_ok E st A P Q" and s: "s \<in> set (l_cleaner A)" "segs st s = Some g" and e: "ended (mem (segs st) s) (Q s)"
  obtains st' A' where "append_cleaner_segment_to_used_segments E (seg_id g) st = Some st'"
    "log_step st A P Q st' A' P Q" "same_used A st st'" "seg_data (segs st') = seg_data (segs st)" "avail A' = avail A"
    "set (l_used A') = insert s (set (l_used A))" "l_head A' = l_head A" "set (l_cleaner A') = set (l_cleaner A) - {s}"
    "l_used A' = l_used A @ [s]"
proof -
  note lo = heap_okD(1,2) [OF ok]
  have h: "Cleaner_segs \<notin> held st" "Used_segs \<notin> held st"
    using heap_okD(3) [OF ok] by (auto simp: locks_free_def)
  obtain xs ys where xs: "l_cleaner A = xs @ s # ys"
    using split_list [OF s(1)] by blast
  let ?A = "A\<lparr>l_cleaner := xs @ ys, l_used := l_used A @ [s]\<rparr>"
  have i: "ids (segs st) s = Some (seg_id g)"
    using s(2) by (simp add: ids_def)
  obtain st' where st': "append_cleaner_segment_to_used_segments E (seg_id g) st = Some st'" "list_frame st st'"
    "lists_ok (plog st') (segs st') ?A" "seg_data (segs st') = seg_data (segs st)"
    "head_position (plog st') = head_position (plog st)"
    using append_cleaner_to_used_refines [OF lo(1) h xs i, of E] by blast
  have d: "s \<notin> set xs" "s \<notin> set ys"
    using lists_okD(6) [OF lo(1)] xs by (auto simp: all_segs_def)
  have "log_step st A P Q st' ?A P Q" "same_used A st st'"
    by (rule relink_step [where P' = P and Q' = Q, OF lo st'(2,3,4,5)];
        use xs lo(2) e in \<open>auto simp: layout_ok_def data_segs_def all_segs_def avail_def\<close>)+
  with st' d show ?thesis
    by (intro that [of st' ?A]) (auto simp: avail_def xs)
qed

section \<open>Copying an entry\<close>

definition read_entry :: "(nat \<Rightarrow> byte) \<Rightarrow> nat \<Rightarrow> log_entry" where
  "read_entry m p = \<lparr>e_id = entry_id m p, e_version = entry_version m p, e_length = entry_length m p,
     e_to_delete = entry_to_delete m p, e_data = entry_data m p\<rparr>"

lemma read_entry_simps [simp]:
  "e_id (read_entry m p) = entry_id m p" "e_version (read_entry m p) = entry_version m p"
  "e_length (read_entry m p) = entry_length m p" "e_to_delete (read_entry m p) = entry_to_delete m p"
  "e_data (read_entry m p) = entry_data m p"
  by (simp_all add: read_entry_def)

lemma patch_copy: "k < n \<Longrightarrow> patch m' q (rd_bytes m p n) (q + k) = m (p + k)"
  by (simp add: patch_def rd_bytes_def)

lemma rd64_copy: "k + 8 \<le> n \<Longrightarrow> rd64 (patch m' q (rd_bytes m p n)) (q + k) = rd64 m (p + k)"
  by (auto simp: rd64_def add.assoc patch_copy intro!: arg_cong [where f = sum_list] arg_cong [where f = word_of_nat])

lemma read_entry_copy:
  assumes "n = entry_size m p"
  shows "read_entry (patch m' q (rd_bytes m p n)) q = read_entry m p"
proof -
  let ?m = "patch m' q (rd_bytes m p n)"
  have n: "n = 32 + entry_length m p"
    using assms by (simp add: entry_size_def)
  have "entry_id ?m q = entry_id m p" "entry_version ?m q = entry_version m p"
    using rd64_copy [of 0 n m' q m p] rd64_copy [of 8 n m' q m p] n by (simp_all add: entry_id_def entry_version_def)
  moreover have l: "entry_length ?m q = entry_length m p"
    unfolding entry_length_def by (subst rd64_copy) (use n in simp_all)
  moreover have "entry_to_delete ?m q = entry_to_delete m p"
    unfolding entry_to_delete_def by (subst patch_copy) (use n in simp_all)
  moreover have "entry_data ?m q = entry_data m p"
    unfolding entry_data_def l
    by (rule nth_equalityI) (use n in \<open>auto simp: rd_bytes_def patch_def add.assoc\<close>)
  ultimately show ?thesis by (simp add: read_entry_def)
qed

lemma copy_run:
  assumes ok: "heap_ok E st A P Q" and c: "cl_seg c = s" "cl_pos c = Q s" and s: "s \<in> set (l_cleaner A)"
    and n: "n = entry_size m p" "0 < entry_length m p" and room: "Q s + n \<le> area_size"
  obtains st1 where "copy_entry E m p c st = Some (c\<lparr>cl_pos := Q s + n\<rparr>, add_to_hash_table E (entry_id m p) (entry_off s (Q s)) st1)"
    "wrote st A P Q s (read_entry m p) st1 (P(s := P s @ [Q s])) (Q(s := Q s + n))"
    "\<And>a. Q s + n \<le> a \<Longrightarrow> mem (segs st1) s a = mem (segs st) s a"
proof -
  note lo = heap_okD(1,2) [OF ok]
  have sA: "s \<in> set (data_segs A)" using s by (simp add: data_segs_def)
  obtain g where g: "segs st s = Some g" using layout_seg [OF lo sA] by metis
  have s0: "s \<noteq> 0" using lists_ok_dom [OF lo(1)] sA data_segs_sub by blast
  define m' where "m' = patch (log_entries g) (Q s) (rd_bytes m p n)"
  let ?g = "g\<lparr>log_entries := m', used_space := used_space g + word_of_nat n\<rparr>"
  obtain st1 where st1: "copy_entry E m p c st = Some (c\<lparr>cl_pos := Q s + n\<rparr>, add_to_hash_table E (entry_id m p) (entry_off s (Q s)) st1)"
    "segs st1 = (segs st)(s \<mapsto> ?g)" "plog st1 = plog st" "same_rest st st1"
    using c g s0 room n(1)
    by (simp add: copy_entry_def write_area_def access_simps Let_def same_rest_def m'_def)
  have "read_entry m' (Q s) = read_entry m p"
    unfolding m'_def by (rule read_entry_copy [OF n(1)])
  then have f: "entry_id m' (Q s) = entry_id m p" "entry_version m' (Q s) = entry_version m p"
    "entry_length m' (Q s) = entry_length m p" "entry_data m' (Q s) = entry_data m p"
    "entry_to_delete m' (Q s) = entry_to_delete m p"
    by (simp_all add: read_entry_def)
  have nh: "s \<notin> set (l_head A)"
    using s lists_okD(6) [OF lo(1)] by (auto simp: all_segs_def)
  have n': "n = sizeof_entry + entry_length m p"
    using n(1) by (simp add: entry_size_def)
  have "wrote st A P Q s (read_entry m p) st1 (P(s := P s @ [Q s])) (Q(s := Q s + sizeof_entry + e_length (read_entry m p)))"
    by (rule wroteI [where g = g and m = m', OF lo])
      (use s nh g st1(2-4) f n n' room in \<open>auto simp: m'_def mem_simps add.assoc\<close>)
  then have "wrote st A P Q s (read_entry m p) st1 (P(s := P s @ [Q s])) (Q(s := Q s + n))"
    by (simp add: n' add.assoc)
  moreover have "mem (segs st1) s a = mem (segs st) s a" if "Q s + n \<le> a" for a
    using that g by (simp add: st1(2) m'_def mem_simps)
  ultimately show ?thesis by (rule that [OF st1(1)])
qed

section \<open>Cleaning one entry\<close>

lemma state_ok_step:
  assumes ok: "state_ok b E st A P Q D X" and r: "log_step st A P Q st' A' P' Q'" "same_used A st st'"
  shows "state_ok b E st' A' P' Q' D X" and "contents E st' = contents E st"
proof -
  note hok = state_okD(1) [OF ok]
  have "index E st' = index E st"
    using r(1) list_frame_held [of st st'] by (simp add: log_step_def)
  then show "state_ok b E st' A' P' Q' D X"
    using step_heap_ok(1) [OF hok r(1)] tidy_log_step [OF heap_okD(1,2) [OF hok] r(1)]
      used_log_step [OF heap_okD(1,2) [OF hok] r] state_okD(2,3) [OF ok]
    by (simp add: state_ok_def)
  show "contents E st' = contents E st"
    by (rule step_heap_ok(2) [OF hok r(1)])
qed

text \<open>An entry the index does not point to may be left behind.\<close>

lemma tidy_drop:
  assumes t: "tidy sm i A P D" and e: "(s, p) \<in> entries A P" "i (entry_id (mem sm s) p) \<noteq> Some (entry_off s p)"
  shows "tidy sm i A P (insert (s, p) D)"
proof (rule tidyI)
  show "insert (s, p) D \<subseteq> entries A P"
    using t e(1) by (simp add: tidy_def)
  show "i (entry_id (mem sm t') q) \<noteq> Some (entry_off t' q)" if "(t', q) \<in> insert (s, p) D" for t' q
    using that e(2) t by (auto simp: tidy_def)
  fix t' q
  assume a: "(t', q) \<in> entries A P - insert (s, p) D" "\<not> entry_to_delete (mem sm t') q"
  then have a': "(t', q) \<in> entries A P" "(t', q) \<notin> D" by auto
  show "0 < entry_version (mem sm t') q \<and> (\<exists>t2 q2. (t2, q2) \<in> entries A P - insert (s, p) D \<and>
      entry_id (mem sm t2) q2 = entry_id (mem sm t') q \<and> i (entry_id (mem sm t') q) = Some (entry_off t2 q2) \<and>
      ((t2, q2) = (t', q) \<or> entry_version (mem sm t') q < entry_version (mem sm t2) q2))"
  proof (rule tidyE [OF t a' a(2)])
    fix t2 q2
    assume x: "0 < entry_version (mem sm t') q" "(t2, q2) \<in> entries A P" "(t2, q2) \<notin> D"
      "entry_id (mem sm t2) q2 = entry_id (mem sm t') q" "i (entry_id (mem sm t') q) = Some (entry_off t2 q2)"
      "(t2, q2) = (t', q) \<or> entry_version (mem sm t') q < entry_version (mem sm t2) q2"
    have "(t2, q2) \<noteq> (s, p)"
      using e(2) x(4,5) by auto
    with x show ?thesis
      by (intro conjI ex2I [where a = t2 and b = q2]) simp_all
  qed
qed

text \<open>
  The state between two entries of the segment \<open>cur\<close>, one of the segments \<open>X\<close> that are being
  cleaned: the entries in \<open>D\<close> have been dealt with.  There is \<open>safe\<close> room for \<open>n\<close> bytes: behind the entries of the cleaner
  segment, or in another segment, if the end of this one will be recognised.
\<close>

definition cleaning ::
  "('h, 'd) env \<Rightarrow> pmo set \<Rightarrow> pmo \<Rightarrow> cleaner \<Rightarrow> ('h, 'd) pmem \<Rightarrow> lists \<Rightarrow> (pmo \<Rightarrow> nat list) \<Rightarrow> (pmo \<Rightarrow> nat) \<Rightarrow>
   (pmo \<times> nat) set \<Rightarrow> bool" where
  "cleaning E X cur c st A P Q D \<longleftrightarrow> state_ok True E st A P Q D X \<and> held st = {} \<and> cur \<in> set (l_used A) \<and> cur \<in> X \<and>
     cl_seg c \<in> set (l_cleaner A) \<and> cl_pos c = Q (cl_seg c)"

definition safe :: "cleaner \<Rightarrow> ('h, 'd) pmem \<Rightarrow> lists \<Rightarrow> nat \<Rightarrow> bool" where
  "safe c st A n \<longleftrightarrow> cl_pos c + n \<le> area_size \<or> avail A \<noteq> {} \<and> n \<le> area_size \<and> blank (mem (segs st) (cl_seg c)) (cl_pos c)"

definition clean_frame ::
  "('h, 'd) env \<Rightarrow> pmo \<Rightarrow> ('h, 'd) pmem \<Rightarrow> (pmo \<Rightarrow> nat list) \<Rightarrow> (pmo \<Rightarrow> nat) \<Rightarrow> ('h, 'd) pmem \<Rightarrow> (pmo \<Rightarrow> nat list) \<Rightarrow> (pmo \<Rightarrow> nat) \<Rightarrow> bool" where
  "clean_frame E cur st P Q st' P' Q' \<longleftrightarrow> contents E st' = contents E st \<and> consistent st' = consistent st \<and>
     mem (segs st') cur = mem (segs st) cur \<and> P' cur = P cur \<and> Q' cur = Q cur \<and> same_marks st st'"

text \<open>The segments of the other cleaner threads stay as they are, and the thread does not come to share one.\<close>

definition others :: "cleaner \<Rightarrow> lists \<Rightarrow> (pmo \<Rightarrow> nat) \<Rightarrow> cleaner \<Rightarrow> lists \<Rightarrow> (pmo \<Rightarrow> nat) \<Rightarrow> bool" where
  "others c A Q c' A' Q' \<longleftrightarrow> (\<forall>s \<in> set (l_cleaner A). s \<noteq> cl_seg c \<longrightarrow> s \<in> set (l_cleaner A') \<and> Q' s = Q s \<and> s \<noteq> cl_seg c')"

lemma same_marks_trans: "same_marks st st' \<Longrightarrow> same_marks st' st'' \<Longrightarrow> same_marks st st''"
  by (simp add: same_marks_def)

lemma same_marks_held [simp]: "same_marks st st" "same_marks (st\<lparr>held := h\<rparr>) st' = same_marks st st'"
  "same_marks st (st'\<lparr>held := h\<rparr>) = same_marks st st'"
  by (simp_all add: same_marks_def)

lemma clean_frame_refl [simp]: "clean_frame E cur st P Q st P Q"
  by (simp add: clean_frame_def)

lemma clean_frame_trans:
  "clean_frame E cur st P Q st' P' Q' \<Longrightarrow> clean_frame E cur st' P' Q' st'' P'' Q'' \<Longrightarrow> clean_frame E cur st P Q st'' P'' Q''"
  by (simp add: clean_frame_def same_marks_def)

text \<open>The used segments stay used, with the same entries, and no segment is lost.\<close>

definition used_frame :: "lists \<Rightarrow> (pmo \<Rightarrow> nat list) \<Rightarrow> (pmo \<Rightarrow> nat) \<Rightarrow> lists \<Rightarrow> (pmo \<Rightarrow> nat list) \<Rightarrow> (pmo \<Rightarrow> nat) \<Rightarrow> bool" where
  "used_frame A P Q A' P' Q' \<longleftrightarrow> (\<forall>s \<in> set (l_used A). s \<in> set (l_used A') \<and> P' s = P s \<and> Q' s = Q s) \<and>
     set (all_segs A') = set (all_segs A)"

lemma used_frame_refl [simp]: "used_frame A P Q A P Q"
  by (simp add: used_frame_def)

lemma used_frame_trans: "used_frame A P Q A' P' Q' \<Longrightarrow> used_frame A' P' Q' A'' P'' Q'' \<Longrightarrow> used_frame A P Q A'' P'' Q''"
  by (simp add: used_frame_def)

lemma others_refl [simp]: "others c A Q c A Q"
  by (simp add: others_def)

lemma others_trans: "others c A Q c' A' Q' \<Longrightarrow> others c' A' Q' c'' A'' Q'' \<Longrightarrow> others c A Q c'' A'' Q''"
  by (simp add: others_def)

lemma threads_at_others:
  assumes "threads_at (xs @ c # ys) A Q" and "others c A Q c' A' Q'" and "cleaner_at c' A' Q'"
  shows "threads_at (xs @ c' # ys) A' Q'"
proof -
  have x: "cl_seg x \<in> set (l_cleaner A') \<and> Q' (cl_seg x) = cl_pos x \<and> cl_seg x \<noteq> cl_seg c'" if "x \<in> set xs \<union> set ys" for x
  proof -
    have "cl_seg x \<noteq> cl_seg c"
      using assms(1) that by (auto simp: threads_at_def image_iff)
    with assms(1,2) that show ?thesis
      by (auto simp: threads_at_def cleaner_at_def others_def)
  qed
  then have "cl_seg c' \<notin> cl_seg ` (set xs \<union> set ys)"
    by (metis imageE)
  with x assms(1,3) show ?thesis
    by (auto simp: threads_at_def cleaner_at_def)
qed

text \<open>Making room: afterwards there is room in the cleaner segment.  A lock on updates is held.\<close>

lemma make_room_ok:
  assumes ok: "state_ok True E st A P Q D X" and cu: "cur \<in> set (l_used A)"
    and c: "cl_seg c \<in> set (l_cleaner A)" "cl_pos c = Q (cl_seg c)"
    and r: "safe c st A N" "n \<le> N"
  obtains c' st' A' P' Q' where "make_room E n c st = Some (c', st')" "state_ok True E st' A' P' Q' D X"
    "cur \<in> set (l_used A')" "cl_seg c' \<in> set (l_cleaner A')" "cl_pos c' = Q' (cl_seg c')" "held st' = held st"
    "clean_frame E cur st P Q st' P' Q'" "cl_pos c' + n \<le> area_size"
    "cl_pos c' + N \<le> area_size \<or> avail A' \<noteq> {} \<and> N \<le> area_size \<and> blank (mem (segs st') (cl_seg c')) (cl_pos c')"
    "entries A' P' = entries A P" "index E st' = index E st" "others c A Q c' A' Q'" "used_frame A P Q A' P' Q'"
proof (cases "area_size - cl_pos c < n")
  case False
  have "cl_seg c \<in> set (data_segs A)"
    using c(1) by (simp add: data_segs_def)
  then have "cl_pos c \<le> area_size"
    using layout_seg [OF heap_okD(1,2) [OF state_okD(1) [OF ok]]] c(2) by metis
  then show ?thesis
    using False by (intro that [of c st A P Q]) (use ok cu c r in \<open>simp_all add: make_room_def safe_def\<close>)
next
  case True
  let ?s = "cl_seg c"
  note hok = state_okD(1) [OF ok]
  have sA: "?s \<in> set (data_segs A)"
    using c(1) by (simp add: data_segs_def)
  obtain g where g: "segs st ?s = Some g"
    using layout_seg [OF heap_okD(1,2) [OF hok] sA] by metis
  have s0: "?s \<noteq> 0"
    using lists_ok_dom [OF heap_okD(1) [OF hok]] sA data_segs_sub by blast
  have av: "avail A \<noteq> {}" "N \<le> area_size" and e: "ended (mem (segs st) ?s) (Q ?s)"
    using r True c(2) blank_ended by (auto simp: safe_def)
  obtain st1 A1 where st1: "append_cleaner_segment_to_used_segments E (seg_id g) st = Some st1"
    "log_step st A P Q st1 A1 P Q" "same_used A st st1" "avail A1 = avail A" "set (l_used A1) = insert ?s (set (l_used A))"
    "seg_data (segs st1) = seg_data (segs st)" "set (l_cleaner A1) = set (l_cleaner A) - {?s}"
    by (rule retire_step [OF hok c(1) g e]) blast
  note ok1 = state_ok_step [OF ok st1(2,3)]
  let ?f = "abs_cleaner_choice A1" and ?A2 = "abs_new_cleaner A1" and ?P2 = "take_P A1 P" and ?Q2 = "take_Q A1 Q"
  have av1: "avail A1 \<noteq> {}" using av st1(4) by simp
  obtain st2 where st2: "get_new_cleaner_segment E st1 = Some (?f, st2)"
    "log_step st1 A1 P Q st2 ?A2 ?P2 ?Q2" "same_used A1 st1 st2" "seg_data (segs st2) = seg_data (segs st1)"
    by (rule new_cleaner_step [OF state_okD(1) [OF ok1(1)] av1]) blast
  note ok2 = state_ok_step [OF ok1(1) st2(2,3)] and ch = choice_avail [OF av1]
  have "?f \<in> avail A"
    using ch(1) st1(4) by simp
  then have fc: "?f \<notin> set (l_cleaner A)"
    using lists_okD(6) [OF heap_okD(1) [OF hok]] by (auto simp: avail_def all_segs_def)
  have f: "?f \<noteq> 0" "?f \<noteq> cur"
    using lists_ok_dom [OF heap_okD(1) [OF state_okD(1) [OF ok1(1)]]] ch(1) st1(4,5) cu
      lists_okD(6) [OF heap_okD(1) [OF state_okD(1) [OF ok1(1)]]]
    by (auto simp: all_segs_split, auto simp: avail_def all_segs_def)
  have m: "mem (segs st2) cur = mem (segs st) cur"
    using mem_seg_data [OF st1(6)] mem_seg_data [OF st2(4)] by simp
  have fr: "list_frame st st2"
    using list_frame_trans st1(2) st2(2) unfolding log_step_def by blast
  note fr' = list_frame_held [OF fr] list_frame_marks [OF fr]
  have en: "entries ?A2 ?P2 = entries A P"
    using st1(2) st2(2) by (simp add: log_step_def)
  have "make_room E n c st = Some (\<lparr>cl_seg = ?f, cl_pos = 0\<rparr>, st2)"
    using True g s0 st1(1) st2(1) f(1) by (simp add: make_room_def get_seg_def)
  moreover have "others c A Q \<lparr>cl_seg = ?f, cl_pos = 0\<rparr> ?A2 ?Q2"
    using fc st1(7) ch(3) by (auto simp: others_def take_Q_def)
  moreover have "used_frame A P Q ?A2 ?P2 ?Q2"
    using ch(1,4) st1(4,5) lists_okD(6) [OF heap_okD(1) [OF hok]]
      st1(2) st2(2)
    by (auto simp: used_frame_def take_P_def take_Q_def log_step_def) (auto simp: avail_def all_segs_def)
  ultimately show ?thesis
    by (intro that [OF _ ok2(1)])
      (use cu st1(5) ch f av(2) r(2) m fr' en ok1(2) ok2(2) in \<open>auto simp: take_Q_def take_P_def clean_frame_def\<close>)
qed

lemma state_ok_drop:
  assumes ok: "state_ok b E st A P Q D X" and e: "(s, p) \<in> entries A P"
    and n: "index E st (entry_id (mem (segs st) s) p) \<noteq> Some (entry_off s p)"
  shows "state_ok b E st A P Q (insert (s, p) D) X"
  using ok tidy_drop [where sm = "segs st" and i = "index E st", OF _ e n] by (simp add: state_ok_def)

lemma live_unmarked:
  assumes ok: "heap_ok E st A P Q" and s: "s \<in> set (data_segs A)" and p: "p \<in> live (segs st) (index E st) P s"
  shows "\<not> entry_to_delete (mem (segs st) s) p"
proof -
  have p': "(s, p) \<in> entries A P" "index E st (entry_id (mem (segs st) s) p) = Some (entry_off s p)"
    using s p by (auto simp: entries_def live_def)
  obtain t q where "(t, q) \<in> entries A P" "entry_off s p = entry_off t q" "\<not> entry_to_delete (mem (segs st) t) q"
    using heap_okD(4) [OF ok p'(2)] by (auto simp: entry_of_entries)
  then show ?thesis
    using entries_off_eq [OF heap_okD(1,2) [OF ok] p'(1)] by auto
qed

lemma live_iff: "(s, p) \<in> entries A P \<Longrightarrow>
    p \<in> live (segs st) (index E st) P s \<longleftrightarrow> index E st (entry_id (mem (segs st) s) p) = Some (entry_off s p)"
  by (simp add: live_def entries_def)

text \<open>
  With the lock on updates, the test of \<open>clean_entry\<close> tells the live entries from those that are
  marked or superseded.
\<close>

lemma clean_entry_run:
  assumes cl: "cleaning E X cur c st A P Q D" and e: "(cur, p) \<in> entries A P" "(cur, p) \<notin> D" and m: "m = mem (segs st) cur"
  shows "clean_entry E m p c st = (if p \<in> live (segs st) (index E st) P cur then
      map_option (\<lambda>(c, st). (c, unlock Update_move st))
        (make_room E (entry_size m p) c (st\<lparr>held := {Update_move}\<rparr>) \<bind> (\<lambda>(c, st). copy_entry E m p c st))
    else Some (c, st))"
proof -
  note c = cl [unfolded cleaning_def]
  have sok: "state_ok True E st A P Q D X" and held: "held st = {}" using c by simp_all
  note hok = state_okD(1) [OF sok]
  note lo = heap_okD(1,2) [OF hok]
  note pl = live_iff [where E = E and st = st, OF e(1)]
  let ?st1 = "st\<lparr>held := {Update_move}\<rparr>"
  have lk: "lock Update_move st = Some ?st1" "unlock Update_move ?st1 = st"
    using held by (simp_all add: lock_def unlock_def)
  show ?thesis
  proof (cases "entry_to_delete m p")
    case True
    have "cur \<in> set (data_segs A)" using e(1) by (simp add: entries_def)
    then have "p \<notin> live (segs st) (index E st) P cur"
      using live_unmarked [OF hok] True m by blast
    with True lk show ?thesis by (simp add: clean_entry_def)
  next
    case u: False
    then have u': "\<not> entry_to_delete (mem (segs st) cur) p" by (simp add: m)
    obtain t q where x: "(t, q) \<in> entries A P" "index E st (entry_id m p) = Some (entry_off t q)"
      "(t, q) = (cur, p) \<or> entry_version m p < entry_version (mem (segs st) t) q"
      by (rule tidyE [OF state_okD(2) [OF sok TrueI] e u']) (use m in blast)
    obtain g where g: "mem (segs st) t = log_entries g" "entry_at st (entry_off t q) = Some (g, q)"
      by (rule entriesE [OF lo x(1)]) blast
    have at: "entry_at ?st1 (entry_off t q) = Some (g, q)"
      using g(2) entry_at_cong [of ?st1 st] by simp
    have get: "get_from_hash_table E ?st1 (entry_id m p) = entry_off t q"
      using gh_map_Some [OF x(2)] by (simp add: get_from_hash_table_def)
    have "p \<in> live (segs st) (index E st) P cur \<longleftrightarrow> (t, q) = (cur, p)"
      using pl x(2) m entries_off_eq [OF lo x(1) e(1)] by auto
    moreover have "entry_version (log_entries g) q \<le> entry_version m p \<longleftrightarrow> (t, q) = (cur, p)"
      using x(3) g(1) m by auto
    ultimately show ?thesis
      using u lk at get
      by (auto simp: clean_entry_def split: Option.bind_split)
  qed
qed

text \<open>The copy of a live entry takes its place in the index.\<close>

lemma copy_ok:
  assumes E: "glib_ok E" and ok: "state_ok True E st A P Q D X" and cu: "cur \<in> set (l_used A)" "cur \<in> X"
    and c: "cl_seg c \<in> set (l_cleaner A)" "cl_pos c = Q (cl_seg c)"
    and e: "(cur, p) \<in> entries A P" "(cur, p) \<notin> D" and m: "m = mem (segs st) cur"
    and i: "index E st (entry_id m p) = Some (entry_off cur p)" and room: "cl_pos c + entry_size m p \<le> area_size"
  obtains st' where "copy_entry E m p c st = Some (c\<lparr>cl_pos := cl_pos c + entry_size m p\<rparr>, st')"
    "state_ok True E st' A (P(cl_seg c := P (cl_seg c) @ [cl_pos c])) (Q(cl_seg c := cl_pos c + entry_size m p)) (insert (cur, p) D) X"
    "held st' = held st" "contents E st' = contents E st" "consistent st' = consistent st" "same_marks st st'"
    "index E st' = (index E st)(entry_id m p \<mapsto> entry_off (cl_seg c) (cl_pos c))"
    "\<And>t. t \<noteq> cl_seg c \<Longrightarrow> mem (segs st') t = mem (segs st) t"
    "\<And>a. cl_pos c + entry_size m p \<le> a \<Longrightarrow> mem (segs st') (cl_seg c) a = mem (segs st) (cl_seg c) a"
    "\<And>t q. (t, q) \<in> entries A P \<Longrightarrow> entry_off t q \<noteq> entry_off (cl_seg c) (cl_pos c)"
proof -
  note hok = state_okD(1) [OF ok]
  note lo = heap_okD(1,2) [OF hok]
  let ?s = "cl_seg c" and ?n = "entry_size m p"
  have cA: "cur \<in> set (data_segs A)" using cu(1) by (simp add: data_segs_def)
  have u: "\<not> entry_to_delete m p"
    using live_unmarked [OF hok cA] i e(1) m by (simp add: live_iff)
  have u': "\<not> entry_to_delete (mem (segs st) cur) p" using u m by simp
  have len: "0 < entry_length m p"
    using lay_mem [of m 0 "P cur" "Q cur" p] lo(2) e(1) m by (auto simp: layout_ok_def entries_def)
  have rm: "Q ?s + ?n \<le> area_size" using room c(2) by simp
  obtain st3 where st3: "copy_entry E m p c st = Some (c\<lparr>cl_pos := Q ?s + ?n\<rparr>, add_to_hash_table E (entry_id m p) (entry_off ?s (Q ?s)) st3)"
    and w: "wrote st A P Q ?s (read_entry m p) st3 (P(?s := P ?s @ [Q ?s])) (Q(?s := Q ?s + ?n))"
    and beh: "\<And>a. Q ?s + ?n \<le> a \<Longrightarrow> mem (segs st3) ?s a = mem (segs st) ?s a"
    by (rule copy_run [OF hok refl c(2,1) refl len rm]) blast
  let ?st3 = "add_to_hash_table E (entry_id m p) (entry_off ?s (Q ?s)) st3"
  note f = list_frame_held [OF wroteD(4) [OF w]]
  have vpos: "0 < entry_version m p"
    by (rule tidyE [OF state_okD(2) [OF ok TrueI] e u']) (simp add: m)
  have ok3: "state_ok True E (add_to_hash_table E (e_id (read_entry m p)) (entry_off ?s (Q ?s)) st3) A
      (P(?s := P ?s @ [Q ?s])) (Q(?s := Q ?s + ?n)) (insert (cur, p) D) X"
  proof (rule insert_state_ok [where D = D and j = "index E st", OF E hok w _ _ refl])
    show "tidy (segs st) (index E st) A P D" "used_ok (segs st) (index E st) A P X"
      using ok by (simp_all add: state_ok_def)
    show "insert (cur, p) D \<subseteq> entries A P"
      using e(1) ok by (simp add: state_ok_def tidy_def)
    show "index E st (e_id (read_entry m p)) \<noteq> Some (entry_off t' q')" if "(t', q') \<in> entries A P" "t' \<notin> X" for t' q'
      using entries_off_eq [OF lo e(1) that(1)] that(2) i cu(2) by auto
    show "entry_version (mem (segs st) t') q' < e_version (read_entry m p)"
      if a: "(t', q') \<in> entries A P - insert (cur, p) D" "entry_id (mem (segs st) t') q' = e_id (read_entry m p)"
        "\<not> entry_to_delete (mem (segs st) t') q'" for t' q'
    proof -
      have a': "(t', q') \<in> entries A P" "(t', q') \<notin> D" "(t', q') \<noteq> (cur, p)" using a(1) by auto
      obtain t3 q3 where y: "(t3, q3) \<in> entries A P" "index E st (entry_id m p) = Some (entry_off t3 q3)"
        "(t3, q3) = (t', q') \<or> entry_version (mem (segs st) t') q' < entry_version (mem (segs st) t3) q3"
        by (rule tidyE [OF state_okD(2) [OF ok TrueI] a'(1,2) a(3)]) (use a(2) in simp)
      have "entry_off cur p = entry_off t3 q3"
        using y(2) i by simp
      from entries_off_eq [OF lo e(1) y(1) this] have "t3 = cur" "q3 = p" by simp_all
      with y(3) a'(3) m show ?thesis by auto
    qed
  qed (use u vpos m in auto)
  obtain g' where g': "mem (segs st) cur = log_entries g'" "entry_at st (entry_off cur p) = Some (g', p)"
    by (rule entriesE [OF lo e(1)]) blast
  have "contents E ?st3 = (contents E st)(entry_id m p \<mapsto> entry_data m p)"
    using insert_ok(3) [OF E hok w _ refl] u by simp
  also have "\<dots> = contents E st"
    using contents_entry [OF i g'(2)] m g'(1) by (simp add: fun_upd_idem)
  finally show ?thesis
    using that [OF st3 [folded c(2)]] ok3 f list_frame_marks [OF wroteD(4) [OF w]] c(2) beh wroteD(7) [OF w] wrote_new(3) [OF w lo]
    by (simp add: add_to_hash_table_def same_marks_def glib_okD(2) [OF E])
qed

lemma clean_entry_ok:
  assumes E: "glib_ok E" and cl: "cleaning E X cur c st A P Q D" and e: "(cur, p) \<in> entries A P" "(cur, p) \<notin> D"
    and m: "m = mem (segs st) cur" and r: "safe c st A N" "p \<in> live (segs st) (index E st) P cur \<Longrightarrow> entry_size m p \<le> N"
  shows "\<exists>c' st' A' P' Q'. clean_entry E m p c st = Some (c', st') \<and> cleaning E X cur c' st' A' P' Q' (insert (cur, p) D) \<and>
    clean_frame E cur st P Q st' P' Q' \<and>
    safe c' st' A' (if p \<in> live (segs st) (index E st) P cur then N - entry_size m p else N) \<and>
    live (segs st') (index E st') P' cur = live (segs st) (index E st) P cur - {p} \<and> others c A Q c' A' Q' \<and>
    used_frame A P Q A' P' Q'"
proof -
  note c = cl [unfolded cleaning_def]
  have sok: "state_ok True E st A P Q D X" and held: "held st = {}" and cu: "cur \<in> set (l_used A)" using c by simp_all
  show ?thesis
  proof (cases "p \<in> live (segs st) (index E st) P cur")
    case False
    then have "clean_entry E m p c st = Some (c, st)"
      using clean_entry_run [OF cl e m] by simp
    moreover have "cleaning E X cur c st A P Q (insert (cur, p) D)"
      using c state_ok_drop [OF sok e(1)] False by (simp add: cleaning_def live_iff [OF e(1)])
    ultimately show ?thesis
      using r(1) False by (intro exI [of _ c] exI [of _ st] exI [of _ A] exI [of _ P] exI [of _ Q] conjI) simp_all
  next
    case lv: True
    let ?st1 = "st\<lparr>held := {Update_move}\<rparr>" and ?n = "entry_size m p"
    have ok1: "state_ok True E ?st1 A P Q D X"
      by (rule state_ok_held [OF sok]) simp
    have r1: "safe c ?st1 A N" using r(1) by (simp add: safe_def)
    obtain c2 st2 A' P2 Q2 where st2: "make_room E ?n c ?st1 = Some (c2, st2)" and ok2: "state_ok True E st2 A' P2 Q2 D X"
      and c2: "cur \<in> set (l_used A')" "cl_seg c2 \<in> set (l_cleaner A')" "cl_pos c2 = Q2 (cl_seg c2)" "held st2 = held ?st1"
      and fr2: "clean_frame E cur ?st1 P Q st2 P2 Q2" and room: "cl_pos c2 + ?n \<le> area_size"
      and sf: "cl_pos c2 + N \<le> area_size \<or> avail A' \<noteq> {} \<and> N \<le> area_size \<and> blank (mem (segs st2) (cl_seg c2)) (cl_pos c2)"
      and en: "entries A' P2 = entries A P" "index E st2 = index E ?st1" and oth: "others c A Q c2 A' Q2"
      and uf: "used_frame A P Q A' P2 Q2"
      by (rule make_room_ok [OF ok1 cu _ _ r1 r(2) [OF lv]]) (use c in simp_all)
    note lo2 = heap_okD(1,2) [OF state_okD(1) [OF ok2]]
    have m2: "m = mem (segs st2) cur" and e2: "(cur, p) \<in> entries A' P2"
      using fr2 m e(1) en(1) by (simp_all add: clean_frame_def)
    have i2: "index E st2 (entry_id m p) = Some (entry_off cur p)"
      using lv en(2) m by (simp add: live_iff [OF e(1)])
    let ?P = "P2(cl_seg c2 := P2 (cl_seg c2) @ [cl_pos c2])" and ?Q = "Q2(cl_seg c2 := cl_pos c2 + ?n)"
      and ?c = "c2\<lparr>cl_pos := cl_pos c2 + ?n\<rparr>"
    obtain st3 where st3: "copy_entry E m p c2 st2 = Some (?c, st3)" "state_ok True E st3 A' ?P ?Q (insert (cur, p) D) X"
      "held st3 = held st2" "contents E st3 = contents E st2" "consistent st3 = consistent st2" "same_marks st2 st3"
      "index E st3 = (index E st2)(entry_id m p \<mapsto> entry_off (cl_seg c2) (cl_pos c2))"
      "\<And>t. t \<noteq> cl_seg c2 \<Longrightarrow> mem (segs st3) t = mem (segs st2) t"
      "\<And>a. cl_pos c2 + ?n \<le> a \<Longrightarrow> mem (segs st3) (cl_seg c2) a = mem (segs st2) (cl_seg c2) a"
      "\<And>t q. (t, q) \<in> entries A' P2 \<Longrightarrow> entry_off t q \<noteq> entry_off (cl_seg c2) (cl_pos c2)"
      by (rule copy_ok [OF E ok2 c2(1) _ c2(2,3) e2 e(2) m2 i2 room]) (use c in blast)+
    let ?st = "st3\<lparr>held := {}\<rparr>"
    have ne: "t \<noteq> cl_seg c2" if "t \<in> set (l_used A')" for t
      using that c2(2) lists_okD(6) [OF lo2(1)] by (auto simp: all_segs_def)
    have run: "clean_entry E m p c st = Some (?c, ?st)"
      using clean_entry_run [OF cl e m] lv st2 st3(1,3) c2(4) by (simp add: unlock_def)
    have cln: "cleaning E X cur ?c ?st A' ?P ?Q (insert (cur, p) D)"
      using state_ok_held [OF st3(2), of "{}"] c2(1,2) c by (simp add: cleaning_def)
    have sf': "safe ?c ?st A' (N - ?n)"
      using sf r(2) [OF lv] st3(9) by (auto simp: safe_def blank_def)
    have cont: "contents E (x\<lparr>held := h\<rparr>) = contents E x" for x h
      by (rule contents_cong) simp_all
    have fr: "clean_frame E cur st P Q ?st ?P ?Q"
      using fr2 ne [OF c2(1)] st3(4,5,8) same_marks_trans [OF _ st3(6), of st] by (simp add: clean_frame_def cont)
    have lv': "live (segs ?st) (index E ?st) ?P cur = live (segs st) (index E st) P cur - {p}"
    proof -
      have mp: "mem (segs ?st) cur = mem (segs st) cur" "?P cur = P cur"
        using fr by (simp_all add: clean_frame_def)
      have "index E st3 (entry_id m x) = Some (entry_off cur x) \<longleftrightarrow> index E st (entry_id m x) = Some (entry_off cur x) \<and> x \<noteq> p"
        if x: "x \<in> set (P cur)" for x
      proof -
        have x2: "(cur, x) \<in> entries A' P2"
          using x e(1) en(1) by (auto simp: entries_def)
        from st3(7) st3(10) [OF x2] entries_off_eq [OF lo2 x2 e2] i2 en(2) show ?thesis by auto
      qed
      then show ?thesis
        unfolding live_def mp using m by auto
    qed
    have uf': "used_frame A P Q A' ?P ?Q"
      using uf ne by (simp add: used_frame_def)
    show ?thesis
      using run cln fr sf' lv' lv oth uf'
      by (intro exI [of _ ?c] exI [of _ ?st] exI [of _ A'] exI [of _ ?P] exI [of _ ?Q]) (simp add: others_def)
  qed
qed

section \<open>Cleaning a segment\<close>

lemma cleaning_seg:
  assumes "cleaning E X cur c st A P Q D"
  obtains g where "get_seg st cur = Some g" "mem (segs st) cur = log_entries g"
proof -
  have "state_ok True E st A P Q D X" "cur \<in> set (l_used A)"
    using assms by (simp_all add: cleaning_def)
  then obtain g where "cur \<noteq> 0" "segs st cur = Some g"
    using lists_ok_dom [OF heap_okD(1) [OF state_okD(1)], of True E st A P Q D X cur] by (auto simp: all_segs_def)
  then show ?thesis by (intro that [of g]) (simp_all add: get_seg_def)
qed

lemma clean_entries_ok:
  assumes E: "glib_ok E" and m: "m = mem (segs st0) cur" and fin: "ended m q" and l: "distinct ps0" "set ps0 = set (P0 cur)"
  shows "cleaning E X cur c st A P Q D \<Longrightarrow> mem (segs st) cur = m \<Longrightarrow> P cur = P0 cur \<Longrightarrow> lay m p ps q \<Longrightarrow> distinct ps \<Longrightarrow>
    set ps \<subseteq> set (P0 cur) \<Longrightarrow> D \<inter> {cur} \<times> set ps = {} \<Longrightarrow>
    safe c st A (\<Sum>x \<in> live (segs st) (index E st) P cur \<inter> set ps. entry_size m x) \<Longrightarrow>
    \<exists>c' st' A' P' Q'. clean_entries E cur p c st = Some (c', st') \<and> cleaning E X cur c' st' A' P' Q' (D \<union> {cur} \<times> set ps) \<and>
      clean_frame E cur st P Q st' P' Q' \<and> others c A Q c' A' Q' \<and> used_frame A P Q A' P' Q'"
proof (induction ps arbitrary: p c st A P Q D)
  case Nil
  obtain g where "get_seg st cur = Some g" "log_entries g = m"
    by (rule cleaning_seg [OF Nil.prems(1)]) (use Nil.prems(2) in simp)
  then have "clean_entries E cur p c st = Some (c, st)"
    using fin Nil.prems(4) by (subst clean_entries.simps) (auto simp: ended_def)
  with Nil.prems(1) show ?case
    by (intro exI [of _ c] exI [of _ st] exI [of _ A] exI [of _ P] exI [of _ Q]) simp
next
  case (Cons x xs)
  then have x: "x = p" "0 < entry_length m p" "p + entry_size m p \<le> area_size" "lay m (p + entry_size m p) xs q" by auto
  have cu: "cur \<in> set (data_segs A)"
    using Cons.prems(1) by (simp add: cleaning_def data_segs_def)
  have e: "(cur, p) \<in> entries A P" "(cur, p) \<notin> D"
    using Cons.prems(3,6,7) cu x(1) by (auto simp: entries_def)
  let ?L = "live (segs st) (index E st) P cur"
  let ?N = "\<Sum>y \<in> ?L \<inter> set (p # xs). entry_size m y" and ?N' = "\<Sum>y \<in> ?L \<inter> set xs. entry_size m y"
  have px: "p \<notin> set xs"
    using Cons.prems(5) x(1) by simp
  have N: "?N = (if p \<in> ?L then entry_size m p + ?N' else ?N')"
    using px by (simp add: Int_insert_right)
  have "safe c st A ?N" "p \<in> ?L \<Longrightarrow> entry_size m p \<le> ?N"
    using Cons.prems(8) x(1) N by simp_all
  from clean_entry_ok [OF E Cons.prems(1) e Cons.prems(2) [symmetric] this]
  obtain c1 st1 A1 P1 Q1 where 1: "clean_entry E m p c st = Some (c1, st1)" "cleaning E X cur c1 st1 A1 P1 Q1 (insert (cur, p) D)"
    "clean_frame E cur st P Q st1 P1 Q1" "safe c1 st1 A1 (if p \<in> ?L then ?N - entry_size m p else ?N)"
    "live (segs st1) (index E st1) P1 cur = ?L - {p}" "others c A Q c1 A1 Q1" "used_frame A P Q A1 P1 Q1" by blast
  have "(if p \<in> ?L then ?N - entry_size m p else ?N) = ?N'"
    by (simp only: N) simp
  moreover have "(?L - {p}) \<inter> set xs = ?L \<inter> set xs"
    using px by auto
  ultimately have sf: "safe c1 st1 A1 (\<Sum>y \<in> live (segs st1) (index E st1) P1 cur \<inter> set xs. entry_size m y)"
    using 1(4,5) by simp
  have same: "mem (segs st1) cur = m" "P1 cur = P0 cur"
    using 1(3) Cons.prems(2,3) by (simp_all add: clean_frame_def)
  have d: "insert (cur, p) D \<inter> {cur} \<times> set xs = {}"
    using Cons.prems(7) px by auto
  obtain c' st' A' P' Q' where 2: "clean_entries E cur (p + entry_size m p) c1 st1 = Some (c', st')"
    "cleaning E X cur c' st' A' P' Q' (insert (cur, p) D \<union> {cur} \<times> set xs)" "clean_frame E cur st1 P1 Q1 st' P' Q'"
    "others c1 A1 Q1 c' A' Q'" "used_frame A1 P1 Q1 A' P' Q'"
    using Cons.IH [OF 1(2) same x(4) _ _ d sf] Cons.prems(5,6) by auto
  have "p < area_size - sizeof_entry"
    using x(2,3) by (simp add: entry_size_def)
  moreover obtain g where "get_seg st cur = Some g" "log_entries g = m"
    by (rule cleaning_seg [OF Cons.prems(1)]) (use Cons.prems(2) in simp)
  ultimately have "clean_entries E cur p c st = Some (c', st')"
    using x(2) 1(1) 2(1) by (subst clean_entries.simps) simp
  moreover have "insert (cur, p) D \<union> {cur} \<times> set xs = D \<union> {cur} \<times> set (x # xs)"
    using x(1) by auto
  ultimately show ?case
    using 2(2) clean_frame_trans [OF 1(3) 2(3)] others_trans [OF 1(6) 2(4)] used_frame_trans [OF 1(7) 2(5)]
    by (intro exI [of _ c'] exI [of _ st'] exI [of _ A'] exI [of _ P'] exI [of _ Q']) simp
qed

text \<open>The objects are the same if the index and the memory are.\<close>

lemma contents_same:
  assumes ok: "heap_ok E st A P Q" "heap_ok E st' A' P' Q'" and i: "index E st' = index E st" and m: "\<And>t. mem (segs st') t = mem (segs st) t"
    and en: "\<And>t q. (t, q) \<in> entries A P \<Longrightarrow> index E st (entry_id (mem (segs st) t) q) = Some (entry_off t q) \<Longrightarrow> (t, q) \<in> entries A' P'"
  shows "contents E st' = contents E st"
proof (rule ext)
  fix k
  show "contents E st' k = contents E st k"
  proof (cases "index E st k")
    case None
    then show ?thesis by (simp add: contents_def i)
  next
    case (Some off)
    obtain t q where q: "(t, q) \<in> entries A P" "off = entry_off t q" "entry_id (mem (segs st) t) q = k"
      using heap_okD(4) [OF ok(1) Some] by (auto simp: entry_of_entries)
    then have q': "(t, q) \<in> entries A' P'"
      using en Some by simp
    obtain g1 where "mem (segs st) t = log_entries g1" "entry_at st off = Some (g1, q)"
      by (rule entriesE [OF heap_okD(1,2) [OF ok(1)] q(1)]) (use q(2) in blast)
    moreover obtain g2 where "mem (segs st') t = log_entries g2" "entry_at st' off = Some (g2, q)"
      by (rule entriesE [OF heap_okD(1,2) [OF ok(2)] q']) (use q(2) in blast)
    ultimately show ?thesis
      using Some by (simp add: contents_def i) (metis m)
  qed
qed

text \<open>The cleaned segment is given back.\<close>

lemma release_state_ok:
  assumes ok: "state_ok True E st A P Q D X" and D: "{cur} \<times> set (P cur) \<subseteq> D" and h: "held st = {}" and s: "segs st cur = Some g"
    and us: "l_used A = xs @ cur # ys"
  obtains st' where "append_cleaned_segment_to_free_segments E (seg_id g) st = Some st'"
    "state_ok True E st' (abs_release cur (A\<lparr>l_used := xs @ ys\<rparr>)) P Q (D - {cur} \<times> set (P cur)) (X - {cur})" "contents E st' = contents E st"
    "list_frame st st'" "\<And>t. mem (segs st') t = mem (segs st) t"
proof -
  note hok = state_okD(1) [OF ok]
  note lo = heap_okD(1,2) [OF hok]
  let ?A = "abs_release cur (A\<lparr>l_used := xs @ ys\<rparr>)"
  have i: "seg_data (segs st) cur = Some (seg_id g, used_space g, log_entries g)"
    using s by (simp add: seg_data_def)
  obtain st' where st': "append_cleaned_segment_to_free_segments E (seg_id g) st = Some st'" "list_frame st st'"
    "lists_ok (plog st') (segs st') ?A" "seg_data (segs st') = (seg_data (segs st))(cur \<mapsto> (seg_id g, 0, log_entries g))"
    "head_position (plog st') = head_position (plog st)"
    using cleaned_to_free_refines [OF lo(1) _ us i, of E] h by auto
  have sd: "mem (segs st') t = mem (segs st) t \<and> used_of (segs st') t = (if t = cur then 0 else used_of (segs st) t)" for t
    using fun_cong [OF st'(4), of t] s
    by (auto simp: seg_data_def mem_def used_of_def split: option.splits if_splits)
  then have m: "mem (segs st') t = mem (segs st) t" for t by simp
  have dist: "cur \<notin> set xs" "cur \<notin> set ys" "cur \<notin> set (l_head A)" "cur \<notin> set (l_cleaner A)"
    using lists_okD(6) [OF lo(1)] us by (auto simp: all_segs_def)
  have data: "set (data_segs ?A) = set (data_segs A) - {cur}"
    using dist us by (auto simp: data_segs_def)
  have av: "avail ?A = insert cur (avail A)"
    by (auto simp: avail_def abs_release_def)
  have all: "set (all_segs ?A) = set (all_segs A)"
    using dist us by (auto simp: all_segs_split data av data_segs_def)
  let ?D = "{cur} \<times> set (P cur)"
  have en: "entries ?A P = entries A P - ?D"
    by (auto simp: entries_def data)
  have rest: "entries A P - ?D - (D - ?D) = entries A P - D"
    using D by blast
  have i': "index E st' = index E st"
    using list_frame_held [OF st'(2)] by simp
  have t: "tidy (segs st) (index E st) A P D" and u: "used_ok (segs st) (index E st) A P X"
    using ok by (simp_all add: state_ok_def)
  have out: "(t, q) \<notin> ?D" if "index E st (entry_id (mem (segs st) t) q) = Some (entry_off t q)" for t q
    using t that D unfolding tidy_def by blast
  have "layout_ok (plog st') (segs st') ?A P Q"
    using lo(2) us by (auto simp: layout_ok_def data m st'(5) all)
  moreover have "entry_of (segs st') ?A P k off" if "index E st' k = Some off" for k off
    using heap_okD(4) [OF hok, of k off] that out unfolding entry_of_entries en i' m by blast
  ultimately have hok': "heap_ok E st' ?A P Q"
    using st'(3) list_frame_held [OF st'(2)] h by (simp add: heap_ok_def locks_free_def)
  have "tidy (segs st') (index E st') ?A P (D - ?D)"
    using t unfolding tidy_def en i' m rest by blast
  moreover have "used_ok (segs st') (index E st') ?A P (X - {cur})"
    unfolding used_ok_def i'
  proof (intro conjI ballI)
    show "used_of (segs st') s = 0" if "s \<in> avail ?A" for s
      using that u sd by (auto simp: av used_ok_def)
    show "unat (used_of (segs st') s) = live_bytes (segs st') (index E st) P s" if "s \<in> set (data_segs ?A) - (X - {cur})" for s
      using that u sd by (auto simp: data used_ok_def live_bytes_def live_def)
  qed
  ultimately have "state_ok True E st' ?A P Q (D - ?D) (X - {cur})"
    using hok' by (simp add: state_ok_def)
  moreover have "contents E st' = contents E st"
    by (rule contents_same [OF hok hok' i' m]) (use out in \<open>auto simp: en\<close>)
  ultimately show ?thesis
    by (intro that [OF st'(1)]) (use st'(2) m in simp_all)
qed

text \<open>A segment without used space holds no live entry.\<close>

lemma tidy_drops:
  "tidy sm i A P D \<Longrightarrow> (\<And>p. p \<in> set ps \<Longrightarrow> (s, p) \<in> entries A P \<and> i (entry_id (mem sm s) p) \<noteq> Some (entry_off s p)) \<Longrightarrow>
   tidy sm i A P (D \<union> {s} \<times> set ps)"
proof (induction ps)
  case (Cons p ps)
  have t: "tidy sm i A P (D \<union> {s} \<times> set ps)"
    using Cons.IH Cons.prems by simp
  have e: "(s, p) \<in> entries A P" "i (entry_id (mem sm s) p) \<noteq> Some (entry_off s p)"
    using Cons.prems(2) [of p] by simp_all
  have "tidy sm i A P (insert (s, p) (D \<union> {s} \<times> set ps))"
    using tidy_drop [where sm = sm and i = i, OF t e] .
  moreover have "insert (s, p) (D \<union> {s} \<times> set ps) = D \<union> {s} \<times> set (p # ps)" by auto
  ultimately show ?case by (simp only:)
qed simp

lemma state_ok_curr [simp]:
  "state_ok b E (st\<lparr>currently_cleaned := h\<rparr>) A P Q D X \<longleftrightarrow> state_ok b E st A P Q D X"
  by (simp add: state_ok_def heap_ok_def locks_free_def)

lemma clean_entries_all:
  assumes E: "glib_ok E" and ok: "state_ok True E st A P Q {} {}" and h: "held st = {}" and c: "cleaner_at c A Q"
    and cu: "cur \<in> set (l_used A)" "segs st cur = Some g" and r: "safe c st A (unat (used_space g))"
  obtains c' st' A' P' Q' where
    "(if used_space g \<noteq> 0 then clean_entries E cur 0 c st else Some (c, st)) = Some (c', st')"
    "cleaning E {cur} cur c' st' A' P' Q' ({cur} \<times> set (P' cur))" "contents E st' = contents E st" "consistent st' = consistent st"
    "others c A Q c' A' Q'"
proof -
  note lo = heap_okD(1,2) [OF state_okD(1) [OF ok]]
  have cA: "cur \<in> set (data_segs A)" using cu(1) by (simp add: data_segs_def)
  have l: "lay (log_entries g) 0 (P cur) (Q cur)" "ended (log_entries g) (Q cur)"
    using lo(2) cA cu by (auto simp: layout_ok_def)
  have used: "unat (used_space g) = live_bytes (segs st) (index E st) P cur"
    using state_okD(3) [OF ok] cA cu(2) by (fastforce simp: used_ok_def used_of_def)
  have cl: "cleaning E {cur} cur c st A P Q {}"
    using ok h c cu(1) by (simp add: cleaning_def cleaner_at_def state_ok_def used_ok_def)
  show ?thesis
  proof (cases "used_space g = 0")
    case False
    have d: "distinct (P cur)"
      using lay_sum [OF l(1)] by simp
    have "live (segs st) (index E st) P cur \<inter> set (P cur) = live (segs st) (index E st) P cur"
      by (auto simp: live_def)
    then have sf: "safe c st A (\<Sum>x \<in> live (segs st) (index E st) P cur \<inter> set (P cur). entry_size (log_entries g) x)"
      using r used cu(2) by (simp add: live_bytes_def)
    obtain c' st' A' P' Q' where "clean_entries E cur 0 c st = Some (c', st')"
      "cleaning E {cur} cur c' st' A' P' Q' ({} \<union> {cur} \<times> set (P cur))" "clean_frame E cur st P Q st' P' Q'"
      "others c A Q c' A' Q'"
      using clean_entries_ok [where ?st0.0 = st and ?P0.0 = P and ps = "P cur" and ?ps0.0 = "P cur", OF E _ l(2) d refl cl _ refl l(1) d _ _ sf]
        cu(2) by auto
    then show ?thesis
      using False by (intro that [of c' st' A' P' Q']) (simp_all add: clean_frame_def)
  next
    case True
    then have "(\<Sum>p \<in> live (segs st) (index E st) P cur. entry_size (mem (segs st) cur) p) = 0"
      using used by (simp add: live_bytes_def)
    then have no: "live (segs st) (index E st) P cur = {}"
      by (auto simp: entry_size_def live_def)
    have "tidy (segs st) (index E st) A P ({} \<union> {cur} \<times> set (P cur))"
      by (rule tidy_drops) (use cl no cA in \<open>auto simp: cleaning_def state_ok_def live_def entries_def\<close>)
    then have "cleaning E {cur} cur c st A P Q ({cur} \<times> set (P cur))"
      using cl by (simp add: cleaning_def state_ok_def)
    then show ?thesis
      using True by (intro that [of c st A P Q]) simp_all
  qed
qed

lemma clean_segment_core:
  assumes E: "glib_ok E" and ok: "state_ok True E st A P Q {} {}" and h: "held st = {}" and c: "cleaner_at c A Q"
    and cu: "cur \<in> set (l_used A)" "segs st cur = Some g" and r: "safe c st A (unat (used_space g))"
  obtains nxt c' st' A' P' Q' where "clean_segment E cur c st = Some (nxt, c', st')" "state_ok True E st' A' P' Q' {} {}" "held st' = {}"
    "cleaner_at c' A' Q'" "contents E st' = contents E st" "consistent st' = consistent st" "cur \<in> avail A'" "others c A Q c' A' Q'"
proof -
  have c0: "cur \<noteq> 0"
    using lists_ok_dom [OF heap_okD(1) [OF state_okD(1) [OF ok]], of cur] cu(1) by (simp add: all_segs_def)
  obtain c1 st1 A1 P1 Q1 where
    1: "(if used_space g \<noteq> 0 then clean_entries E cur 0 c st else Some (c, st)) = Some (c1, st1)"
      "cleaning E {cur} cur c1 st1 A1 P1 Q1 ({cur} \<times> set (P1 cur))" "contents E st1 = contents E st" "consistent st1 = consistent st"
      "others c A Q c1 A1 Q1"
    by (rule clean_entries_all [OF assms]) blast
  note cl = 1(2) [unfolded cleaning_def]
  have cl1: "state_ok True E st1 A1 P1 Q1 ({cur} \<times> set (P1 cur)) {cur}" "held st1 = {}"
    using cl by simp_all
  obtain g1 where g1: "segs st1 cur = Some g1"
    using lists_ok_dom [OF heap_okD(1) [OF state_okD(1)], of True E st1 A1 P1 Q1 _ "{cur}" cur] cl by (auto simp: all_segs_def)
  obtain xs ys where us: "l_used A1 = xs @ cur # ys"
    using split_list cl by metis
  obtain st' where st': "append_cleaned_segment_to_free_segments E (seg_id g1) st1 = Some st'"
    "state_ok True E st' (abs_release cur (A1\<lparr>l_used := xs @ ys\<rparr>)) P1 Q1 {} {}" "contents E st' = contents E st1"
    "list_frame st1 st'"
    by (rule release_state_ok [OF cl1(1) subset_refl cl1(2) g1 us]) (simp add: that)
  note f = list_frame_held [OF st'(4)]
  have lk: "lock Used_segs st1 = Some (st1\<lparr>held := {Used_segs}\<rparr>)" "unlock Used_segs (st1\<lparr>held := {Used_segs}\<rparr>) = st1"
    using cl by (simp_all add: lock_def unlock_def)
  let ?st = "unset_curr_cleaned E g1 st'"
  have run: "clean_segment E cur c st = Some (next_segment g1, c1, ?st)"
    using c0 cu(2) 1(1) g1 lk st'(1) by (simp add: clean_segment_def get_seg_def Let_def)
  have "contents E ?st = contents E st'"
    by (rule contents_cong) (simp_all add: unset_curr_cleaned_def)
  then show ?thesis
    by (intro that [OF run, of "abs_release cur (A1\<lparr>l_used := xs @ ys\<rparr>)" P1 Q1])
      (use st' f cl 1(3-5) in \<open>simp_all add: unset_curr_cleaned_def cleaner_at_def others_def\<close>, simp add: avail_def abs_release_def)
qed

lemma avail_iff: "lists_ok l sm A \<Longrightarrow> avail A \<noteq> {} \<longleftrightarrow> free_segments l \<noteq> 0 \<or> emergency_cleaner_segments l \<noteq> 0"
  using seg_list_0_iff [OF lists_okD(2)] seg_list_0_iff [OF lists_okD(5)] by (auto simp: avail_def)

end
