(* ===== verification/Recovery.thy ===== *)
theory Recovery
  imports Heap_Map
begin

text \<open>
  The reconstruction of the index after a crash: the scans change nothing but the index, and the
  loop over the cleaner segments never ends once there is one.
\<close>

text \<open>The scans change nothing but the index.\<close>

definition index_step :: "('h, 'd) pmem \<Rightarrow> ('h, 'd) pmem \<Rightarrow> bool" where
  "index_step st st' \<longleftrightarrow> (\<exists>h. st' = st\<lparr>hash_table := h\<rparr>)"

lemma index_step_refl [simp]: "index_step st st"
  unfolding index_step_def by (rule exI [of _ "hash_table st"]) simp

lemma index_step_trans: "index_step st st' \<Longrightarrow> index_step st' st'' \<Longrightarrow> index_step st st''"
  by (auto simp: index_step_def)

lemma index_stepD: "index_step st st' \<Longrightarrow> plog st' = plog st \<and> segs st' = segs st \<and> held st' = held st \<and>
    consistent st' = consistent st \<and> psize st' = psize st"
  by (auto simp: index_step_def)

lemma reindex_entry_index: "reindex_entry E s m p st = Some st' \<Longrightarrow> index_step st st'"
  by (auto simp: reindex_entry_def add_to_hash_table_def index_step_def bind_eq_Some_conv
      split: if_splits prod.splits intro: exI [of _ "hash_table st"])

lemma scan_used_index: "scan_used E s m p st = Some st' \<Longrightarrow> index_step st st'"
proof (induction E s m p st rule: scan_used.induct)
  case (1 E s m p st)
  note IH = 1(1) [simplified]
  from 1(2) show ?case
    by (subst (asm) scan_used.simps)
      (auto simp: bind_eq_Some_conv split: if_splits intro: index_step_trans [OF reindex_entry_index IH])
qed

lemma scan_head_index: "scan_head E s m hp p st = Some st' \<Longrightarrow> index_step st st'"
proof (induction E s m hp p st rule: scan_head.induct)
  case (1 E s m hp p st)
  note IH = 1(1) [simplified]
  from 1(2) show ?case
    by (subst (asm) scan_head.simps)
      (auto simp: bind_eq_Some_conv split: if_splits intro: index_step_trans [OF reindex_entry_index IH])
qed

lemma scan_used_list_index: 
  assumes "scan_used_list E s st = Some st'"
  shows "index_step st st'"
proof (rule scan_used_list.raw_induct [where P = "\<lambda>E s st st'. index_step st st'", OF _ assms])
  fix f and E :: "('a, 'b) env" and s st st'
  assume IH: "\<And>E s st st'. f E s st = Some st' \<Longrightarrow> index_step st st'"
    and f: "(if s = 0 then Some st
      else do {
        g \<leftarrow> get_seg st s;
        st \<leftarrow> scan_used E s (log_entries g) 0 st;
        f E (next_segment g) st
      }) = Some st'"
  from f show "index_step st st'"
    by (auto simp: bind_eq_Some_conv split: if_splits intro: index_step_trans [OF scan_used_index IH])
qed

text \<open>The loop over the cleaner segments never leaves its first segment.\<close>

lemma scan_cleaner_list_hangs: "s \<noteq> 0 \<Longrightarrow> scan_cleaner_list E s st = None"
proof -
  assume s: "s \<noteq> 0"
  have keep: "fst (cleaner_loop_body E c) = fst c" for c
    by (cases c) (simp add: cleaner_loop_body_def)
  show ?thesis
  proof (cases "while_option cleaner_loop_guard (cleaner_loop_body E) (s, Some st)")
    case (Some c)
    have "fst c = s"
      by (rule while_option_rule [where P = "\<lambda>c. fst c = s", OF _ Some]) (simp_all add: keep)
    moreover have "\<not> cleaner_loop_guard c"
      using while_option_stop [OF Some] .
    ultimately have "snd c = None"
      using s by (simp add: cleaner_loop_guard_def)
    with Some show ?thesis by (simp add: scan_cleaner_list_def)
  qed (simp add: scan_cleaner_list_def)
qed

section \<open>The reconstructed index\<close>

text \<open>
  The index \<open>i\<close> points to a newest one of the unmarked entries in \<open>S\<close> of every object that has one.
\<close>

definition newest :: "(pmo \<rightharpoonup> segment) \<Rightarrow> (u64 \<rightharpoonup> pmo) \<Rightarrow> (pmo \<times> nat) set \<Rightarrow> bool" where
  "newest sm i S \<longleftrightarrow>
     (\<forall>k off. i k = Some off \<longrightarrow> (\<exists>s p. (s, p) \<in> S \<and> off = entry_off s p \<and> entry_id (mem sm s) p = k \<and>
        \<not> entry_to_delete (mem sm s) p)) \<and>
     (\<forall>s p. (s, p) \<in> S \<longrightarrow> \<not> entry_to_delete (mem sm s) p \<longrightarrow>
        (\<exists>t q. (t, q) \<in> S \<and> i (entry_id (mem sm s) p) = Some (entry_off t q) \<and>
           entry_version (mem sm s) p \<le> entry_version (mem sm t) q))"

lemma newest_empty: "newest sm Map.empty {}"
  by (simp add: newest_def)

lemma newest_marked: "newest sm i S \<Longrightarrow> entry_to_delete (mem sm s) p \<Longrightarrow> newest sm i (insert (s, p) S)"
  unfolding newest_def by blast

lemma newest_old:
  assumes n: "newest sm i S" and t: "(t, q) \<in> S" "i (entry_id (mem sm s) p) = Some (entry_off t q)"
    and v: "entry_version (mem sm s) p \<le> entry_version (mem sm t) q"
  shows "newest sm i (insert (s, p) S)"
  unfolding newest_def
proof (intro conjI allI impI)
  fix k off
  assume "i k = Some off"
  with n show "\<exists>s' p'. (s', p') \<in> insert (s, p) S \<and> off = entry_off s' p' \<and> entry_id (mem sm s') p' = k \<and>
      \<not> entry_to_delete (mem sm s') p'"
    unfolding newest_def by blast
next
  fix s' p'
  assume e: "(s', p') \<in> insert (s, p) S" "\<not> entry_to_delete (mem sm s') p'"
  show "\<exists>t q. (t, q) \<in> insert (s, p) S \<and> i (entry_id (mem sm s') p') = Some (entry_off t q) \<and>
      entry_version (mem sm s') p' \<le> entry_version (mem sm t) q"
  proof (cases "(s', p') = (s, p)")
    case True
    with t v show ?thesis by blast
  next
    case False
    with e n show ?thesis unfolding newest_def by blast
  qed
qed

lemma newest_new:
  assumes n: "newest sm i S" and u: "\<not> entry_to_delete (mem sm s) p"
    and old: "\<And>t q. (t, q) \<in> S \<Longrightarrow> i (entry_id (mem sm s) p) = Some (entry_off t q) \<Longrightarrow>
      entry_version (mem sm t) q \<le> entry_version (mem sm s) p"
  shows "newest sm (i(entry_id (mem sm s) p \<mapsto> entry_off s p)) (insert (s, p) S)"
  unfolding newest_def
proof (intro conjI allI impI)
  let ?i = "i(entry_id (mem sm s) p \<mapsto> entry_off s p)"
  fix k off
  assume k: "?i k = Some off"
  show "\<exists>t q. (t, q) \<in> insert (s, p) S \<and> off = entry_off t q \<and> entry_id (mem sm t) q = k \<and> \<not> entry_to_delete (mem sm t) q"
  proof (cases "k = entry_id (mem sm s) p")
    case True
    with k u show ?thesis by auto
  next
    case False
    with k have "i k = Some off" by simp
    with n show ?thesis unfolding newest_def by blast
  qed
next
  let ?i = "i(entry_id (mem sm s) p \<mapsto> entry_off s p)"
  fix t q
  assume t: "(t, q) \<in> insert (s, p) S" "\<not> entry_to_delete (mem sm t) q"
  show "\<exists>t' q'. (t', q') \<in> insert (s, p) S \<and> ?i (entry_id (mem sm t) q) = Some (entry_off t' q') \<and>
    entry_version (mem sm t) q \<le> entry_version (mem sm t') q'"
  proof (cases "(t, q) = (s, p)")
    case True
    then show ?thesis by auto
  next
    case False
    with n t obtain t' q' where x: "(t', q') \<in> S" "i (entry_id (mem sm t) q) = Some (entry_off t' q')"
      "entry_version (mem sm t) q \<le> entry_version (mem sm t') q'"
      unfolding newest_def by blast
    show ?thesis
    proof (cases "entry_id (mem sm t) q = entry_id (mem sm s) p")
      case True
      with old [OF x(1)] x show ?thesis by (intro exI [of _ s] exI [of _ p]) auto
    next
      case False
      with x show ?thesis by auto
    qed
  qed
qed

text \<open>One entry of a scan, and the three scans of a segment.\<close>

lemma reindex_entry_newest:
  assumes E: "glib_ok E" and lo: "lists_ok (plog st) (segs st) A" "layout_ok (plog st) (segs st) A P Q"
    and S: "newest (segs st) (index E st) S" "S \<subseteq> entries A P" and e: "(s, p) \<in> entries A P" and m: "m = mem (segs st) s"
  shows "\<exists>st'. reindex_entry E s m p st = Some st' \<and> index_step st st' \<and> newest (segs st) (index E st') (insert (s, p) S)"
proof (cases "entry_to_delete m p")
  case True
  with S(1) newest_marked show ?thesis by (auto simp: reindex_entry_def m)
next
  case False
  let ?n = "entry_id m p"
  have add: "index_step st (add_to_hash_table E ?n (entry_off s p) st)"
    "index E (add_to_hash_table E ?n (entry_off s p) st) = (index E st)(?n \<mapsto> entry_off s p)"
    by (auto simp: index_step_def add_to_hash_table_def glib_okD(2) [OF E])
  show ?thesis
  proof (cases "index E st ?n")
    case None
    then have "reindex_entry E s m p st = Some (add_to_hash_table E ?n (entry_off s p) st)"
      using False by (simp add: reindex_entry_def hash_table_contains_def gh_map_None)
    moreover have "newest (segs st) ((index E st)(?n \<mapsto> entry_off s p)) (insert (s, p) S)"
      unfolding m by (rule newest_new [OF S(1)]) (use None False in \<open>simp_all add: m\<close>)
    ultimately show ?thesis
      using add by simp
  next
    case (Some off)
    obtain t q where t: "(t, q) \<in> S" "off = entry_off t q" 
      using S(1) Some unfolding newest_def by blast
    then have tA: "(t, q) \<in> entries A P" using S(2) by auto
    obtain g where g: "entry_at st off = Some (g, q)" "mem (segs st) t = log_entries g"
      by (rule entriesE [OF lo tA]) (use t(2) in blast)
    have run: "reindex_entry E s m p st = (if entry_version (log_entries g) q < entry_version m p
        then Some (add_to_hash_table E ?n (entry_off s p) st) else Some st)"
      using False gh_map_Some [OF Some] g
      by (simp add: reindex_entry_def hash_table_contains_def get_from_hash_table_def)
    have only: "t' = t \<and> q' = q" if "(t', q') \<in> S" "index E st ?n = Some (entry_off t' q')" for t' q'
      using entries_off_eq [OF lo, of t' q' t q] tA S(2) that Some t(2) by auto
    show ?thesis
    proof (cases "entry_version (log_entries g) q < entry_version m p")
      case True
      have "newest (segs st) ((index E st)(?n \<mapsto> entry_off s p)) (insert (s, p) S)"
        unfolding m by (rule newest_new [OF S(1)]) (use False True only g(2) in \<open>auto simp: m less_imp_le\<close>)
      with run True add show ?thesis by auto
    next
      case no: False
      have "newest (segs st) (index E st) (insert (s, p) S)"
        by (rule newest_old [OF S(1) t(1)]) (use Some t(2) no g(2) in \<open>simp_all add: m not_less\<close>)
      with run no show ?thesis by auto
    qed
  qed
qed

lemma scan_used_newest:
  assumes E: "glib_ok E" and lo: "lists_ok (plog st) (segs st) A" "layout_ok (plog st) (segs st) A P Q"
    and m: "m = mem (segs st) s" and fin: "ended m (Q s)" and s: "s \<in> set (data_segs A)"
  shows "lay m p ps (Q s) \<Longrightarrow> set ps \<subseteq> set (P s) \<Longrightarrow> index_step st st1 \<Longrightarrow> newest (segs st) (index E st1) S \<Longrightarrow> S \<subseteq> entries A P \<Longrightarrow>
    \<exists>st'. scan_used E s m p st1 = Some st' \<and> index_step st st' \<and> newest (segs st) (index E st') (S \<union> {s} \<times> set ps)"
proof (induction ps arbitrary: p st1 S)
  case Nil
  then show ?case
    using fin by (subst scan_used.simps) (auto simp: ended_def)
next
  case (Cons x xs)
  then have l: "x = p" "0 < entry_length m p" "p + entry_size m p \<le> area_size" "lay m (p + entry_size m p) xs (Q s)" by auto
  have e: "(s, p) \<in> entries A P"
    using Cons.prems(2) s l(1) by (simp add: entries_def)
  have st1: "plog st1 = plog st" "segs st1 = segs st"
    using index_stepD [OF Cons.prems(3)] by simp_all
  obtain st2 where st2: "reindex_entry E s m p st1 = Some st2" "index_step st1 st2" "newest (segs st) (index E st2) (insert (s, p) S)"
    using reindex_entry_newest [OF E, of st1 A P Q S s p m] lo Cons.prems(4,5) e m st1 by auto
  have "p < area_size - sizeof_entry"
    using l(2,3) by (simp add: entry_size_def)
  then have run: "scan_used E s m p st1 = scan_used E s m (p + entry_size m p) st2"
    using l(2) st2(1) by (subst scan_used.simps) simp
  have "\<exists>st'. scan_used E s m (p + entry_size m p) st2 = Some st' \<and> index_step st st' \<and>
      newest (segs st) (index E st') (insert (s, p) S \<union> {s} \<times> set xs)"
    by (rule Cons.IH [OF l(4)]) (use Cons.prems(2,5) e st2(3) index_step_trans [OF Cons.prems(3) st2(2)] in auto)
  then show ?case
    using run l(1) by simp
qed


lemma scan_head_newest:
  assumes E: "glib_ok E" and lo: "lists_ok (plog st) (segs st) A" "layout_ok (plog st) (segs st) A P Q"
    and m: "m = mem (segs st) s" and hp: "hp = Q s" and s: "s \<in> set (data_segs A)"
  shows "lay m p ps (Q s) \<Longrightarrow> set ps \<subseteq> set (P s) \<Longrightarrow> index_step st st1 \<Longrightarrow> newest (segs st) (index E st1) S \<Longrightarrow> S \<subseteq> entries A P \<Longrightarrow>
    \<exists>st'. scan_head E s m hp p st1 = Some st' \<and> index_step st st' \<and> newest (segs st) (index E st') (S \<union> {s} \<times> set ps)"
proof (induction ps arbitrary: p st1 S)
  case Nil
  then show ?case
    by (subst scan_head.simps) (auto simp: hp)
next
  case (Cons x xs)
  then have l: "x = p" "p + entry_size m p \<le> area_size" "lay m (p + entry_size m p) xs (Q s)" by auto
  have e: "(s, p) \<in> entries A P"
    using Cons.prems(2) s l(1) by (simp add: entries_def)
  have st1: "plog st1 = plog st" "segs st1 = segs st"
    using index_stepD [OF Cons.prems(3)] by simp_all
  obtain st2 where st2: "reindex_entry E s m p st1 = Some st2" "index_step st1 st2" "newest (segs st) (index E st2) (insert (s, p) S)"
    using reindex_entry_newest [OF E, of st1 A P Q S s p m] lo Cons.prems(4,5) e m st1 by auto
  have "p < hp" "\<not> area_size < p + sizeof_entry"
    using l(2) lay_le [OF l(3)] by (simp_all add: entry_size_def hp)
  then have run: "scan_head E s m hp p st1 = scan_head E s m hp (p + entry_size m p) st2"
    using st2(1) by (subst scan_head.simps) simp
  have "\<exists>st'. scan_head E s m hp (p + entry_size m p) st2 = Some st' \<and> index_step st st' \<and>
      newest (segs st) (index E st') (insert (s, p) S \<union> {s} \<times> set xs)"
    by (rule Cons.IH [OF l(3)]) (use Cons.prems(2,5) e st2(3) index_step_trans [OF Cons.prems(3) st2(2)] in auto)
  then show ?case
    using run l(1) by simp
qed

text \<open>All used segments.\<close>

lemma scan_used_list_newest:
  assumes E: "glib_ok E" and lo: "lists_ok (plog st) (segs st) A" "layout_ok (plog st) (segs st) A P Q"
  shows "path (nexts (segs st)) s xs 0 \<Longrightarrow> set xs \<subseteq> set (l_used A) \<Longrightarrow> index_step st st1 \<Longrightarrow>
    newest (segs st) (index E st1) S \<Longrightarrow> S \<subseteq> entries A P \<Longrightarrow>
    \<exists>st'. scan_used_list E s st1 = Some st' \<and> index_step st st' \<and>
      newest (segs st) (index E st') (S \<union> {(t, p). t \<in> set xs \<and> p \<in> set (P t)})"
proof (induction xs arbitrary: s st1 S)
  case Nil
  then show ?case by (subst scan_used_list.simps) auto
next
  case (Cons x xs)
  then obtain y where x: "s = x" "x \<noteq> 0" "nexts (segs st) x = Some y" "path (nexts (segs st)) y xs 0" by auto
  obtain g where g: "segs st x = Some g" "next_segment g = y"
    using nextsE [OF x(3)] .
  have xA: "x \<in> set (data_segs A)" "x \<in> set (l_used A)"
    using Cons.prems(2) by (auto simp: data_segs_def)
  have l: "lay (log_entries g) 0 (P x) (Q x)" "ended (log_entries g) (Q x)"
    using lo(2) xA g(1) by (auto simp: layout_ok_def)
  obtain st2 where st2: "scan_used E x (log_entries g) 0 st1 = Some st2" "index_step st st2"
    "newest (segs st) (index E st2) (S \<union> {x} \<times> set (P x))"
    using scan_used_newest [OF E lo _ l(2) xA(1) l(1) _ Cons.prems(3-5)] g(1) by auto
  have run: "scan_used_list E s st1 = scan_used_list E y st2"
    using x(1,2) g st2(1) index_stepD [OF Cons.prems(3)]
    by (subst scan_used_list.simps) (simp add: get_seg_def)
  have "\<exists>st'. scan_used_list E y st2 = Some st' \<and> index_step st st' \<and>
      newest (segs st) (index E st') (S \<union> {x} \<times> set (P x) \<union> {(t, p). t \<in> set xs \<and> p \<in> set (P t)})"
    by (rule Cons.IH [OF x(4) _ st2(2,3)]) (use Cons.prems(2,5) xA(1) in \<open>auto simp: entries_def\<close>)
  moreover have "S \<union> {x} \<times> set (P x) \<union> {(t, p). t \<in> set xs \<and> p \<in> set (P t)} =
      S \<union> {(t, p). t \<in> set (x # xs) \<and> p \<in> set (P t)}" by auto
  ultimately show ?case
    using run by simp
qed

lemma reconstruct_newest:
  assumes E: "glib_ok E" and lo: "lists_ok (plog st) (segs st) A" "layout_ok (plog st) (segs st) A P Q"
    and c: "cleaner_segments (plog st) = 0" and i: "index E st = Map.empty"
  shows "\<exists>st'. reconstruct_hash_table E st = Some st' \<and> index_step st st' \<and> newest (segs st) (index E st') (entries A P)"
proof -
  let ?U = "{(t, p). t \<in> set (l_used A) \<and> p \<in> set (P t)}"
  have p: "path (nexts (segs st)) (used_segments (plog st)) (l_used A) 0"
    using lists_okD(3) [OF lo(1)] by (simp add: seg_list_def)
  have "l_cleaner A = []"
    using lists_okD(4) [OF lo(1)] seg_list_0_iff c by blast
  then have en: "entries A P = ?U \<union> {(t, p). t \<in> set (l_head A) \<and> p \<in> set (P t)}"
    by (auto simp: entries_def data_segs_def)
  have "\<exists>st1. scan_used_list E (used_segments (plog st)) st = Some st1 \<and> index_step st st1 \<and>
      newest (segs st) (index E st1) ({} \<union> ?U)"
    by (rule scan_used_list_newest [OF E lo p]) (simp_all add: i newest_empty)
  then obtain st1 where st1: "scan_used_list E (used_segments (plog st)) st = Some st1" "index_step st st1"
    "newest (segs st) (index E st1) ?U" by auto
  note same1 = index_stepD [OF st1(2)]
  show ?thesis
  proof (cases "l_head A")
    case Nil
    then have "head_segment (plog st) = 0" "entries A P = ?U"
      using head_cases [OF lo(1)] en by (auto split: if_splits)
    moreover have "scan_cleaner_list E 0 st1 = Some st1"
      by (simp add: scan_cleaner_list_def cleaner_loop_guard_def while_option_unfold)
    ultimately show ?thesis
      using st1 same1 c by (simp add: reconstruct_hash_table_def)
  next
    case (Cons h hs)
    then have h: "l_head A = [h]" "head_segment (plog st) = h" "h \<noteq> 0"
      using head_cases [OF lo(1)] by (auto split: if_splits)
    then have hA: "h \<in> set (data_segs A)" by (simp add: data_segs_def)
    obtain g where g: "segs st h = Some g" "lay (log_entries g) 0 (P h) (Q h)"
      using layout_seg [OF lo hA] by metis
    have hp: "head_position (plog st) = Q h"
      using lo(2) h by (simp add: layout_ok_def)
    have "\<exists>st2. scan_head E h (log_entries g) (head_position (plog st)) 0 st1 = Some st2 \<and> index_step st st2 \<and>
        newest (segs st) (index E st2) (?U \<union> {h} \<times> set (P h))"
      by (rule scan_head_newest [OF E lo _ hp hA g(2) _ st1(2,3)]) (use g(1) en in auto)
    then obtain st2 where st2: "scan_head E h (log_entries g) (head_position (plog st)) 0 st1 = Some st2" "index_step st st2"
      "newest (segs st) (index E st2) (?U \<union> {h} \<times> set (P h))" by blast
    have "entries A P = ?U \<union> {h} \<times> set (P h)"
      using en h by auto
    moreover have "scan_cleaner_list E 0 st2 = Some st2"
      by (simp add: scan_cleaner_list_def cleaner_loop_guard_def while_option_unfold)
    ultimately show ?thesis
      using st1 st2 same1 index_stepD [OF st2(2)] c h g(1) by (simp add: reconstruct_hash_table_def get_seg_def)
  qed
qed

section \<open>What a crash loses\<close>

text \<open>The state the next start finds: the index is gone.\<close>

definition crash :: "('h, 'd) env \<Rightarrow> ('h, 'd) pmem \<Rightarrow> ('h, 'd) pmem" where
  "crash E st = st\<lparr>hash_table := gh_new E, held := {}\<rparr>"

lemma newest_tidy:
  assumes lo: "lists_ok l sm A" "layout_ok l sm A P Q" and t: "tidy sm i A P {}"
    and i: "\<And>k off. i k = Some off \<Longrightarrow> entry_of sm A P k off" and n: "newest sm j (entries A P)"
  shows "j = i"
proof
  fix k
  show "j k = i k"
  proof (cases "i k")
    case None
    have "j k \<noteq> Some off" for off
    proof
      assume "j k = Some off"
      then obtain s p where s: "(s, p) \<in> entries A P" "entry_id (mem sm s) p = k" "\<not> entry_to_delete (mem sm s) p"
        using n unfolding newest_def by blast
      obtain t' q where "i (entry_id (mem sm s) p) = Some (entry_off t' q)"
        by (rule tidyE [OF t s(1) _ s(3)]) auto
      with s(2) None show False by simp
    qed
    with None show ?thesis by (cases "j k") auto
  next
    case (Some off)
    obtain s p where s: "(s, p) \<in> entries A P" "off = entry_off s p" "entry_id (mem sm s) p = k" "\<not> entry_to_delete (mem sm s) p"
      using i [OF Some] by (auto simp: entry_of_entries)
    obtain t1 q1 where t1: "(t1, q1) \<in> entries A P" "j k = Some (entry_off t1 q1)"
      "entry_version (mem sm s) p \<le> entry_version (mem sm t1) q1"
      using n s unfolding newest_def by blast
    obtain t2 q2 where t2: "(t2, q2) \<in> entries A P" "entry_off t1 q1 = entry_off t2 q2" "entry_id (mem sm t2) q2 = k"
      "\<not> entry_to_delete (mem sm t2) q2"
      using n t1(2) unfolding newest_def by blast
    then have e: "t2 = t1" "q2 = q1"
      using entries_off_eq [OF lo t1(1) t2(1,2)] by simp_all
    have u: "\<not> entry_to_delete (mem sm t1) q1" "entry_id (mem sm t1) q1 = k"
      using t2(3,4) by (simp_all add: e)
    obtain t3 q3 where t3: "(t3, q3) \<in> entries A P" "i k = Some (entry_off t3 q3)"
      "(t3, q3) = (t1, q1) \<or> entry_version (mem sm t1) q1 < entry_version (mem sm t3) q3"
      by (rule tidyE [OF t t1(1) _ u(1)]) (use u(2) in auto)
    have "entry_off t3 q3 = entry_off s p"
      using t3(2) Some s(2) by simp
    then have "t3 = s" "q3 = p"
      using entries_off_eq [OF lo t3(1) s(1)] by simp_all
    with t3(3) t1(3) have "(t1, q1) = (s, p)" by auto
    then show ?thesis
      using t1(2) Some s(2) by simp
  qed
qed

lemma contents_index_cong: "segs st' = segs st \<Longrightarrow> index E st' = index E st \<Longrightarrow> contents E st' = contents E st"
  using entry_at_cong [of st' st] by (intro ext) (simp add: contents_def cong: option.case_cong)

lemma recover_run:
  assumes E: "glib_ok E" and ok: "heap_ok E st A P Q" and c: "cleaner_segments (plog st) = 0"
  obtains st' where "reconstruct_hash_table E (crash E st) = Some st'" "index_step (crash E st) st'"
    "newest (segs st) (index E st') (entries A P)" "heap_ok E st' A P Q" "held st' = {}" "segs st' = segs st"
proof -
  note lo = heap_okD(1,2) [OF ok]
  have lo': "lists_ok (plog (crash E st)) (segs (crash E st)) A" "layout_ok (plog (crash E st)) (segs (crash E st)) A P Q"
    "cleaner_segments (plog (crash E st)) = 0" "index E (crash E st) = Map.empty"
    using lo c glib_okD(1) [OF E] by (simp_all add: crash_def)
  obtain st' where st': "reconstruct_hash_table E (crash E st) = Some st'" "index_step (crash E st) st'"
    "newest (segs (crash E st)) (index E st') (entries A P)"
    using reconstruct_newest [OF E lo'] by blast
  have same: "plog st' = plog st" "segs st' = segs st" "held st' = {}"
    using index_stepD [OF st'(2)] by (simp_all add: crash_def)
  have n: "newest (segs st) (index E st') (entries A P)"
    using st'(3) by (simp add: crash_def)
  then have "entry_of (segs st) A P k off" if "index E st' k = Some off" for k off
    using that unfolding newest_def entry_of_entries by blast
  then have "heap_ok E st' A P Q"
    using lo same by (simp add: heap_ok_def locks_free_def)
  with st' n same show ?thesis by (intro that)
qed

lemma recover_core:
  assumes E: "glib_ok E" and ok: "okay b E cs st" and c: "cleaner_segments (plog st) = 0"
  shows "\<exists>st'. reconstruct_hash_table E (crash E st) = Some st' \<and> okay b E [] st' \<and> consistent st' = consistent st \<and>
    (b \<longrightarrow> index E st' = index E st \<and> contents E st' = contents E st)"
proof -
  from ok obtain A P Q where sok: "state_ok b E st A P Q {} {}" and held: "held st = {}" by (rule okayE)
  note hok = state_okD(1) [OF sok]
  obtain st' where st': "reconstruct_hash_table E (crash E st) = Some st'" "index_step (crash E st) st'"
    "newest (segs st) (index E st') (entries A P)" "heap_ok E st' A P Q" "held st' = {}" "segs st' = segs st"
    by (rule recover_run [OF E hok c]) blast
  have i: "index E st' = index E st" if b
    by (rule newest_tidy [OF heap_okD(1,2) [OF hok] state_okD(2) [OF sok that] heap_okD(4) [OF hok] st'(3)])
  moreover have "contents E st' = contents E st" if b
    by (rule contents_index_cong [OF st'(6) i [OF that]])
  moreover have "state_ok b E st' A P Q {} {}"
    using st'(4) i state_okD(2,3) [OF sok] by (simp add: state_ok_def st'(6))
  ultimately show ?thesis
    using st'(1) okayI [OF _ _ st'(5)] index_stepD [OF st'(2)] by (auto simp: crash_def)
qed

lemma recover_shadowed:
  assumes E: "glib_ok E" and sh: "shadowed E st n" and c: "cleaner_segments (plog st) = 0"
    and r: "reconstruct_hash_table E (crash E st) = Some st'"
  shows "contents E st' n \<noteq> None"
proof -
  obtain A P Q t q where ok: "heap_ok E st A P Q" and t: "(t, q) \<in> entries A P" "entry_id (mem (segs st) t) q = n"
    "\<not> entry_to_delete (mem (segs st) t) q"
    using sh by (auto simp: shadowed_def)
  obtain st'' where st': "reconstruct_hash_table E (crash E st) = Some st''" "newest (segs st) (index E st'') (entries A P)"
    "heap_ok E st'' A P Q"
    by (rule recover_run [OF E ok c]) blast
  then have "index E st' n \<noteq> None"
    using t r unfolding newest_def by fastforce
  then show ?thesis
    using contents_None [of E st' A P Q n] st'(1,3) r by (simp add: gh_map_None hash_table_contains_def)
qed

section \<open>A cleaner segment stops the reconstruction\<close>

text \<open>
  C18: After an irregular termination that left a cleaner segment, the reconstruction of the index never
  returns: the loop over the cleaner segments computes the successor and drops it
  (\<^verbatim>\<open>hash_table.c\<close>, line 92).
\<close>

theorem reconstruct_hangs:
  assumes "cleaner_segments (plog st) \<noteq> 0"
  shows "reconstruct_hash_table E st = None"
proof (rule ccontr)
  let ?head = "\<lambda>st. if head_segment (plog st) = 0 then Some st else do {
    g \<leftarrow> get_seg st (head_segment (plog st));
    scan_head E (head_segment (plog st)) (log_entries g) (head_position (plog st)) 0 st }"
  assume "reconstruct_hash_table E st \<noteq> None"
  then obtain r where "reconstruct_hash_table E st = Some r" by blast
  then obtain st1 st2 st3 where 1: "scan_used_list E (used_segments (plog st)) st = Some st1"
    and 2: "?head st1 = Some st2" and 3: "scan_cleaner_list E (cleaner_segments (plog st2)) st2 = Some st3"
    unfolding reconstruct_hash_table_def by (elim bind_SomeE)
  have "index_step st1 st2"
    using 2 by (auto simp: bind_eq_Some_conv split: if_splits dest: scan_head_index)
  with scan_used_list_index [OF 1] have "plog st2 = plog st"
    by (simp add: index_stepD)
  with 3 assms scan_cleaner_list_hangs [of "cleaner_segments (plog st2)" E st2] show False by simp
qed

text \<open>
  C10: After a crash of a heap that is in order, at any moment between two operations and with no cleaner
  segment, the reconstruction returns and restores the index, and with it every object.
\<close>

theorem recovery_restores_objects:
  assumes "glib_ok E" and "sound E cs st" and "cleaner_segments (plog st) = 0"
  shows "\<exists>st'. reconstruct_hash_table E (crash E st) = Some st' \<and> sound E [] st' \<and>
    index E st' = index E st \<and> contents E st' = contents E st"
  using recover_core [OF assms] by auto

text \<open>
  C20: \<^verbatim>\<open>pfree\<close> marks only the newest entry.  An object that has been updated and then freed is
  back after a crash, because the reconstruction finds its older entry
  (\<^verbatim>\<open>log_pmem.c\<close>, lines 248 to 249).
\<close>

theorem freed_object_returns:
  assumes "glib_ok E" and "heap E cs st" and "consistent st" and "data \<noteq> []" and "length data \<le> max_data"
    and "contents E st n \<noteq> None" and "room st (length data)"
    and "update_data E True st n data = Some (failed, st1)" and "pfree E st1 n = Some st2"
    and "cleaner_segments (plog st2) = 0" and "reconstruct_hash_table E (crash E st2) = Some st3"
  shows "contents E st2 n = None \<and> contents E st3 n \<noteq> None"
proof -
  from update_core [OF assms(1-6)] assms(7,8) have st1: "heap E cs st1" "shadowed E st1 n" "contents E st1 n \<noteq> None"
    by auto
  then have "held st1 = {}" by (simp add: okay_def)
  then obtain st2' where "pfree E st1 n = Some st2'" "shadowed E st2' n"
    by (rule pfree_shadowed [OF assms(1) st1(2) _ st1(3)])
  moreover obtain st2'' where "pfree E st1 n = Some st2''" "contents E st2'' = (contents E st1)(n := None)"
    using pfree_core [OF assms(1) st1(1,3)] by auto
  ultimately show ?thesis
    using assms(9) recover_shadowed [OF assms(1) _ assms(10,11)] by simp
qed

end
