(* ===== verification/Threads.thy ===== *)
theory Threads
  imports Cleaning Recovery
begin

text \<open>
  The cleaner threads: which segments they start with, how a thread finds the end of the entries of a
  cleaner segment that an earlier run has left, and what it does when the heap has no segment for it.
\<close>

section \<open>A thread that starts with a new segment\<close>

lemma start_run:
  assumes sok: "state_ok b E st A P Q D X" and held: "held st = {}" and th: "threads_at cs A Q"
    and av: "free_segments (plog st) \<noteq> 0 \<or> emergency_cleaner_segments (plog st) \<noteq> 0"
  obtains c st' A' P' Q' where "start_cleaner E regular 0 st = Some (c, st')" "state_ok b E st' A' P' Q' D X" "held st' = {}"
    "threads_at (c # cs) A' Q'" "used_frame A P Q A' P' Q'" "same_marks st st'" "contents E st' = contents E st"
    "consistent st' = consistent st"
proof -
  note hok = state_okD(1) [OF sok]
  let ?f = "abs_cleaner_choice A"
  have av': "avail A \<noteq> {}"
    using avail_iff [OF heap_okD(1) [OF hok]] av by simp
  obtain st' where st': "get_new_cleaner_segment E st = Some (?f, st')"
    "log_step st A P Q st' (abs_new_cleaner A) (take_P A P) (take_Q A Q)" "same_used A st st'"
    by (rule new_cleaner_step [OF hok av']) blast
  note ch = choice_avail [OF av'] and ok' = state_ok_step [OF sok st'(2,3)]
  have f: "?f \<noteq> 0" "?f \<notin> set (l_cleaner A)" "?f \<notin> set (l_used A)"
    using lists_ok_dom [OF heap_okD(1) [OF hok]] ch(1) lists_okD(6) [OF heap_okD(1) [OF hok]]
    by (auto simp: all_segs_split, auto simp: avail_def all_segs_def)
  have fr: "list_frame st st'" using st'(2) by (simp add: log_step_def)
  have "threads_at (\<lparr>cl_seg = ?f, cl_pos = 0\<rparr> # cs) (abs_new_cleaner A) (take_Q A Q)"
    using th f(2) ch(3) by (auto simp: threads_at_def cleaner_at_def take_Q_def)
  moreover have "used_frame A P Q (abs_new_cleaner A) (take_P A P) (take_Q A Q)"
    using f(3) ch(4,6) by (auto simp: used_frame_def take_P_def take_Q_def)
  moreover have "start_cleaner E regular 0 st = Some (\<lparr>cl_seg = ?f, cl_pos = 0\<rparr>, st')"
    using st'(1) f(1) by (simp add: start_cleaner_def)
  ultimately show ?thesis
    using that [OF _ ok'(1)] ok'(2) list_frame_held [OF fr] list_frame_marks [OF fr] held by simp
qed

lemma start_new_core:
  assumes ok: "okay b E cs st" and av: "free_segments (plog st) \<noteq> 0 \<or> emergency_cleaner_segments (plog st) \<noteq> 0"
  shows "\<exists>c st'. start_cleaner E regular 0 st = Some (c, st') \<and> okay b E (c # cs) st' \<and> contents E st' = contents E st \<and>
    consistent st' = consistent st"
proof -
  from ok obtain A P Q where sok: "state_ok b E st A P Q {} {}" "held st = {}" and th: "threads_at cs A Q"
    by (rule okayE) blast
  show ?thesis
    by (rule start_run [OF sok th av]) (blast intro: okayI)
qed

section \<open>A thread that resumes with a segment of an earlier run\<close>

text \<open>
  After a regular termination the scan reads only.  It goes on while the position is below the used
  space plus the size of the marked entries before it.
\<close>

lemma unat_add_small: "unat w + n \<le> area_size \<Longrightarrow> unat (w + word_of_nat n) = unat w + n" for w :: u64
  by (subst unat_add_lem [THEN iffD1])
    (simp_all add: unsigned_of_nat take_bit_nat_eq_self SEGMENT_SIZE_def sizeof_segment_def)

lemma resume_entries_live:
  assumes s: "segs st s = Some g" "s \<noteq> 0"
  shows "lay (log_entries g) p ps q \<Longrightarrow> q \<le> area_size \<Longrightarrow>
    unat (used_space g) + freed = p + (\<Sum>y \<in> {y \<in> set ps. \<not> entry_to_delete (log_entries g) y}. entry_size (log_entries g) y) \<Longrightarrow>
    \<exists>p' xs ys. resume_entries E True s p freed st = Some (p', st) \<and> ps = xs @ ys \<and> lay (log_entries g) p xs p' \<and>
      (\<forall>y \<in> set ys. entry_to_delete (log_entries g) y)"
proof (induction ps arbitrary: p freed)
  case Nil
  then show ?case
    using s unat_add_small [of "used_space g" freed] by (subst resume_entries.simps) (auto simp: get_seg_def)
next
  case (Cons x xs)
  let ?m = "log_entries g" and ?U = "\<lambda>ys. \<Sum>y \<in> {y \<in> set ys. \<not> entry_to_delete (log_entries g) y}. entry_size (log_entries g) y"
  from Cons.prems(1) have x: "x = p" "0 < entry_length ?m p" "p + entry_size ?m p \<le> area_size" "lay ?m (p + entry_size ?m p) xs q"
    by auto
  have px: "p \<notin> set xs"
    using lay_mem [OF x(4)] entry_size_ge [of ?m p] by fastforce
  have "{y \<in> set (p # xs). \<not> entry_to_delete ?m y} =
      (if entry_to_delete ?m p then {y \<in> set xs. \<not> entry_to_delete ?m y} else insert p {y \<in> set xs. \<not> entry_to_delete ?m y})"
    by auto
  then have U: "?U (p # xs) = (if entry_to_delete ?m p then ?U xs else entry_size ?m p + ?U xs)"
    using px by simp
  have "?U (x # xs) \<le> (\<Sum>y \<in> set (x # xs). entry_size ?m y)"
    by (rule sum_mono2) auto
  then have "unat (used_space g) + freed \<le> area_size"
    using Cons.prems(2,3) lay_sum [OF Cons.prems(1)] by linarith
  note wrap = unat_add_small [OF this]
  show ?case
  proof (cases "p < unat (used_space g) + freed")
    case False
    then have "?U (x # xs) = 0"
      using Cons.prems(3) by simp
    then have "\<forall>y \<in> set (x # xs). entry_to_delete ?m y"
      by (auto simp: entry_size_def)
    moreover have "resume_entries E True s p freed st = Some (p, st)"
      using False s wrap by (subst resume_entries.simps) (simp add: get_seg_def)
    ultimately show ?thesis
      by (intro exI [of _ p] exI [of _ "[]"] exI [of _ "x # xs"]) simp
  next
    case True
    let ?f = "if entry_to_delete ?m p then freed + entry_size ?m p else freed"
    have "unat (used_space g) + ?f = p + entry_size ?m p + ?U xs"
      using Cons.prems(3) U x(1) by (simp split: if_splits)
    then obtain p' ys zs where r: "resume_entries E True s (p + entry_size ?m p) ?f st = Some (p', st)" "xs = ys @ zs"
      "lay ?m (p + entry_size ?m p) ys p'" "\<forall>y \<in> set zs. entry_to_delete ?m y"
      using Cons.IH [OF x(4) Cons.prems(2)] by blast
    have "resume_entries E True s p freed st = Some (p', st)"
      using True s x(3) r(1) wrap
      by (cases "entry_to_delete ?m p") (subst resume_entries.simps, simp add: get_seg_def Let_def entry_size_def)+
    then show ?thesis
      using r x by (intro exI [of _ p'] exI [of _ "x # ys"] exI [of _ zs]) simp
  qed
qed

text \<open>Marked entries at the end of a cleaner segment may be forgotten.\<close>

lemma state_ok_cut:
  assumes ok: "state_ok b E st A P Q {} {}" and s: "s \<in> set (l_cleaner A)" "P s = xs @ ys" "lay (mem (segs st) s) 0 xs q"
    and y: "\<forall>y \<in> set ys. entry_to_delete (mem (segs st) s) y"
  shows "state_ok b E st A (P(s := xs)) (Q(s := q)) {} {}"
proof -
  note hok = state_okD(1) [OF ok]
  note lo = heap_okD(1,2) [OF hok]
  let ?P = "P(s := xs)"
  have n: "s \<notin> set (l_head A)" "s \<notin> set (l_used A)"
    using s(1) lists_okD(6) [OF lo(1)] by (auto simp: all_segs_def)
  have en: "(t, p) \<in> entries A P \<and> \<not> entry_to_delete (mem (segs st) t) p \<longleftrightarrow>
      (t, p) \<in> entries A ?P \<and> \<not> entry_to_delete (mem (segs st) t) p" for t p
    using y s(2) by (auto simp: entries_def)
  have sub: "entries A ?P \<subseteq> entries A P"
    using s(2) by (auto simp: entries_def split: if_splits)
  have lo': "layout_ok (plog st) (segs st) A ?P (Q(s := q))"
    using lo(2) n s(3) by (auto simp: layout_ok_def)
  have eo: "entry_of (segs st) A ?P k off \<longleftrightarrow> entry_of (segs st) A P k off" for k off
    unfolding entry_of_entries using en by blast
  then have hok': "heap_ok E st A ?P (Q(s := q))"
    using hok lo' by (simp add: heap_ok_def)
  have "tidy (segs st) (index E st) A ?P {}" if t: "tidy (segs st) (index E st) A P {}"
  proof (rule tidyI)
    fix t1 p1
    assume a: "(t1, p1) \<in> entries A ?P - {}" "\<not> entry_to_delete (mem (segs st) t1) p1"
    then have e: "(t1, p1) \<in> entries A P" "(t1, p1) \<notin> {}" using sub by auto
    show "0 < entry_version (mem (segs st) t1) p1 \<and> (\<exists>t q. (t, q) \<in> entries A ?P - {} \<and>
        entry_id (mem (segs st) t) q = entry_id (mem (segs st) t1) p1 \<and> index E st (entry_id (mem (segs st) t1) p1) = Some (entry_off t q) \<and>
        ((t, q) = (t1, p1) \<or> entry_version (mem (segs st) t1) p1 < entry_version (mem (segs st) t) q))"
    proof (rule tidyE [OF t e a(2)])
      fix t2 q2
      assume x: "0 < entry_version (mem (segs st) t1) p1" "(t2, q2) \<in> entries A P"
        "entry_id (mem (segs st) t2) q2 = entry_id (mem (segs st) t1) p1"
        "index E st (entry_id (mem (segs st) t1) p1) = Some (entry_off t2 q2)"
        "(t2, q2) = (t1, p1) \<or> entry_version (mem (segs st) t1) p1 < entry_version (mem (segs st) t2) q2"
      obtain t3 q3 where e3: "(t3, q3) \<in> entries A P" "entry_off t2 q2 = entry_off t3 q3" "\<not> entry_to_delete (mem (segs st) t3) q3"
        using heap_okD(4) [OF hok x(4)] by (auto simp: entry_of_entries)
      then have "\<not> entry_to_delete (mem (segs st) t2) q2"
        using entries_off_eq [OF lo x(2) e3(1,2)] by simp
      then have "(t2, q2) \<in> entries A ?P" using en x(2) by blast
      with x show ?thesis
        by (intro conjI ex2I [where a = t2 and b = q2]) simp_all
    qed
  qed simp_all
  moreover have "used_ok (segs st) (index E st) A ?P {}" if u: "used_ok (segs st) (index E st) A P {}"
  proof -
    have "live (segs st) (index E st) ?P t = live (segs st) (index E st) P t" if t: "t \<in> set (data_segs A)" for t
    proof (cases "t = s")
      case True
      have "p \<notin> set ys" if p: "p \<in> set (P s)" "index E st (entry_id (mem (segs st) s) p) = Some (entry_off s p)" for p
      proof -
        have sp: "(s, p) \<in> entries A P"
          using p(1) t True by (simp add: entries_def)
        obtain t3 q3 where e3: "(t3, q3) \<in> entries A P" "entry_off s p = entry_off t3 q3" "\<not> entry_to_delete (mem (segs st) t3) q3"
          using heap_okD(4) [OF hok p(2)] by (auto simp: entry_of_entries)
        then show ?thesis
          using entries_off_eq [OF lo sp e3(1,2)] y by auto
      qed
      then show ?thesis
        using True s(2) by (auto simp: live_def)
    qed (simp add: live_def)
    then show ?thesis
      using u by (simp add: used_ok_def live_bytes_def)
  qed
  ultimately show ?thesis
    using ok hok' by (simp add: state_ok_def)
qed

text \<open>
  A cleaner segment is settled if the index points to each of its entries that is not marked: no
  object there has been updated since.  Only then the used space tells where the entries end.
\<close>

definition settled :: "('h, 'd) env \<Rightarrow> ('h, 'd) pmem \<Rightarrow> (pmo \<Rightarrow> nat list) \<Rightarrow> pmo \<Rightarrow> bool" where
  "settled E st P s \<longleftrightarrow> (\<forall>p \<in> set (P s). \<not> entry_to_delete (mem (segs st) s) p \<longrightarrow>
     index E st (entry_id (mem (segs st) s) p) = Some (entry_off s p))"

lemma resume_core:
  assumes ok: "state_ok True E st A P Q {} {}" and th: "threads_at cs A Q" and held: "held st = {}"
    and s: "s \<in> set (l_cleaner A)" "s \<notin> cl_seg ` set cs" and fixed: "settled E st P s"
  shows "\<exists>c. start_cleaner E True s st = Some (c, st) \<and> cl_seg c = s \<and> okay True E (c # cs) st"
proof -
  note hok = state_okD(1) [OF ok]
  note lo = heap_okD(1,2) [OF hok]
  have d: "s \<in> set (data_segs A)"
    using s(1) by (simp add: data_segs_def)
  obtain g where g: "segs st s = Some g" "s \<noteq> 0" "lay (log_entries g) 0 (P s) (Q s)" "Q s \<le> area_size"
    by (rule layout_seg [OF lo d]) (use lists_ok_dom [OF lo(1)] d data_segs_sub in auto)
  have m: "mem (segs st) s = log_entries g"
    using g(1) by simp
  have "live (segs st) (index E st) P s = {y \<in> set (P s). \<not> entry_to_delete (log_entries g) y}"
    using live_unmarked [OF hok d] fixed m by (auto simp: live_def settled_def)
  moreover have "unat (used_of (segs st) s) = live_bytes (segs st) (index E st) P s"
    using state_okD(3) [OF ok] d by (simp only: used_ok_def) auto
  ultimately have u: "unat (used_space g) = (\<Sum>y \<in> {y \<in> set (P s). \<not> entry_to_delete (log_entries g) y}. entry_size (log_entries g) y)"
    using g(1) m by (simp only: live_bytes_def) (simp add: used_of_def)
  have "\<exists>p' xs ys. (if used_space g \<noteq> 0 then resume_entries E True s 0 0 st else Some (0, st)) = Some (p', st) \<and>
      P s = xs @ ys \<and> lay (log_entries g) 0 xs p' \<and> (\<forall>y \<in> set ys. entry_to_delete (log_entries g) y)"
  proof (cases "used_space g = 0")
    case True
    then have "\<forall>y \<in> set (P s). entry_to_delete (log_entries g) y"
      using u by (auto simp: entry_size_def)
    then show ?thesis
      using True by (intro exI [of _ 0] exI [of _ "[]"] exI [of _ "P s"]) simp
  next
    case False
    then show ?thesis
      using resume_entries_live [OF g(1,2,3,4), of 0] u by simp
  qed
  then obtain p' xs ys where r: "(if used_space g \<noteq> 0 then resume_entries E True s 0 0 st else Some (0, st)) = Some (p', st)"
    "P s = xs @ ys" "lay (log_entries g) 0 xs p'" "\<forall>y \<in> set ys. entry_to_delete (log_entries g) y"
    by blast
  let ?c = "\<lparr>cl_seg = s, cl_pos = p'\<rparr>"
  have "threads_at (?c # cs) A (Q(s := p'))"
    using th s by (auto simp: threads_at_def cleaner_at_def)
  then have "okay True E (?c # cs) st"
    using okayI [OF state_ok_cut [OF ok s(1) r(2)]] r(3,4) held m by simp
  moreover have "start_cleaner E True s st = Some (?c, st)"
    using g(1,2) r(1) by (simp add: start_cleaner_def get_seg_def)
  ultimately show ?thesis by auto
qed

text \<open>
  Otherwise the scan stops too early, and the thread goes on to append over live entries: a regular
  start after an update, and an irregular start after any deletion, because the space of an entry that
  is already deleted is subtracted a second time.
\<close>

lemma resume_short_regular:
  assumes g: "segs st s = Some g" "s \<noteq> 0" and x: "\<not> entry_to_delete (log_entries g) 0"
    and u: "used_space g \<noteq> 0" "unat (used_space g) \<le> entry_size (log_entries g) 0"
  shows "start_cleaner E True s st = Some (\<lparr>cl_seg = s, cl_pos = entry_size (log_entries g) 0\<rparr>, st)"
proof -
  have "0 < unat (used_space g)"
    using u(1) by (simp add: unat_gt_0)
  then have "resume_entries E True s 0 0 st = Some (entry_size (log_entries g) 0, st)"
    using g x u resume_entries.simps [of E True s 0 0 st] resume_entries.simps [of E True s "entry_size (log_entries g) 0" 0 st]
    by (simp add: get_seg_def SEGMENT_SIZE_def)
  then show ?thesis
    using g u by (simp add: start_cleaner_def get_seg_def)
qed

lemma resume_short_irregular:
  assumes g: "segs st s = Some g" "s \<noteq> 0"
    and x: "get_from_hash_table E st (entry_id (log_entries g) 0) \<noteq> entry_off s 0"
    and u: "used_space g \<noteq> 0" "unat (used_space g) \<le> entry_size (log_entries g) 0"
      "entry_size (log_entries g) 0 \<le> area_size"
  shows "\<exists>st'. start_cleaner E False s st = Some (\<lparr>cl_seg = s, cl_pos = entry_size (log_entries g) 0\<rparr>, st')"
proof -
  let ?n = "entry_size (log_entries g) 0"
  obtain st' where st': "upd_seg s (\<lambda>s. s\<lparr>log_entries := patch (log_entries s) 24 [1], used_space := used_space s - word_of_nat ?n\<rparr>) st = Some st'"
    "segs st' s = Some (g\<lparr>log_entries := patch (log_entries g) 24 [1], used_space := used_space g - word_of_nat ?n\<rparr>)"
    using g by (simp add: upd_seg_def get_seg_def)
  have "0 < unat (used_space g)"
    using u(1) by (simp add: unat_gt_0)
  then have "resume_entries E False s 0 0 st = Some (?n, st')"
    using g x u st' resume_entries.simps [of E False s 0 0 st] resume_entries.simps [of E False s ?n ?n st']
    by (simp add: get_seg_def SEGMENT_SIZE_def)
  then show ?thesis
    using g u by (simp add: start_cleaner_def get_seg_def)
qed

section \<open>The properties of the threads\<close>

text \<open>
  A thread that starts without a segment returns with one of its own, if there is a free or an
  emergency segment, and the heap is as before but for the lists.
\<close>

lemma thread_starts:
  assumes "okay b E cs st" and "free_segments (plog st) \<noteq> 0 \<or> emergency_cleaner_segments (plog st) \<noteq> 0"
  shows "\<exists>c st'. start_cleaner E regular 0 st = Some (c, st') \<and> okay b E (c # cs) st' \<and> contents E st' = contents E st"
  using start_new_core [OF assms, of regular] by blast

text \<open>
  C25: A thread that resumes with a cleaner segment of the run before, after a regular termination, finds a
  position at which it can go on, if none of the objects there has been updated since: the heap stays
  in order with the new thread.
\<close>

theorem thread_resumes:
  assumes "state_ok True E st A P Q {} {}" and "threads_at cs A Q" and "held st = {}"
    and "s \<in> set (l_cleaner A)" and "s \<notin> cl_seg ` set cs" and "settled E st P s"
  shows "\<exists>c. start_cleaner E True s st = Some (c, st) \<and> cl_seg c = s \<and> sound E (c # cs) st"
  by (rule resume_core [OF assms])



end
