(* ===== verification/Simulation.thy ===== *)
theory Simulation
  imports Prelude
begin

text \<open>
  Sequences of commands against a specification.  A command is run by \<open>exec\<close>, which returns a
  reply and the new state, and specified by \<open>spec\<close>, which maps the abstract state to the new
  one, or to \<open>None\<close> if the reply is not one the command may give.  The locale
  \<open>simulates\<close> is the contract between an implementation and its clients: each admissible
  command returns, with an allowed reply, and the states stay related.  What it gives the clients holds
  for whole runs.
\<close>

section \<open>Runs\<close>

fun run :: "('c \<Rightarrow> 's \<Rightarrow> ('r \<times> 's) option) \<Rightarrow> 'c list \<Rightarrow> 's \<Rightarrow> ('r list \<times> 's) option" where
  "run exec [] s = Some ([], s)"
| "run exec (c # cs) s = do {
     (r, s) \<leftarrow> exec c s;
     (rs, s) \<leftarrow> run exec cs s;
     Some (r # rs, s)
   }"

fun spec_run :: "('c \<Rightarrow> 'r \<Rightarrow> 'a \<Rightarrow> 'a option) \<Rightarrow> 'c list \<Rightarrow> 'r list \<Rightarrow> 'a \<Rightarrow> 'a option" where
  "spec_run spec (c # cs) (r # rs) a = spec c r a \<bind> spec_run spec cs rs"
| "spec_run spec [] [] a = Some a"
| "spec_run spec _ _ a = None"

text \<open>Commands are admissible if the precondition of each holds whatever the replies before it are.\<close>

primrec admissible :: "('c \<Rightarrow> 'a \<Rightarrow> bool) \<Rightarrow> ('c \<Rightarrow> 'r \<Rightarrow> 'a \<Rightarrow> 'a option) \<Rightarrow> 'c list \<Rightarrow> 'a \<Rightarrow> bool" where
  "admissible pre spec [] a = True"
| "admissible pre spec (c # cs) a =
     (pre c a \<and> (\<forall>r a'. spec c r a = Some a' \<longrightarrow> admissible pre spec cs a'))"

lemma run_append: "run exec (cs @ ds) s = do {
    (rs, s) \<leftarrow> run exec cs s; (qs, s) \<leftarrow> run exec ds s; Some (rs @ qs, s) }"
  by (induction cs arbitrary: s) (simp_all add: bind_assoc split_def cong: Option.bind_cong)

lemma spec_run_length: "spec_run spec cs rs a = Some a' \<Longrightarrow> length rs = length cs"
  by (induction spec cs rs a rule: spec_run.induct) (auto elim: bind_SomeE)

section \<open>The contract\<close>

locale simulates =
  fixes rel :: "'s \<Rightarrow> 'a \<Rightarrow> bool" and pre :: "'c \<Rightarrow> 'a \<Rightarrow> bool"
    and exec :: "'c \<Rightarrow> 's \<Rightarrow> ('r \<times> 's) option" and spec :: "'c \<Rightarrow> 'r \<Rightarrow> 'a \<Rightarrow> 'a option"
  assumes sim: "rel s a \<Longrightarrow> pre c a \<Longrightarrow>
    \<exists>r s' a'. exec c s = Some (r, s') \<and> spec c r a = Some a' \<and> rel s' a'"
begin

lemma run_returns:
  "rel s a \<Longrightarrow> admissible pre spec cs a \<Longrightarrow>
   \<exists>rs s' a'. run exec cs s = Some (rs, s') \<and> spec_run spec cs rs a = Some a' \<and> rel s' a'"
proof (induction cs arbitrary: s a)
  case (Cons c cs)
  then obtain r s1 a1 where c: "exec c s = Some (r, s1)" "spec c r a = Some a1" "rel s1 a1"
    using sim [of s a c] by auto
  moreover obtain rs s' a' where "run exec cs s1 = Some (rs, s')" "spec_run spec cs rs a1 = Some a'" "rel s' a'"
    using Cons.IH [OF c(3)] Cons.prems(2) c(2) by auto
  ultimately show ?case by (intro exI [of _ "r # rs"]) simp
qed simp

lemma run_sound:
  assumes "rel s a" and "admissible pre spec cs a" and "run exec cs s = Some (rs, s')"
  obtains a' where "spec_run spec cs rs a = Some a'" "rel s' a'"
  using run_returns [OF assms(1,2)] assms(3) by auto

end

text \<open>If every command keeps a quantity of the abstract state, so does every run.\<close>

locale conserves = simulates rel pre exec spec
  for rel :: "'s \<Rightarrow> 'a \<Rightarrow> bool" and pre :: "'c \<Rightarrow> 'a \<Rightarrow> bool"
    and exec :: "'c \<Rightarrow> 's \<Rightarrow> ('r \<times> 's) option" and spec :: "'c \<Rightarrow> 'r \<Rightarrow> 'a \<Rightarrow> 'a option" +
  fixes amount :: "'a \<Rightarrow> 'm"
  assumes kept: "pre c a \<Longrightarrow> spec c r a = Some a' \<Longrightarrow> amount a' = amount a"
begin

lemma spec_run_kept:
  "admissible pre spec cs a \<Longrightarrow> spec_run spec cs rs a = Some a' \<Longrightarrow> amount a' = amount a"
proof (induction cs arbitrary: rs a)
  case Nil
  then show ?case by (cases rs) simp_all
next
  case (Cons c cs)
  then obtain r rs' a1 where "rs = r # rs'" "spec c r a = Some a1" "spec_run spec cs rs' a1 = Some a'"
    by (cases rs) (auto elim: bind_SomeE)
  moreover from this Cons.prems(1) have "admissible pre spec cs a1" "amount a1 = amount a"
    using kept [of c a r a1] by simp_all
  ultimately show ?case
    using Cons.IH [of a1 rs'] by simp
qed

lemma run_kept:
  assumes "rel s a" and "admissible pre spec cs a"
  shows "\<exists>rs s' a'. run exec cs s = Some (rs, s') \<and> spec_run spec cs rs a = Some a' \<and> rel s' a' \<and> amount a' = amount a"
  using run_returns [OF assms] spec_run_kept [OF assms(2)] by blast

end

end
