(* ===== verification/Object_Store.thy ===== *)
theory Object_Store
  imports Simulation Heap_Map
begin

text \<open>
  The heap as an object store: the commands of the interface simulate a finite map from ids to byte
  strings.  The hash table of GLib is a parameter; the locale \<open>glib\<close> states what the code
  relies on, and the simulation holds for every such table.
\<close>

section \<open>Commands\<close>

datatype store_cmd = Alloc "byte list" | Put u64 "byte list" | Update u64 "byte list" | Free u64

datatype store_reply = Id u64 | Error bool | Done

fun store_exec :: "('h, 'd) env \<Rightarrow> store_cmd \<Rightarrow> ('h, 'd) pmem \<Rightarrow> (store_reply \<times> ('h, 'd) pmem) option" where
  "store_exec E (Alloc d) st = map_option (apfst Id) (palloc E True st d)"
| "store_exec E (Put n d) st = map_option (apfst Error) (palloc_with_id E True st n d)"
| "store_exec E (Update n d) st = map_option (apfst Error) (update_data E True st n d)"
| "store_exec E (Free n) st = map_option (Pair Done) (pfree E st n)"

text \<open>
  The data has to be there and to fit into a segment, which the code does not check, and an
  allocation needs an id that is not in use.
\<close>

fun store_pre :: "store_cmd \<Rightarrow> (u64 \<rightharpoonup> byte list) \<Rightarrow> bool" where
  "store_pre (Alloc d) m = (d \<noteq> [] \<and> length d \<le> max_data \<and> (\<exists>j. j \<noteq> 0 \<and> m j = None))"
| "store_pre (Put n d) m = (d \<noteq> [] \<and> length d \<le> max_data)"
| "store_pre (Update n d) m = (d \<noteq> [] \<and> length d \<le> max_data)"
| "store_pre (Free n) m = True"

text \<open>A command that fails leaves the objects as they were; updating an unknown id fails.\<close>

fun store_spec :: "store_cmd \<Rightarrow> store_reply \<Rightarrow> (u64 \<rightharpoonup> byte list) \<Rightarrow> (u64 \<rightharpoonup> byte list) option" where
  "store_spec (Alloc d) (Id n) m =
     (if n = 0 then Some m else if m n = None then Some (m(n \<mapsto> d)) else None)"
| "store_spec (Put n d) (Error failed) m = Some (if failed then m else m(n \<mapsto> d))"
| "store_spec (Update n d) (Error failed) m =
     (if m n = None \<and> \<not> failed then None else Some (if failed then m else m(n \<mapsto> d)))"
| "store_spec (Free n) Done m = Some (m(n := None))"
| "store_spec _ _ m = None"

definition store_rel ::
  "('h, 'd) env \<Rightarrow> cleaner list \<Rightarrow> ('h, 'd) pmem \<Rightarrow> (u64 \<rightharpoonup> byte list) \<Rightarrow> bool" where
  "store_rel E cs st m \<longleftrightarrow> heap E cs st \<and> consistent st \<and> contents E st = m"

section \<open>Simulation\<close>

lemma update_missing:
  assumes E: "glib_ok E" and ok: "okay b E cs st" and c: "consistent st" and d: "data \<noteq> []" and n: "contents E st n = None"
  shows "update_data E True st n data = Some (True, st)"
proof -
  from ok obtain A P Q where sok: "state_ok b E st A P Q {} {}" and held: "held st = {}"
    by (rule okayE)
  have "\<not> gh_contains E (hash_table st) n"
    using n contents_None [OF state_okD(1) [OF sok], of n] by (simp add: hash_table_contains_def)
  then have "get_from_hash_table E (st\<lparr>held := H\<rparr>) n = 0" for H
    using glib_okD(4) [OF E] by (simp add: get_from_hash_table_def)
  then show ?thesis
    using c d held by (simp add: update_data_def lock_def unlock_def Let_def)
qed

locale glib =
  fixes E :: "('h, 'd) env"
  assumes glib: "glib_ok E"
begin

lemma store_sim:
  assumes "store_rel E cs st m" and "store_pre c m"
  shows "\<exists>r st' m'. store_exec E c st = Some (r, st') \<and> store_spec c r m = Some m' \<and> store_rel E cs st' m'"
proof -
  have ok: "heap E cs st" and c: "consistent st" and m: "m = contents E st"
    using assms(1) by (simp_all add: store_rel_def)
  show ?thesis
  proof (cases c)
    case (Alloc d)
    then obtain j where "d \<noteq> []" "length d \<le> max_data" "j \<noteq> 0" "contents E st j = None"
      using assms(2) m by auto
    from palloc_core [OF glib ok c this] Alloc show ?thesis
      by (auto simp: store_rel_def m split: if_splits)
  next
    case (Put n d)
    then show ?thesis
      using palloc_with_id_core [OF glib ok c, of d n] assms(2) by (auto simp: store_rel_def m)
  next
    case (Update n d)
    then have d: "d \<noteq> []" "length d \<le> max_data"
      using assms(2) by simp_all
    show ?thesis
    proof (cases "contents E st n = None")
      case True
      then show ?thesis
        using update_missing [OF glib ok c d(1) True] Update assms(1) by (simp add: m)
    next
      case False
      obtain failed st' where "update_data E True st n d = Some (failed, st')" "heap E cs st'" "consistent st'"
        "contents E st' = (if failed then contents E st else (contents E st)(n \<mapsto> d))"
        using update_core [OF glib ok c d False] by auto
      then show ?thesis
        using Update False m by (intro exI [of _ "Error failed"] exI [of _ st'] exI [of _ "contents E st'"]) (simp add: store_rel_def)
    qed
  next
    case (Free n)
    show ?thesis
    proof (cases "contents E st n = None")
      case True
      then show ?thesis
        using pfree_missing [OF ok glib True] Free assms(1) by (simp add: m fun_upd_idem)
    next
      case False
      then show ?thesis
        using pfree_core [OF glib ok False] Free c by (auto simp: store_rel_def m)
    qed
  qed
qed

end

sublocale glib \<subseteq> store: simulates "store_rel E cs" store_pre "store_exec E" store_spec for cs
  by unfold_locales (rule store_sim)

context glib
begin

lemma store_runs:
  "store_rel E cs st m \<Longrightarrow> admissible store_pre store_spec cmds m \<Longrightarrow>
   \<exists>rs st' m'. run (store_exec E) cmds st = Some (rs, st') \<and> spec_run store_spec cmds rs m = Some m' \<and> store_rel E cs st' m'"
  by (rule store.run_returns)

end


end
