(* ===== verification/Machine.thy ===== *)
theory Machine
  imports Threads Object_Store
begin

text \<open>
  The running program: the heap and its cleaner threads, in any interleaving of commands of the
  interface, segments cleaned by the threads, threads that start, and crashes followed by a
  recovery.  The steps are the operations that the locks of the code make exclusive.
\<close>

type_synonym ('h, 'd) config = "cleaner list \<times> ('h, 'd) pmem"

datatype event = Command store_cmd store_reply | Cleaned pmo | Started | Crashed

text \<open>
  Two things the interface leaves to its clients keep the heap in order: an update has to find room,
  and only an object that has never been updated may be freed.
\<close>

fun orderly :: "('h, 'd) env \<Rightarrow> ('h, 'd) pmem \<Rightarrow> store_cmd \<Rightarrow> bool" where
  "orderly E st (Alloc d) = True"
| "orderly E st (Put n d) = (contents E st n = None \<or> version_of E st n \<noteq> Some (- 1) \<and> room st (length d))"
| "orderly E st (Update n d) = (contents E st n = None \<or> version_of E st n \<noteq> Some (- 1) \<and> room st (length d))"
| "orderly E st (Free n) = (contents E st n = None \<or> version_of E st n = Some 1)"

text \<open>
  The thread has room for what it will move: in its own segment, or in a new one, and then the rest
  of its own has to be blank, because the code sets no end mark.
\<close>

definition can_move :: "cleaner \<Rightarrow> segment \<Rightarrow> ('h, 'd) pmem \<Rightarrow> bool" where
  "can_move c g st \<longleftrightarrow> cl_pos c + unat (used_space g) \<le> area_size \<or>
     (free_segments (plog st) \<noteq> 0 \<or> emergency_cleaner_segments (plog st) \<noteq> 0) \<and>
     blank (mem (segs st) (cl_seg c)) (cl_pos c)"

inductive step :: "('h, 'd) env \<Rightarrow> ('h, 'd) config \<Rightarrow> event \<Rightarrow> ('h, 'd) config \<Rightarrow> bool" for E where
  command: "store_pre c (contents E st) \<Longrightarrow> orderly E st c \<Longrightarrow> store_exec E c st = Some (r, st') \<Longrightarrow>
    step E (cs, st) (Command c r) (cs, st')"
| clean: "path (nexts (segs st)) (used_segments (plog st)) ss 0 \<Longrightarrow> cur \<in> set ss \<Longrightarrow> segs st cur = Some g \<Longrightarrow>
    to_clean g \<Longrightarrow> can_move c g st \<Longrightarrow> test_and_set_curr_cleaned E g st = Some (True, st1) \<Longrightarrow>
    clean_segment E cur c st1 = Some (nxt, c', st') \<Longrightarrow>
    step E (xs @ c # ys, st) (Cleaned cur) (xs @ c' # ys, st')"
| start: "start_cleaner E regular 0 st = Some (c, st') \<Longrightarrow> step E (cs, st) Started (c # cs, st')"
| crash: "cleaner_segments (plog st) = 0 \<Longrightarrow> reconstruct_hash_table E (crash E st) = Some st' \<Longrightarrow>
    step E (cs, st) Crashed ([], st')"

inductive_cases step_commandE: "step E x (Command c r) y"
inductive_cases step_cleanE: "step E x (Cleaned cur) y"
inductive_cases step_startE: "step E x Started y"
inductive_cases step_crashE: "step E x Crashed y"
inductive_simps step_command_iff: "step E (cs, st) (Command c r) (cs', st')"

inductive steps :: "('h, 'd) env \<Rightarrow> ('h, 'd) config \<Rightarrow> event list \<Rightarrow> ('h, 'd) config \<Rightarrow> bool" for E where
  nil: "steps E x [] x"
| cons: "step E x e y \<Longrightarrow> steps E y es z \<Longrightarrow> steps E x (e # es) z"

text \<open>What an event does to the objects.\<close>

fun effect :: "event \<Rightarrow> (u64 \<rightharpoonup> byte list) \<Rightarrow> (u64 \<rightharpoonup> byte list) option" where
  "effect (Command c r) m = store_spec c r m"
| "effect _ m = Some m"

fun effects :: "event list \<Rightarrow> (u64 \<rightharpoonup> byte list) \<Rightarrow> (u64 \<rightharpoonup> byte list) option" where
  "effects [] m = Some m"
| "effects (e # es) m = effect e m \<bind> effects es"

section \<open>Every step keeps the heap in order\<close>

text \<open>The mark of a segment in \<open>currently_cleaned\<close> is no part of the state of the heap.\<close>

lemma test_and_set_frame:
  assumes "test_and_set_curr_cleaned E g st = Some (b, st')" and "held st = {}"
  obtains h where "st' = st\<lparr>currently_cleaned := h\<rparr>"
proof (rule that)
  show "st' = st\<lparr>currently_cleaned := currently_cleaned st'\<rparr>"
    using assms by (cases st) (auto simp: test_and_set_curr_cleaned_def lock_def unlock_def Let_def split: if_splits)
qed

lemma contents_curr [simp]: "contents E (st\<lparr>currently_cleaned := h\<rparr>) = contents E st"
  using contents_cong [of "st\<lparr>currently_cleaned := h\<rparr>" st] by simp

lemma used_le: "lists_ok l sm A \<Longrightarrow> layout_ok l sm A P Q \<Longrightarrow> used_ok sm i A P {} \<Longrightarrow> s \<in> set (l_used A) \<Longrightarrow> sm s = Some g \<Longrightarrow>
  unat (used_space g) \<le> area_size"
proof -
  assume lo: "lists_ok l sm A" "layout_ok l sm A P Q" and u: "used_ok sm i A P {}" and s: "s \<in> set (l_used A)" "sm s = Some g"
  have d: "s \<in> set (data_segs A)" using s(1) by (simp add: data_segs_def)
  have "unat (used_of sm s) = live_bytes sm i P s"
    using u d by (simp only: used_ok_def) auto
  moreover have "Q s \<le> area_size"
    by (rule layout_seg [OF lo d]) simp
  ultimately show ?thesis
    using live_bytes_le [OF lo d, of i] s(2) by (simp add: used_of_def)
qed

lemma clean_step:
  assumes E: "glib_ok E" and ok: "sound E (xs @ c # ys) st"
    and p: "path (nexts (segs st)) (used_segments (plog st)) ss 0" "cur \<in> set ss" "segs st cur = Some g"
    and m: "can_move c g st" and t: "test_and_set_curr_cleaned E g st = Some (b, st1)"
  obtains nxt c' st' where "clean_segment E cur c st1 = Some (nxt, c', st')" "sound E (xs @ c' # ys) st'"
    "contents E st' = contents E st" "consistent st' = consistent st"
proof -
  from ok obtain A P Q where sok: "state_ok True E st A P Q {} {}" and th: "threads_at (xs @ c # ys) A Q" and h: "held st = {}"
    by (rule okayE)
  note lo = heap_okD(1,2) [OF state_okD(1) [OF sok]]
  obtain k where st1: "st1 = st\<lparr>currently_cleaned := k\<rparr>"
    using test_and_set_frame [OF t h] .
  have "ss = l_used A"
    using path_unique [OF p(1)] lists_okD(3) [OF lo(1)] by (auto simp: seg_list_def)
  then have cu: "cur \<in> set (l_used A)" using p(2) by simp
  have "safe c st1 A (unat (used_space g))"
    using m used_le [OF lo state_okD(3) [OF sok] cu p(3)] avail_iff [OF lo(1)] by (auto simp: safe_def can_move_def st1)
  moreover have "cleaner_at c A Q" using th by (simp add: threads_at_def)
  moreover have "state_ok True E st1 A P Q {} {}" "held st1 = {}" "segs st1 cur = Some g"
    using sok h p(3) by (simp_all add: st1)
  ultimately obtain nxt c' st' A' P' Q' where r: "clean_segment E cur c st1 = Some (nxt, c', st')" "state_ok True E st' A' P' Q' {} {}" "held st' = {}"
    "cleaner_at c' A' Q'" "contents E st' = contents E st1" "consistent st' = consistent st1" "others c A Q c' A' Q'"
    using clean_segment_core [OF E _ _ _ cu] by metis
  have "sound E (xs @ c' # ys) st'"
    by (rule okayI [OF r(2) threads_at_others [OF th r(7,4)] r(3)])
  with r(5,6) show ?thesis
    by (intro that [OF r(1)]) (simp_all add: st1)
qed

lemma start_needs_segment:
  assumes ok: "okay b E cs st" and r: "start_cleaner E regular 0 st = Some (c, st')"
  shows "free_segments (plog st) \<noteq> 0 \<or> emergency_cleaner_segments (plog st) \<noteq> 0"
proof (rule ccontr)
  from ok obtain A P Q where sok: "state_ok b E st A P Q {} {}" and h: "held st = {}"
    by (rule okayE)
  note lo = heap_okD(1) [OF state_okD(1) [OF sok]]
  assume "\<not> ?thesis"
  then have "l_free A = []" "l_emergency A = []"
    using seg_list_0_iff [OF lists_okD(2) [OF lo]] seg_list_0_iff [OF lists_okD(5) [OF lo]] by auto
  then have "get_new_cleaner_segment E st \<noteq> None \<and> fst (the (get_new_cleaner_segment E st)) = 0"
    using get_new_cleaner_refines [OF lo, of E] h by (auto simp: abs_cleaner_choice_def)
  with r show False
    by (auto simp: start_cleaner_def)
qed

text \<open>
  A command, while threads may be half-way through a segment: \<open>D\<close> and \<open>X\<close> are the entries and
  the segments they have dealt with.
\<close>

lemma command_run:
  assumes E: "glib_ok E" and sok: "state_ok True E st A P Q D X" and h: "held st = {}" and c: "consistent st"
    and pre: "store_pre c (contents E st)" "orderly E st c"
  shows "\<exists>r st'. store_exec E c st = Some (r, st') \<and> kept True E A P Q D X st st' \<and> consistent st' \<and>
    store_spec c r (contents E st) = Some (contents E st')"
proof -
  have D: "D \<subseteq> entries A P"
    using sok by (simp add: state_ok_def tidy_def)
  have refl: "kept True E A P Q D X st st"
    by (rule keptI [OF sok cleaner_frame_refl h]) (simp add: same_marks_def)
  note hp = heapI [OF state_okD(1) [OF sok] h]
  show ?thesis
  proof (cases c)
    case (Alloc d)
    then obtain j where "d \<noteq> []" "length d \<le> max_data" "j \<noteq> 0" "contents E st j = None"
      using pre(1) by auto
    from palloc_run [OF E sok h D c this] Alloc show ?thesis
      by (auto split: if_splits)
  next
    case (Put n d)
    then obtain failed st' where r: "palloc_with_id E True st n d = Some (failed, st')" 
      "kept (True \<and> (failed \<longrightarrow> contents E st n = None)) E A P Q D X st st'" "consistent st'" "failed \<longleftrightarrow> \<not> room st (length d)"
      "contents E st' = (if failed then contents E st else (contents E st)(n \<mapsto> d))"
      using palloc_with_id_run [OF E sok h D c, of d n] pre by (auto simp: version_of_def contents_def split: option.splits)
    then show ?thesis
      using Put pre by (intro exI [of _ "Error failed"] exI [of _ st']) auto
  next
    case (Update n d)
    then have d: "d \<noteq> []" "length d \<le> max_data"
      using pre(1) by simp_all
    show ?thesis
    proof (cases "contents E st n = None")
      case True
      then show ?thesis
        using update_missing [OF E hp c d(1) True] Update c refl by simp
    next
      case False
      then obtain failed st' where "update_data E True st n d = Some (failed, st')" "kept (True \<and> \<not> failed) E A P Q D X st st'" "consistent st'"
        "failed \<longleftrightarrow> \<not> room st (length d)" "contents E st' = (if failed then contents E st else (contents E st)(n \<mapsto> d))"
        using update_run [OF E sok h D c d False] pre(2) Update by auto
      then show ?thesis
        using Update False pre(2) by (intro exI [of _ "Error failed"] exI [of _ st']) auto
    qed
  next
    case (Free n)
    show ?thesis
    proof (cases "contents E st n = None")
      case True
      then show ?thesis
        using pfree_missing [OF hp E True] Free c refl by (simp add: fun_upd_idem)
    next
      case False
      then have v: "version_of E st n = Some 1"
        using pre(2) Free by auto
      obtain st' where "pfree E st n = Some st'" "state_ok True E st' A P Q D X" "held st' = {}" "consistent st' = consistent st"
        "same_marks st st'" "contents E st' = (contents E st)(n := None)"
        by (rule pfree_state [OF E sok h False v]) blast
      then show ?thesis
        using Free c keptI [of True E st' A P Q D X A P Q st] by simp
    qed
  qed
qed

lemma command_step:
  assumes E: "glib_ok E" and ok: "sound E cs st" "consistent st" and pre: "store_pre c (contents E st)" "orderly E st c"
  shows "\<exists>r st'. store_exec E c st = Some (r, st') \<and> sound E cs st' \<and> consistent st' \<and>
    store_spec c r (contents E st) = Some (contents E st')"
proof -
  from ok(1) obtain A P Q where sok: "state_ok True E st A P Q {} {}" "held st = {}" and th: "threads_at cs A Q"
    by (rule okayE)
  show ?thesis
    using command_run [OF E sok ok(2) pre] kept_okay [OF _ th] by blast
qed

lemma step_core:
  assumes E: "glib_ok E" and s: "step E x e y" and ok: "sound E (fst x) (snd x)" "consistent (snd x)"
  shows "sound E (fst y) (snd y) \<and> consistent (snd y) \<and> effect e (contents E (snd x)) = Some (contents E (snd y))"
  using s
proof cases
  case (command c st r st' cs)
  obtain r' st'' where "store_exec E c st = Some (r', st'')" "sound E cs st''" "consistent st''"
    "store_spec c r' (contents E st) = Some (contents E st'')"
    using command_step [OF E, where cs = cs and st = st and c = c] command(1,4,5) ok by auto
  with command show ?thesis by simp
next
  case (clean st ss cur g c st1 nxt c' st' xs ys)
  have ok1: "sound E (xs @ c # ys) st" using ok(1) clean(1) by simp
  obtain nxt' c'' st'' where "clean_segment E cur c st1 = Some (nxt', c'', st'')" "sound E (xs @ c'' # ys) st''"
    "contents E st'' = contents E st" "consistent st'' = consistent st"
    by (rule clean_step [OF E ok1 clean(4,5,6,8,9)])
  with clean(1-3,10) ok(2) show ?thesis by simp
next
  case (start regular st c st' cs)
  have ok1: "sound E cs st" using ok(1) start(1) by simp
  obtain c' st'' where "start_cleaner E regular 0 st = Some (c', st'')" "sound E (c' # cs) st''" "contents E st'' = contents E st"
    "consistent st'' = consistent st"
    using start_new_core [OF ok1 start_needs_segment [OF ok1 start(4)], of regular] by blast
  with start ok(2) show ?thesis by simp
next
  case (crash st st' cs)
  then show ?thesis
    using recover_core [OF E, of True cs st] ok by auto
qed

lemma steps_core:
  "steps E x es y \<Longrightarrow> glib_ok E \<Longrightarrow> sound E (fst x) (snd x) \<Longrightarrow> consistent (snd x) \<Longrightarrow>
   sound E (fst y) (snd y) \<and> consistent (snd y) \<and> effects es (contents E (snd x)) = Some (contents E (snd y))"
proof (induction rule: steps.induct)
  case (cons x e y es z)
  then show ?case
    using step_core [OF cons.prems(1) cons.hyps(1)] by simp
qed simp

section \<open>The properties of the program\<close>




end
