(* ===== verification/Restart.thy ===== *)
theory Restart
  imports Recovery
begin

text \<open>
  Closing and opening the heap: the index is saved to a file and loaded again, so a restart keeps
  the objects; the first start makes an empty heap; and what becomes of the file of an earlier run.
\<close>

section \<open>Saving the index\<close>

definition io_ok :: "hash_io \<Rightarrow> bool" where
  "io_ok io \<longleftrightarrow> io_path io \<and> io_malloc io \<and> io_init_path io \<and> io_open io \<and> io_truncate io \<and> io_cfg_new io \<and>
     io_granularity io \<and> io_source io \<and> io_map io \<and> io_source_delete io \<and> io_cfg_delete io"

lemma persist_pairs_run:
  "hf_counter f + length kvs \<le> length (hf_data f) \<Longrightarrow>
   persist_pairs kvs f = Some (f\<lparr>hf_data := take (hf_counter f) (hf_data f) @ kvs @ drop (hf_counter f + length kvs) (hf_data f),
     hf_counter := hf_counter f + length kvs\<rparr>)"
proof (induction kvs arbitrary: f)
  case (Cons kv kvs)
  let ?f = "f\<lparr>hf_data := (hf_data f)[hf_counter f := kv], hf_counter := hf_counter f + 1\<rparr>"
  have "persist_key_value_pair kv f = Some ?f"
    using Cons.prems by (simp add: persist_key_value_pair_def)
  moreover have "take (Suc (hf_counter f)) ((hf_data f)[hf_counter f := kv]) = take (hf_counter f) (hf_data f) @ [kv]"
    using Cons.prems by (simp add: take_Suc_conv_app_nth take_update_cancel)
  ultimately show ?case
    using Cons.IH [of ?f] Cons.prems by simp
qed simp

lemmas err_simps = err_config_hash_def err_granularity_hash_def err_map_hash_def err_src_delete_hash_def

lemma load_pairs_total: "n \<le> length kvs \<Longrightarrow> \<exists>st'. load_pairs E n kvs st = Some st'"
proof (induction kvs arbitrary: n st)
  case (Cons kv kvs)
  then show ?case by (cases n) simp_all
qed simp

text \<open>A file that holds exactly the pairs \<open>kvs\<close>, written to the end.\<close>

definition saved :: "(u64 \<times> pmo) list \<Rightarrow> hash_file" where
  "saved kvs = \<lparr>hf_persisted = True, hf_counter = length kvs, hf_data = kvs\<rparr>"

text \<open>Opening and mapping the file, when every call succeeds.\<close>

lemma init_hash_run:
  assumes "io_ok io"
  shows "init_hash_pmem E io st file R = Some (False, {Hash_map, Hash_fd} \<union> (R - {Hash_path, Hash_src, Hash_cfg}),
    Some (let f = case file of None \<Rightarrow> blank_file | Some f \<Rightarrow> f; n = length (gh_entries E (hash_table st)) in
      if n \<noteq> 0 then f\<lparr>hf_data := resize n (hf_data f)\<rparr> else f))"
  using assms by (auto simp: init_hash_pmem_def io_ok_def Let_def)

lemma persist_saves:
  assumes io: "io_ok io" and ne: "gh_entries E (hash_table st) \<noteq> []"
  shows "persist_hash_table E io st file = Some (False, {}, Some (saved (gh_entries E (hash_table st))))"
proof -
  let ?kvs = "gh_entries E (hash_table st)"
  have len: "length (resize n xs) = n" for n xs
    by (simp add: resize_def)
  obtain f R where f: "init_hash_pmem E io st file {Hash_mem} = Some (False, R, Some f)" "R \<subseteq> {Hash_map, Hash_fd, Hash_mem}"
    "length (hf_data f) = length ?kvs"
    using ne len by (auto simp: init_hash_run [OF io] Let_def)
  then show ?thesis
    using io ne persist_pairs_run [of "f\<lparr>hf_persisted := False, hf_counter := 0\<rparr>" ?kvs]
    by (auto simp: persist_hash_table_def io_ok_def saved_def delete_hash_pmem_def)
qed

lemma load_pairs_run:
  assumes "glib_ok E"
  shows "\<exists>h. load_pairs E (length kvs) kvs st = Some (st\<lparr>hash_table := h\<rparr>) \<and> gh_map E h = gh_map E (hash_table st) ++ map_of (rev kvs)"
proof (induction kvs arbitrary: st)
  case Nil
  show ?case by (intro exI [of _ "hash_table st"]) simp
next
  case (Cons kv kvs)
  obtain k v where kv: "kv = (k, v)" by (cases kv)
  obtain h where h: "load_pairs E (length kvs) kvs (add_to_hash_table E k v st) = Some ((add_to_hash_table E k v st)\<lparr>hash_table := h\<rparr>)"
    "gh_map E h = gh_map E (hash_table (add_to_hash_table E k v st)) ++ map_of (rev kvs)"
    using Cons.IH by blast
  then show ?case
    by (intro exI [of _ h]) (simp add: kv add_to_hash_table_def glib_okD(2) [OF assms])
qed

lemma gh_entries_None: "glib_ok E \<Longrightarrow> gh_entries E h = [] \<longleftrightarrow> gh_map E h = Map.empty"
  by (simp add: glib_okD(6) [symmetric])

lemma load_saved:
  assumes E: "glib_ok E" and io: "io_ok io" and d: "distinct (map fst kvs)" and e: "gh_map E (hash_table st) = Map.empty"
  shows "\<exists>h. get_persisted_hash_table E io st (Some (saved kvs)) = Some (False, {}, Some (saved kvs), st\<lparr>hash_table := h\<rparr>) \<and>
    gh_map E h = map_of kvs"
proof -
  have "gh_entries E (hash_table st) = []"
    using e gh_entries_None [OF E] by blast
  then have "init_hash_pmem E io st (Some (saved kvs)) {Hash_mem} = Some (False, {Hash_map, Hash_fd, Hash_mem}, Some (saved kvs))"
    by (simp add: init_hash_run [OF io] insert_commute)
  moreover have "map_of (rev kvs) = map_of kvs"
    using d by (simp add: map_of_inject_set rev_map [symmetric])
  ultimately show ?thesis
    using load_pairs_run [OF E, of kvs st] io e by (auto simp: get_persisted_hash_table_def io_ok_def saved_def delete_hash_pmem_def)
qed

section \<open>Closing and opening\<close>

definition sys_ok :: "sys \<Rightarrow> bool" where
  "sys_ok y \<longleftrightarrow> sys_open y \<and> sys_malloc y \<and> sys_cfg_new y \<and> sys_granularity y \<and> sys_source y \<and> sys_map y \<and>
     sys_source_delete y \<and> sys_cfg_delete y \<and> (\<forall>i. sys_info y i) \<and> MIN_LOG_LENGTH + sizeof_log \<le> sys_map_size y \<and> sys_map_size y < 2 ^ 64"

lemma map_size:
  assumes "MIN_LOG_LENGTH + sizeof_log \<le> n" and "n < 2 ^ 64"
  shows "unat (word_of_nat n - word_of_nat sizeof_log :: u64) = n - sizeof_log"
  using assms by (subst unat_sub) (simp_all add: word_le_nat_alt unsigned_of_nat take_bit_nat_eq_self)

lemma init_pmem_run:
  assumes "sys_ok y"
  shows "init_pmem E y io file st = map_option (\<lambda>(threads, st). (False, {Res_fd, Res_path, Res_map}, threads, st))
    (start_heap E y io file (st\<lparr>psize := sys_map_size y - sizeof_log, held := {}\<rparr>))"
  using assms map_size [of "sys_map_size y"]
  by (cases "start_heap E y io file (st\<lparr>psize := sys_map_size y - sizeof_log, held := {}\<rparr>)")
    (auto simp: init_pmem_def sys_ok_def Let_def insert_Diff_if)

text \<open>
  The rest of \<^verbatim>\<open>start_heap\<close> after the index is there does not change the objects.
\<close>

lemma okay_frame:
  assumes ok: "okay b E cs st" and s: "segs st' = segs st" "index E st' = index E st" "held st' = {}"
    and l: "plog st' = (plog st)\<lparr>regular_termination := r\<rparr>"
  shows "okay b E [] st'" and "contents E st' = contents E st"
proof -
  from ok obtain A P Q where sok: "state_ok b E st A P Q {} {}" by (rule okayE)
  have "lists_ok (plog st') sm B = lists_ok (plog st) sm B" "layout_ok (plog st') sm B R T = layout_ok (plog st) sm B R T" for sm B R T
    by (simp_all add: l lists_ok_def layout_ok_def)
  then have "state_ok b E st' A P Q {} {}"
    using sok by (simp add: state_ok_def heap_ok_def locks_free_def s)
  then show "okay b E [] st'"
    using okayI [of b E st' A P Q "[]"] s(3) by simp
  show "contents E st' = contents E st"
    by (rule contents_index_cong [OF s(1,2)])
qed

lemma init_cleaner_lists:
  assumes "lists_ok (plog st) (segs st) A" and "\<forall>i. mk i"
  shows "\<exists>failed infos. init_cleaner E mk cr regular st = Some (failed, infos, st\<lparr>currently_cleaned := gh_new E\<rparr>)"
  using init_cleaner_assigns [of st "l_cleaner A" mk E cr regular] lists_okD(4) [OF assms(1)] assms(2)
  by (simp add: seg_list_def)

lemma threads_created:
  assumes "lists_ok (plog st) (segs st) A" and "\<forall>i. mk i"
  shows "\<exists>failed infos h. (if c then init_cleaner E mk cr regular st else Some (False, [], st)) =
    Some (failed, infos, st\<lparr>currently_cleaned := h\<rparr>)"
proof (cases c)
  case True
  then show ?thesis
    using init_cleaner_lists [OF assms, where E = E and cr = cr and regular = regular] by auto
next
  case False
  then show ?thesis
    by (intro exI [of _ False] exI [of _ "[]"] exI [of _ "currently_cleaned st"]) simp
qed

lemma start_regular:
  assumes E: "glib_ok E" and ok: "lists_ok (plog st) (segs st) A" and io: "io_ok io" "\<forall>i. sys_info y i" and i: "is_log_initialized st"
    and r: "regular_termination (plog st)" and d: "distinct (map fst kvs)"
  shows "\<exists>threads st'. start_heap E y io (Some (saved kvs)) st = Some (threads, st') \<and> segs st' = segs st \<and> held st' = held st \<and>
    plog st' = (plog st)\<lparr>regular_termination := False\<rparr> \<and> gh_map E (hash_table st') = map_of kvs"
proof -
  let ?st = "init_hash_table E (st\<lparr>consistent := (length (all_segs A) = (psize st - sizeof_log) div SEGMENT_SIZE)\<rparr>)"
  have e: "gh_map E (hash_table ?st) = Map.empty"
    using glib_okD(1) [OF E] by (simp add: init_hash_table_def)
  obtain h where h: "get_persisted_hash_table E io ?st (Some (saved kvs)) = Some (False, {}, Some (saved kvs), ?st\<lparr>hash_table := h\<rparr>)" "gh_map E h = map_of kvs"
    using load_saved [OF E io(1) d e] by blast
  have "regular_termination (plog ?st)"
    using r by (simp add: init_hash_table_def)
  then have "start_heap E y io (Some (saved kvs)) st = do {
      (_, threads, st) \<leftarrow> (if consistent ?st
        then init_cleaner E (sys_info y) (sys_thread y) (regular_termination (plog ?st)) (?st\<lparr>hash_table := h\<rparr>)
        else Some (False, [], ?st\<lparr>hash_table := h\<rparr>));
      Some (threads, persist E off_regular_termination 1 (upd_log (\<lambda>l. l\<lparr>regular_termination := False\<rparr>) st))
    }"
    using i check_consistency_eq [OF ok] h(1) by (simp add: start_heap_def Let_def)
  moreover have "lists_ok (plog (?st\<lparr>hash_table := h\<rparr>)) (segs (?st\<lparr>hash_table := h\<rparr>)) A"
    using ok by (simp add: init_hash_table_def)
  then obtain failed infos k where "(if consistent ?st
        then init_cleaner E (sys_info y) (sys_thread y) (regular_termination (plog ?st)) (?st\<lparr>hash_table := h\<rparr>)
        else Some (False, [], ?st\<lparr>hash_table := h\<rparr>)) = Some (failed, infos, ?st\<lparr>hash_table := h, currently_cleaned := k\<rparr>)"
    using threads_created [OF _ io(2)] by blast
  ultimately show ?thesis
    using h(2) by (simp add: init_hash_table_def upd_log_def persist_def)
qed

text \<open>What closing leaves: the state but for the index, with the mark of a regular termination.\<close>

lemma close_state:
  assumes "persist_hash_table E io st' file = Some (f, R, file')" and "st' = (if consistent st then terminate_cleaner E st else st)"
  shows "\<exists>failed st1. delete_pmem E y io file st = Some (failed, file', st1) \<and> segs st1 = segs st \<and>
    plog st1 = (plog st)\<lparr>regular_termination := True\<rparr> \<and> consistent st1 = consistent st \<and> held st1 = held st"
  using assms by (auto simp: delete_pmem_def Let_def terminate_cleaner_def destroy_hash_table_def upd_log_def persist_def)

lemma persist_hash_table_cong:
  "hash_table st' = hash_table st \<Longrightarrow> persist_hash_table E io st' file = persist_hash_table E io st file"
  by (simp only: persist_hash_table_def init_hash_pmem_def)

lemma restart_run:
  assumes E: "glib_ok E" and ok: "okay b E cs st" and io: "io_ok io'" "sys_ok y'" and init: "is_log_initialized st"
    and p: "persist_hash_table E io st file = Some (f, R, Some (saved kvs))" "distinct (map fst kvs)"
  shows "\<exists>failed st1 threads st2. delete_pmem E y io file st = Some (failed, Some (saved kvs), st1) \<and>
    init_pmem E y' io' (Some (saved kvs)) st1 = Some (False, {Res_fd, Res_path, Res_map}, threads, st2) \<and>
    segs st2 = segs st \<and> held st2 = {} \<and> plog st2 = (plog st)\<lparr>regular_termination := False\<rparr> \<and> index E st2 = map_of kvs"
proof -
  from ok obtain A P Q where sok: "state_ok b E st A P Q {} {}" and held: "held st = {}" by (rule okayE)
  let ?st = "if consistent st then terminate_cleaner E st else st"
  have "persist_hash_table E io ?st file = Some (f, R, Some (saved kvs))"
    using p(1) persist_hash_table_cong [of "terminate_cleaner E st" st] by (simp add: terminate_cleaner_def)
  then obtain failed st1 where st1: "delete_pmem E y io file st = Some (failed, Some (saved kvs), st1)" "segs st1 = segs st"
    "plog st1 = (plog st)\<lparr>regular_termination := True\<rparr>"
    using close_state by blast
  let ?st1 = "st1\<lparr>psize := sys_map_size y' - sizeof_log, held := {}\<rparr>"
  have info: "\<forall>i. sys_info y' i" using io(2) by (simp add: sys_ok_def)
  have "lists_ok (plog ?st1) (segs ?st1) A"
    using heap_okD(1) [OF state_okD(1) [OF sok]] st1(2,3) by (simp add: lists_ok_def)
  moreover have "is_log_initialized ?st1" "regular_termination (plog ?st1)"
    using init st1(3) by (simp_all add: is_log_initialized_def)
  ultimately obtain threads st2 where "start_heap E y' io' (Some (saved kvs)) ?st1 = Some (threads, st2)" "segs st2 = segs ?st1"
    "held st2 = held ?st1" "plog st2 = (plog ?st1)\<lparr>regular_termination := False\<rparr>" "gh_map E (hash_table st2) = map_of kvs"
    using start_regular [OF E _ io(1) info _ _ p(2)] by blast
  then show ?thesis
    using st1 init_pmem_run [OF io(2), of E io' "Some (saved kvs)" st1] by auto
qed

lemma restart_core:
  assumes E: "glib_ok E" and ok: "okay b E cs st" and io: "io_ok io" "io_ok io'" "sys_ok y'" and init: "is_log_initialized st"
    and ne: "contents E st \<noteq> Map.empty"
  shows "\<exists>failed file' st1 threads st2. delete_pmem E y io file st = Some (failed, file', st1) \<and>
    init_pmem E y' io' file' st1 = Some (False, {Res_fd, Res_path, Res_map}, threads, st2) \<and>
    okay b E [] st2 \<and> contents E st2 = contents E st"
proof -
  from ok obtain A P Q where sok: "state_ok b E st A P Q {} {}" and held: "held st = {}" by (rule okayE)
  let ?kvs = "gh_entries E (hash_table st)"
  have "index E st \<noteq> Map.empty"
    using ne by (auto simp: contents_def)
  then have "?kvs \<noteq> []"
    using gh_entries_None [OF E] by blast
  then have p: "persist_hash_table E io st file = Some (False, {}, Some (saved ?kvs))"
    by (rule persist_saves [OF io(1)])
  obtain failed st1 threads st2 where r: "delete_pmem E y io file st = Some (failed, Some (saved ?kvs), st1)"
    "init_pmem E y' io' (Some (saved ?kvs)) st1 = Some (False, {Res_fd, Res_path, Res_map}, threads, st2)"
    "segs st2 = segs st" "held st2 = {}" "plog st2 = (plog st)\<lparr>regular_termination := False\<rparr>" "index E st2 = map_of ?kvs"
    using restart_run [OF E ok io(2,3) init p glib_okD(5) [OF E], of y] by blast
  have i: "index E st2 = index E st"
    using r(6) glib_okD(6) [OF E] by simp
  show ?thesis
    using r(1,2) okay_frame [OF ok r(3) i r(4,5)] by blast
qed

text \<open>
  A file of an earlier run is left as it is when the heap is closed with an empty index, and the next
  start takes it for the current one.
\<close>

lemma stale_core:
  assumes E: "glib_ok E" and ok: "okay b E cs st" and io: "io_ok io'" "sys_ok y'" and init: "is_log_initialized st"
    and e: "contents E st = Map.empty" and d: "distinct (map fst kvs)"
  shows "\<exists>failed st1 threads st2. delete_pmem E y io (Some (saved kvs)) st = Some (failed, Some (saved kvs), st1) \<and>
    init_pmem E y' io' (Some (saved kvs)) st1 = Some (False, {Res_fd, Res_path, Res_map}, threads, st2) \<and>
    index E st2 = map_of kvs"
proof -
  from ok obtain A P Q where sok: "state_ok b E st A P Q {} {}" and held: "held st = {}" by (rule okayE)
  have "index E st k = None" for k
    using e contents_None [OF state_okD(1) [OF sok], of k] by (simp add: gh_map_None hash_table_contains_def)
  then have "gh_entries E (hash_table st) = []"
    using gh_entries_None [OF E] by blast
  then have "persist_hash_table E io st (Some (saved kvs)) = Some (False, {}, Some (saved kvs))"
    by (simp add: persist_hash_table_def)
  from restart_run [OF E ok io init this d] show ?thesis by blast
qed

text \<open>The same when the index could not be saved: closing does not look at the result.\<close>

lemma unsaved_core:
  assumes E: "glib_ok E" and ok: "okay b E cs st" and io: "io_ok io'" "sys_ok y'" and init: "is_log_initialized st"
    and f: "\<not> io_malloc io \<or> io_init_path io \<and> \<not> io_open io" and d: "distinct (map fst kvs)"
  shows "\<exists>failed st1 threads st2. delete_pmem E y io (Some (saved kvs)) st = Some (failed, Some (saved kvs), st1) \<and>
    init_pmem E y' io' (Some (saved kvs)) st1 = Some (False, {Res_fd, Res_path, Res_map}, threads, st2) \<and>
    index E st2 = map_of kvs"
proof -
  have "\<exists>failed R. persist_hash_table E io st (Some (saved kvs)) = Some (failed, R, Some (saved kvs))"
    using f by (auto simp: persist_hash_table_def init_hash_pmem_def Let_def)
  then obtain failed R where "persist_hash_table E io st (Some (saved kvs)) = Some (failed, R, Some (saved kvs))"
    by blast
  from restart_run [OF E ok io init this d] show ?thesis by blast
qed

section \<open>The first start\<close>

lemma reconstruct_index:
  assumes r: "reconstruct_hash_table E st = Some st'" and c: "cleaner_segments (plog st) = 0"
  shows "index_step st st'"
proof -
  from r obtain st1 st2 where st1: "scan_used_list E (used_segments (plog st)) st = Some st1"
    and st2: "(if head_segment (plog st1) = 0 then Some st1 else do {
      g \<leftarrow> get_seg st1 (head_segment (plog st1));
      scan_head E (head_segment (plog st1)) (log_entries g) (head_position (plog st1)) 0 st1 }) = Some st2"
    and st': "scan_cleaner_list E (cleaner_segments (plog st2)) st2 = Some st'"
    unfolding reconstruct_hash_table_def by (elim bind_SomeE)
  have "index_step st1 st2"
    using st2 by (auto simp: bind_eq_Some_conv split: if_splits dest: scan_head_index)
  then have "index_step st st2"
    using index_step_trans [OF scan_used_list_index [OF st1]] by blast
  moreover have "st' = st2"
    using st' c index_stepD [OF calculation]
    by (simp add: scan_cleaner_list_def cleaner_loop_guard_def while_option_unfold)
  ultimately show ?thesis by simp
qed

lemma fresh_segment_count:
  assumes "K = segs_for (n - 2 * SEGMENT_SIZE)" and "MIN_LOG_LENGTH \<le> n" and "n < 2 ^ 64"
  shows "3 \<le> K" and "Suc K < 2 ^ 64" and "i \<le> K \<Longrightarrow> SEGMENT_SIZE * (i + 1) \<le> n"
  using assms by (simp_all add: segs_for_def)

lemma first_start_core:
  assumes E: "glib_ok E" and y: "sys_ok y" and i: "\<not> is_log_initialized st" "\<not> regular_termination (plog st)"
    and s: "\<And>i. SEGMENT_SIZE * (i + 1) \<le> sys_map_size y - sizeof_log \<Longrightarrow> segs st (seg_off i) \<noteq> None"
  shows "\<exists>threads st'. init_pmem E y io file st = Some (False, {Res_fd, Res_path, Res_map}, threads, st') \<and>
    sound E [] st' \<and> contents E st' = Map.empty \<and> is_log_initialized st' \<and> last_used_segment (plog st') = 0"
proof -
  let ?ps = "sys_map_size y - sizeof_log"
  let ?st = "st\<lparr>psize := ?ps, held := {}\<rparr>"
  define K where "K = segs_for (psize ?st - 2 * SEGMENT_SIZE)"
  have sz: "MIN_LOG_LENGTH \<le> psize ?st" "psize ?st < 2 ^ 64"
    using y by (auto simp: sys_ok_def)
  have K: "3 \<le> K" "Suc K < 2 ^ 64" "\<And>i. i \<le> K \<Longrightarrow> segs ?st (seg_off i) \<noteq> None"
    using fresh_segment_count [OF K_def sz] s by simp_all
  obtain st1 where st1: "init_log E ?st = Some st1" "same_rest ?st st1" "plog st1 = fresh_hdr K (plog ?st)" "fresh_segs K (segs ?st) (segs st1)"
    using init_log_run [OF K_def sz(1) K(3)] by blast
  note lo = fresh_lists_ok [OF st1(4) K(1,2), of "plog ?st", folded st1(3)]
  let ?st2 = "st1\<lparr>consistent := (length (all_segs (fresh_lists K)) = (psize st1 - sizeof_log) div SEGMENT_SIZE)\<rparr>"
  let ?st3 = "?st2\<lparr>hash_table := gh_new E\<rparr>"
  have h: "held st1 = {}" using st1(2) by (simp add: same_rest_def)
  have so: "sound E [] ?st3"
    by (rule fresh_sound [of K "segs ?st" _ "plog ?st"]) (use st1 K(1,2) h glib_okD(1) [OF E] in simp_all)
  have cr: "crash E ?st3 = ?st3" by (cases st1) (use h in \<open>simp add: crash_def\<close>)
  have "cleaner_segments (plog ?st3) = 0" by (simp add: st1(3) fresh_hdr_def)
  from recover_core [OF E so this] obtain st4 where st4: "reconstruct_hash_table E ?st3 = Some st4" "sound E [] st4"
    "contents E st4 = contents E ?st3"
    unfolding cr by auto
  have l4: "plog st4 = plog ?st3"
    using reconstruct_index [OF st4(1)] index_stepD by (fastforce simp: st1(3) fresh_hdr_def)
  have lo4: "lists_ok (plog st4) (segs st4) (fresh_lists K)"
    using lo index_stepD [OF reconstruct_index [OF st4(1)]] by (simp add: l4 st1(3) fresh_hdr_def)
  have info: "\<forall>i. sys_info y i" using y by (simp add: sys_ok_def)
  have "check_consistency st1 = Some ?st2"
    by (rule check_consistency_eq [OF lo])
  then have "start_heap E y io file ?st = do {
      (_, threads, st) \<leftarrow> (if consistent st4
        then init_cleaner E (sys_info y) (sys_thread y) (regular_termination (plog st4)) st4 else Some (False, [], st4));
      Some (threads, persist E off_regular_termination 1 (upd_log (\<lambda>l. l\<lparr>regular_termination := False\<rparr>) st))
    }"
    using i st1(1,3) st4(1) by (simp add: start_heap_def is_log_initialized_def init_hash_table_def fresh_hdr_def Let_def)
  moreover obtain failed infos k where thr: "(if consistent st4
        then init_cleaner E (sys_info y) (sys_thread y) (regular_termination (plog st4)) st4 else Some (False, [], st4)) =
      Some (failed, infos, st4\<lparr>currently_cleaned := k\<rparr>)"
    using threads_created [OF lo4, where mk = "sys_info y"] info by blast
  ultimately obtain threads st' where st': "start_heap E y io file ?st = Some (threads, st')"
    "segs st' = segs st4" "hash_table st' = hash_table st4" "held st' = held st4" "plog st' = (plog st4)\<lparr>regular_termination := False\<rparr>"
    using thr by (simp add: upd_log_def persist_def)
  have e: "contents E ?st3 = Map.empty"
    using glib_okD(1) [OF E] by (simp add: contents_def fun_eq_iff)
  have "held st4 = {}"
    using st4(2) by (simp add: okay_def)
  then show ?thesis
    using st' okay_frame [OF st4(2), of st' False] st4(3) e l4 init_pmem_run [OF y, of E io "file" st]
    by (auto simp: is_log_initialized_def st1(3) fresh_hdr_def)
qed

section \<open>The properties of opening and closing\<close>

text \<open>
  C11: Closing a heap that stores an object and opening it again restores every object and keeps the heap in
  order, whatever the file of the index held before.
\<close>

theorem restart_keeps_objects:
  assumes "glib_ok E" and "okay b E cs st" and "io_ok io" and "io_ok io'" and "sys_ok y'" and "is_log_initialized st"
    and "contents E st \<noteq> Map.empty"
  shows "\<exists>failed file' st1 threads st2. delete_pmem E y io file st = Some (failed, file', st1) \<and>
    init_pmem E y' io' file' st1 = Some (False, {Res_fd, Res_path, Res_map}, threads, st2) \<and>
    okay b E [] st2 \<and> contents E st2 = contents E st"
  by (rule restart_core [OF assms])

text \<open>
  C26: Closing an empty heap does not touch the file of an earlier run, and opening it again loads that file:
  the index points to the entries of objects that have long been freed
  (\<^verbatim>\<open>hash_table.c\<close>, lines 164 to 166).
\<close>

theorem stale_index_returns:
  assumes "glib_ok E" and "okay b E cs st" and "io_ok io'" and "sys_ok y'" and "is_log_initialized st"
    and "contents E st = Map.empty" and "distinct (map fst kvs)"
  shows "\<exists>failed st1 threads st2. delete_pmem E y io (Some (saved kvs)) st = Some (failed, Some (saved kvs), st1) \<and>
    init_pmem E y' io' (Some (saved kvs)) st1 = Some (False, {Res_fd, Res_path, Res_map}, threads, st2) \<and>
    index E st2 = map_of kvs"
  by (rule stale_core [OF assms])

text \<open>
  C27: Closing the heap ignores that the index could not be saved and marks the shutdown as regular all the same.
  The file of an earlier run is then loaded by the next start in place of the index
  (\<^verbatim>\<open>log_pmem.c\<close>, lines 137 to 141).
\<close>

theorem unsaved_index_is_replaced:
  assumes "glib_ok E" and "okay b E cs st" and "io_ok io'" and "sys_ok y'" and "is_log_initialized st"
    and "\<not> io_malloc io \<or> io_init_path io \<and> \<not> io_open io" and "distinct (map fst kvs)"
  shows "\<exists>failed st1 threads st2. delete_pmem E y io (Some (saved kvs)) st = Some (failed, Some (saved kvs), st1) \<and>
    init_pmem E y' io' (Some (saved kvs)) st1 = Some (False, {Res_fd, Res_path, Res_map}, threads, st2) \<and>
    index E st2 = map_of kvs"
  by (rule unsaved_core [OF assms])


text \<open>
  C32: The saved index loads again: after \<^verbatim>\<open>persist_hash_table\<close>, which writes exactly the pairs of the
  table, \<^verbatim>\<open>get_persisted_hash_table\<close> fills an empty table with the same map.
\<close>

theorem index_round_trip:
  assumes E: "glib_ok E" and io: "io_ok io" "io_ok io'" and ne: "gh_map E (hash_table st) \<noteq> Map.empty"
    and e: "gh_map E (hash_table st') = Map.empty"
  shows "\<exists>f h. persist_hash_table E io st file = Some (False, {}, Some f) \<and>
    get_persisted_hash_table E io' st' (Some f) = Some (False, {}, Some f, st'\<lparr>hash_table := h\<rparr>) \<and>
    gh_map E h = gh_map E (hash_table st)"
proof -
  have "gh_entries E (hash_table st) \<noteq> []"
    using ne gh_entries_None [OF E] by blast
  then show ?thesis
    using persist_saves [OF io(1), of E st "file"] load_saved [OF E io(2) glib_okD(5) [OF E] e, of "hash_table st"] glib_okD(6) [OF E]
    by auto
qed




end
