(* ===== verification/Cleaner_Steps.thy ===== *)
theory Cleaner_Steps
  imports Cleaner_Lists
begin

text \<open>
  A cleaner thread in steps as small as the locks of the code make them: between the choice of a
  segment, the copying of each entry, and the release of the segment, other threads and the clients of
  the heap may run.  A thread that is not disturbed does what \<open>clean_pass\<close> says.
\<close>

section \<open>The steps of a thread\<close>

text \<open>
  Where a thread is in the inner loop of \<^verbatim>\<open>clean\<close>: at the head of the loop (\<open>Visit\<close>), before
  \<^verbatim>\<open>test_and_set_curr_cleaned\<close> (\<open>Mark\<close>), in the branch of a segment that is not cleaned (\<open>Skip\<close>), at
  an entry of the segment (\<open>Copy\<close>), behind its last one (\<open>Leave\<close>), before
  \<^verbatim>\<open>append_cleaned_segment_to_free_segments\<close> with the next segment at hand (\<open>Release\<close>), and before
  \<^verbatim>\<open>unset_curr_cleaned\<close> (\<open>Unmark\<close>).
\<close>

datatype phase = Visit pmo | Mark pmo | Skip pmo | Copy pmo nat | Leave pmo | Release pmo pmo | Unmark pmo pmo

type_synonym thread = "phase \<times> cleaner"

fun thread_step ::
  "('h, 'd) env \<Rightarrow> phase \<Rightarrow> cleaner \<Rightarrow> ('h, 'd) pmem \<Rightarrow> (phase \<times> cleaner \<times> ('h, 'd) pmem) option" where
  "thread_step E (Visit cur) c st =
     (if cur = 0 then Some (Visit (used_segments (plog st)), c, st)
      else do { g \<leftarrow> get_seg st cur; Some (if to_clean g then Mark cur else Skip cur, c, st) })"
| "thread_step E (Mark cur) c st = do {
     g \<leftarrow> get_seg st cur;
     (chosen, st) \<leftarrow> test_and_set_curr_cleaned E g st;
     Some (if \<not> chosen then Skip cur else if used_space g \<noteq> 0 then Copy cur 0 else Leave cur, c, st)
   }"
| "thread_step E (Skip cur) c st = do {
     st \<leftarrow> lock Used_segs st;
     g \<leftarrow> get_seg st cur;
     Some (Visit (next_segment g), c, unlock Used_segs st)
   }"
| "thread_step E (Copy cur p) c st = do {
     g \<leftarrow> get_seg st cur;
     let m = log_entries g;
     (if p < area_size - sizeof_entry \<and> entry_length m p \<noteq> 0
      then do {
        (c, st) \<leftarrow> clean_entry E m p c st;
        Some (Copy cur (p + entry_size m p), c, st)
      }
      else Some (Leave cur, c, st))
   }"
| "thread_step E (Leave cur) c st = do {
     st \<leftarrow> lock Used_segs st;
     g \<leftarrow> get_seg st cur;
     Some (Release cur (next_segment g), c, unlock Used_segs st)
   }"
| "thread_step E (Release cur nxt) c st = do {
     g \<leftarrow> get_seg st cur;
     st \<leftarrow> append_cleaned_segment_to_free_segments E (seg_id g) st;
     Some (Unmark cur nxt, c, st)
   }"
| "thread_step E (Unmark cur nxt) c st = do {
     g \<leftarrow> get_seg st cur;
     Some (Visit nxt, c, unset_curr_cleaned E g st)
   }"

section \<open>A thread that is not disturbed\<close>

text \<open>A pass of one thread over the used segments, while no other thread and no command runs.\<close>

inductive pass :: "('h, 'd) env \<Rightarrow> phase \<times> cleaner \<times> ('h, 'd) pmem \<Rightarrow> cleaner \<times> ('h, 'd) pmem \<Rightarrow> bool" for E where
  stop: "pass E (Visit 0, c, st) (c, st)"
| step: "ph \<noteq> Visit 0 \<Longrightarrow> thread_step E ph c st = Some y \<Longrightarrow> pass E y z \<Longrightarrow> pass E (ph, c, st) z"

inductive_cases passE: "pass E (ph, c, st) z"

text \<open>No operation on the lists changes the id of a segment.\<close>

lemma upd_seg_ids: "upd_seg s f st = Some st' \<Longrightarrow> (\<And>g. seg_id (f g) = seg_id g) \<Longrightarrow> ids (segs st') = ids (segs st)"
  by (auto simp: upd_seg_def get_seg_def ids_def fun_eq_iff split: if_splits Option.bind_splits option.splits)

lemma lock_ids: "lock l st = Some st' \<Longrightarrow> segs st' = segs st"
  by (auto simp: lock_def split: if_splits)

lemma step_simps [simp]: "segs (unlock l st) = segs st" "segs (persist E a n st) = segs st" "segs (upd_log f st) = segs st"
  by (simp_all add: unlock_def persist_def upd_log_def)

lemma refill_ids: "refill_emergency_cleaner_segment E cur st = Some st' \<Longrightarrow> ids (segs st') = ids (segs st)"
  by (auto simp: refill_emergency_cleaner_segment_def Let_def split: if_splits Option.bind_splits dest!: upd_seg_ids lock_ids)

lemma append_free_ids: "append_free E cur st = Some st' \<Longrightarrow> ids (segs st') = ids (segs st)"
  by (auto simp: append_free_def Let_def split: if_splits Option.bind_splits dest!: upd_seg_ids lock_ids)

lemma unlink_used_ids: "unlink_used E n prev cur st = Some st' \<Longrightarrow> ids (segs st') = ids (segs st)"
  by (auto simp: unlink_used_def Let_def split: if_splits Option.bind_splits dest!: upd_seg_ids lock_ids)

lemma reset_ids: "reset_segment E cur st = Some st' \<Longrightarrow> ids (segs st') = ids (segs st)"
  by (auto simp: reset_segment_def Let_def split: if_splits Option.bind_splits dest!: upd_seg_ids lock_ids)

lemma append_cleaned_ids: "append_cleaned_segment_to_free_segments E n st = Some st' \<Longrightarrow> ids (segs st') = ids (segs st)"
  by (auto simp: append_cleaned_segment_to_free_segments_def Let_def split: if_splits Option.bind_splits
      dest!: lock_ids refill_ids append_free_ids unlink_used_ids reset_ids)

lemma append_cleaned_seg:
  assumes "append_cleaned_segment_to_free_segments E n st = Some st'" and "get_seg st cur = Some g"
  obtains g' where "get_seg st' cur = Some g'" "unset_curr_cleaned E g' st' = unset_curr_cleaned E g st'"
proof -
  have "ids (segs st') cur = ids (segs st) cur"
    using append_cleaned_ids [OF assms(1)] by simp
  with assms(2) obtain g' where "get_seg st' cur = Some g'" "seg_id g' = seg_id g"
    by (auto simp: ids_def get_seg_def split: if_splits)
  then show ?thesis
    by (intro that [of g']) (simp_all add: unset_curr_cleaned_def)
qed

text \<open>What is left of the pass at each phase, in terms of the functions of \<open>Cleaner\<close>.\<close>

definition skip_rest :: "('h, 'd) env \<Rightarrow> pmo \<Rightarrow> cleaner \<Rightarrow> ('h, 'd) pmem \<Rightarrow> (cleaner \<times> ('h, 'd) pmem) option" where
  "skip_rest E cur c st = do {
     st \<leftarrow> lock Used_segs st;
     g \<leftarrow> get_seg st cur;
     clean_pass E (next_segment g) c (unlock Used_segs st)
   }"

definition release_rest ::
  "('h, 'd) env \<Rightarrow> pmo \<Rightarrow> pmo \<Rightarrow> cleaner \<Rightarrow> ('h, 'd) pmem \<Rightarrow> (cleaner \<times> ('h, 'd) pmem) option" where
  "release_rest E cur nxt c st = do {
     g \<leftarrow> get_seg st cur;
     st \<leftarrow> append_cleaned_segment_to_free_segments E (seg_id g) st;
     clean_pass E nxt c (unset_curr_cleaned E g st)
   }"

definition leave_rest :: "('h, 'd) env \<Rightarrow> pmo \<Rightarrow> cleaner \<Rightarrow> ('h, 'd) pmem \<Rightarrow> (cleaner \<times> ('h, 'd) pmem) option" where
  "leave_rest E cur c st = do {
     st \<leftarrow> lock Used_segs st;
     g \<leftarrow> get_seg st cur;
     release_rest E cur (next_segment g) c (unlock Used_segs st)
   }"

fun rest :: "('h, 'd) env \<Rightarrow> phase \<Rightarrow> cleaner \<Rightarrow> ('h, 'd) pmem \<Rightarrow> (cleaner \<times> ('h, 'd) pmem) option" where
  "rest E (Visit cur) c st = clean_pass E cur c st"
| "rest E (Mark cur) c st = do {
     g \<leftarrow> get_seg st cur;
     (chosen, st) \<leftarrow> test_and_set_curr_cleaned E g st;
     (if chosen
      then do { (nxt, c, st) \<leftarrow> clean_segment E cur c st; clean_pass E nxt c st }
      else skip_rest E cur c st)
   }"
| "rest E (Skip cur) c st = skip_rest E cur c st"
| "rest E (Copy cur p) c st = do { (c, st) \<leftarrow> clean_entries E cur p c st; leave_rest E cur c st }"
| "rest E (Leave cur) c st = leave_rest E cur c st"
| "rest E (Release cur nxt) c st = release_rest E cur nxt c st"
| "rest E (Unmark cur nxt) c st = do { g \<leftarrow> get_seg st cur; clean_pass E nxt c (unset_curr_cleaned E g st) }"

lemma release_rest_step: "release_rest E cur nxt c st = thread_step E (Release cur nxt) c st \<bind> (\<lambda>(ph, c, st). rest E ph c st)"
proof -
  have "clean_pass E nxt c (unset_curr_cleaned E g st') = rest E (Unmark cur nxt) c st'"
    if "append_cleaned_segment_to_free_segments E n st = Some st'" "get_seg st cur = Some g" for n g st'
    by (rule append_cleaned_seg [OF that]) simp
  then show ?thesis
    by (auto simp: release_rest_def split: Option.bind_split)
qed

lemma clean_segment_leave:
  "do { (nxt, c, st) \<leftarrow> clean_segment E cur c st; clean_pass E nxt c st } =
   do { g \<leftarrow> get_seg st cur; (c, st) \<leftarrow> (if used_space g \<noteq> 0 then clean_entries E cur 0 c st else Some (c, st)); leave_rest E cur c st }"
proof -
  have "do { g \<leftarrow> get_seg st1 cur; (nxt, c, st) \<leftarrow> (let nxt = next_segment g; st = unlock Used_segs st1 in do {
        st \<leftarrow> append_cleaned_segment_to_free_segments E (seg_id g) st; Some (nxt, c1, unset_curr_cleaned E g st) });
      clean_pass E nxt c st } = do { g \<leftarrow> get_seg st1 cur; release_rest E cur (next_segment g) c1 (unlock Used_segs st1) }" for st1 c1
    by (auto simp: release_rest_def get_seg_def Let_def split: Option.bind_split)
  then show ?thesis
    by (simp add: clean_segment_def leave_rest_def Let_def bind_assoc case_prod_unfold)
qed

lemma test_and_set_segs: "test_and_set_curr_cleaned E g st = Some (b, st') \<Longrightarrow> segs st' = segs st"
  by (auto simp: test_and_set_curr_cleaned_def Let_def split: Option.bind_splits if_splits dest!: lock_ids)

text \<open>The step of a thread is the next part of what is left.\<close>

lemma rest_step: "ph \<noteq> Visit 0 \<Longrightarrow> rest E ph c st = thread_step E ph c st \<bind> (\<lambda>(ph, c, st). rest E ph c st)"
proof (cases ph)
  case (Visit cur)
  assume "ph \<noteq> Visit 0"
  with Visit show ?thesis
    by (subst Visit, subst rest.simps, subst clean_pass.simps)
      (auto simp: skip_rest_def split: Option.bind_split)
next
  case (Mark cur)
  have "do { (nxt, c, st) \<leftarrow> clean_segment E cur c st'; clean_pass E nxt c st } =
      (if used_space g \<noteq> 0 then rest E (Copy cur 0) c st' else rest E (Leave cur) c st')"
    if "test_and_set_curr_cleaned E g st = Some (b, st')" "get_seg st cur = Some g" for g b st'
  proof -
    have "get_seg st' cur = Some g"
      using test_and_set_segs [OF that(1)] that(2) by (auto simp: get_seg_def split: if_splits)
    then show ?thesis by (simp add: clean_segment_leave)
  qed
  with Mark show ?thesis
    by (auto split: Option.bind_split)
next
  case (Copy cur p)
  then show ?thesis
    by (subst Copy, subst rest.simps, subst clean_entries.simps)
      (auto split: Option.bind_split option.split)
next
  case (Release cur nxt)
  then show ?thesis
    using release_rest_step [of E cur nxt c st] by simp
qed (auto simp: skip_rest_def leave_rest_def split: Option.bind_split)

lemma clean_pass_0 [simp]: "clean_pass E 0 c st = Some (c, st)"
  by (subst clean_pass.simps) simp

lemma pass_rest: "pass E x z \<Longrightarrow> (case x of (ph, c, st) \<Rightarrow> rest E ph c st) = Some z"
proof (induction rule: pass.induct)
  case (step ph c st y z)
  then show ?case by (simp add: rest_step split: prod.splits)
qed simp

lemma get_seg_unlock [simp]: "get_seg (unlock l st) cur = get_seg st cur"
  by (simp add: get_seg_def)

lemma pass_leave:
  assumes "lock Used_segs st = Some st1" and "get_seg st1 cur = Some g"
    and "append_cleaned_segment_to_free_segments E (seg_id g) (unlock Used_segs st1) = Some st2"
    and "pass E (Visit (next_segment g), c, unset_curr_cleaned E g st2) z"
  shows "pass E (Leave cur, c, st) z"
proof -
  have g: "get_seg (unlock Used_segs st1) cur = Some g"
    using assms(2) by simp
  obtain g' where g': "get_seg st2 cur = Some g'" "unset_curr_cleaned E g' st2 = unset_curr_cleaned E g st2"
    by (rule append_cleaned_seg [OF assms(3) g])
  let ?n = "next_segment g"
  have "pass E (Unmark cur ?n, c, st2) z"
    by (rule pass.step [OF _ _ assms(4)]) (simp_all add: g')
  then have "pass E (Release cur ?n, c, unlock Used_segs st1) z"
    by (rule pass.step [rotated 2]) (simp_all add: assms(2,3))
  then show ?thesis
    by (rule pass.step [rotated 2]) (simp_all add: assms(1,2))
qed

lemma pass_entries:
  "clean_entries E cur p c st = Some (c', st') \<Longrightarrow> pass E (Leave cur, c', st') z \<Longrightarrow> pass E (Copy cur p, c, st) z"
proof (induction E cur p c st rule: clean_entries.induct)
  case (1 E cur p c st)
  from 1(2) obtain g where g: "get_seg st cur = Some g"
    by (subst (asm) clean_entries.simps) (auto split: option.splits)
  let ?m = "log_entries g"
  show ?case
  proof (cases "p < area_size - sizeof_entry \<and> entry_length ?m p \<noteq> 0")
    case False
    with g have "clean_entries E cur p c st = Some (c, st)"
      by (subst clean_entries.simps) auto
    with 1(2) have "c' = c" "st' = st" by simp_all
    with 1(3) False g show ?thesis
      by (intro pass.step [of "Copy cur p" E c st "(Leave cur, c, st)"]) auto
  next
    case True
    with 1(2) g obtain c1 st1 where c1: "clean_entry E ?m p c st = Some (c1, st1)"
      "clean_entries E cur (p + entry_size ?m p) c1 st1 = Some (c', st')"
      by (subst (asm) clean_entries.simps) (auto split: if_splits Option.bind_splits)
    have "pass E (Copy cur (p + entry_size ?m p), c1, st1) z"
      by (rule 1(1) [OF g _ _ c1(1) refl c1(2) 1(3)]) (use True in simp_all)
    then show ?thesis
      by (rule pass.step [rotated 2]) (use True g c1(1) in simp_all)
  qed
qed

lemma pass_segment:
  assumes r: "clean_segment E cur c st = Some (nxt, c', st')" and g: "get_seg st cur = Some g" and k: "pass E (Visit nxt, c', st') z"
  shows "pass E (if used_space g \<noteq> 0 then Copy cur 0 else Leave cur, c, st) z"
proof -
  from r g obtain c1 st1 st2 g2 st3 where
    1: "(if used_space g \<noteq> 0 then clean_entries E cur 0 c st else Some (c, st)) = Some (c1, st1)"
    and 2: "lock Used_segs st1 = Some st2" "get_seg st2 cur = Some g2"
      "append_cleaned_segment_to_free_segments E (seg_id g2) (unlock Used_segs st2) = Some st3"
    and 3: "nxt = next_segment g2" "c' = c1" "st' = unset_curr_cleaned E g2 st3"
    by (auto simp: clean_segment_def Let_def split: Option.bind_splits)
  have "pass E (Leave cur, c1, st1) z"
    by (rule pass_leave [OF 2]) (use k 3 in simp)
  with 1 show ?thesis
    by (cases "used_space g = 0") (simp_all add: pass_entries [of E cur 0 c st c1 st1 z])
qed

lemma clean_pass_pass:
  assumes "clean_pass E cur c st = Some z"
  shows "pass E (Visit cur, c, st) z"
  using assms
proof (induction rule: clean_pass.raw_induct [rotated, consumes 1, case_names step])
  case (step f E cur c st z)
  show ?case
  proof (cases "cur = 0")
    case True
    with step(2) show ?thesis by (auto intro: pass.stop)
  next
    case False
    with step(2) obtain g chosen st1 where g: "get_seg st cur = Some g"
      "(if to_clean g then test_and_set_curr_cleaned E g st else Some (False, st)) = Some (chosen, st1)"
      and r: "(if chosen then clean_segment E cur c st1 \<bind> (\<lambda>(nxt, c, st). f E nxt c st)
        else lock Used_segs st1 \<bind> (\<lambda>st. get_seg st cur \<bind> (\<lambda>g. f E (next_segment g) c (unlock Used_segs st)))) = Some z"
      by (auto split: Option.bind_splits)
    have g1: "get_seg st1 cur = Some g"
      using g test_and_set_segs [of E g st chosen st1] by (auto simp: get_seg_def split: if_splits)
    have skip: "pass E (Skip cur, c, st1) z" if nc: "\<not> chosen"
    proof -
      obtain st2 g2 where 2: "lock Used_segs st1 = Some st2" "get_seg st2 cur = Some g2" "f E (next_segment g2) c (unlock Used_segs st2) = Some z"
        using r nc by (auto split: Option.bind_splits if_splits)
      show ?thesis
        by (rule pass.step [OF _ _ step(1) [OF 2(3)]]) (simp_all add: 2)
    qed
    have mark: "pass E (Mark cur, c, st) z" if "to_clean g"
    proof (cases chosen)
      case True
      then obtain nxt c2 st2 where 2: "clean_segment E cur c st1 = Some (nxt, c2, st2)" "f E nxt c2 st2 = Some z"
        using r by (auto split: Option.bind_splits if_splits)
      from pass_segment [OF 2(1) g1 step(1) [OF 2(2)]] show ?thesis
        by (rule pass.step [rotated 2]) (use True that g in simp_all)
    next
      case False
      from skip [OF False] show ?thesis
        by (rule pass.step [rotated 2]) (use False that g in simp_all)
    qed
    show ?thesis
    proof (cases "to_clean g")
      case True
      from mark [OF True] show ?thesis
        by (rule pass.step [rotated 2]) (use True False g in simp_all)
    next
      case no: False
      then have "pass E (Skip cur, c, st) z" using skip g by simp
      then show ?thesis
        by (rule pass.step [rotated 2]) (use no False g in simp_all)
    qed
  qed
qed


end
