(* ===== verification/Concurrent.thy ===== *)
theory Concurrent
  imports Machine Restart Cleaner_Steps
begin

text \<open>
  The cleaner threads and the clients of the heap, interleaved at the steps of \<open>Cleaner_Steps\<close>.  Where
  \<open>Machine\<close> takes the cleaning of a segment as one step, here other threads and the commands of
  the interface come between its parts.
\<close>

section \<open>What a thread has done so far\<close>

text \<open>
  The segment a thread is copying from, or has copied all of; the one it has marked in
  \<open>currently_cleaned\<close>; and the entries it has dealt with.
\<close>

fun busy :: "phase \<Rightarrow> pmo set" where
  "busy (Copy cur p) = {cur}"
| "busy (Leave cur) = {cur}"
| "busy (Release cur nxt) = {cur}"
| "busy _ = {}"

fun marked :: "phase \<Rightarrow> pmo set" where
  "marked (Unmark cur nxt) = {cur}"
| "marked ph = busy ph"

fun gone :: "(pmo \<Rightarrow> nat list) \<Rightarrow> phase \<Rightarrow> (pmo \<times> nat) set" where
  "gone P (Copy cur p) = {cur} \<times> {q \<in> set (P cur). q < p}"
| "gone P ph = busy ph \<times> (\<Union>cur \<in> busy ph. set (P cur))"

fun phase_ok :: "lists \<Rightarrow> (pmo \<Rightarrow> nat list) \<Rightarrow> (pmo \<Rightarrow> nat) \<Rightarrow> phase \<Rightarrow> bool" where
  "phase_ok A P Q (Visit cur) = (cur \<in> insert 0 (set (all_segs A)))"
| "phase_ok A P Q (Mark cur) = (cur \<in> set (all_segs A))"
| "phase_ok A P Q (Skip cur) = (cur \<in> set (all_segs A))"
| "phase_ok A P Q (Copy cur p) = (cur \<in> set (l_used A) \<and> p \<in> insert (Q cur) (set (P cur)))"
| "phase_ok A P Q (Leave cur) = (cur \<in> set (l_used A))"
| "phase_ok A P Q (Release cur nxt) = (cur \<in> set (l_used A) \<and> nxt \<in> insert 0 (set (all_segs A)))"
| "phase_ok A P Q (Unmark cur nxt) = (cur \<in> set (all_segs A) \<and> nxt \<in> insert 0 (set (all_segs A)))"

lemma busy_marked: "busy ph \<subseteq> marked ph"
  by (cases ph) auto

lemma busy_used: "phase_ok A P Q ph \<Longrightarrow> s \<in> busy ph \<Longrightarrow> s \<in> set (l_used A)"
  by (cases ph) auto

lemma marked_all: "phase_ok A P Q ph \<Longrightarrow> s \<in> marked ph \<Longrightarrow> s \<in> set (all_segs A)"
  by (cases ph) (auto simp: all_segs_def)

lemma gone_busy: "x \<in> gone P ph \<Longrightarrow> fst x \<in> busy ph"
  by (cases ph) auto

text \<open>
  The step a thread may take.  A segment is only marked while it is still a used segment, and there
  is room for an entry that has to be moved; both are up to the other threads and the clients.
\<close>

definition on_used :: "('h, 'd) pmem \<Rightarrow> pmo \<Rightarrow> bool" where
  "on_used st cur \<longleftrightarrow> (\<exists>ss. path (nexts (segs st)) (used_segments (plog st)) ss 0 \<and> cur \<in> set ss)"

definition fits :: "cleaner \<Rightarrow> nat \<Rightarrow> ('h, 'd) pmem \<Rightarrow> bool" where
  "fits c n st \<longleftrightarrow> cl_pos c + n \<le> area_size \<or>
     (free_segments (plog st) \<noteq> 0 \<or> emergency_cleaner_segments (plog st) \<noteq> 0) \<and>
     blank (mem (segs st) (cl_seg c)) (cl_pos c)"

fun enabled :: "('h, 'd) env \<Rightarrow> phase \<Rightarrow> cleaner \<Rightarrow> ('h, 'd) pmem \<Rightarrow> bool" where
  "enabled E (Mark cur) c st = on_used st cur"
| "enabled E (Copy cur p) c st = (index E st (entry_id (mem (segs st) cur) p) = Some (entry_off cur p) \<longrightarrow>
     fits c (entry_size (mem (segs st) cur) p) st)"
| "enabled E _ c st = True"

section \<open>One step of a thread\<close>

text \<open>
  The thread is at \<open>ph\<close>; \<open>D\<close> and \<open>X\<close> are the entries and the segments the other
  threads have dealt with.
\<close>

definition thread_in ::
  "('h, 'd) env \<Rightarrow> phase \<Rightarrow> cleaner \<Rightarrow> ('h, 'd) pmem \<Rightarrow> lists \<Rightarrow> (pmo \<Rightarrow> nat list) \<Rightarrow> (pmo \<Rightarrow> nat) \<Rightarrow>
   (pmo \<times> nat) set \<Rightarrow> pmo set \<Rightarrow> bool" where
  "thread_in E ph c st A P Q D X \<longleftrightarrow> state_ok True E st A P Q (gone P ph \<union> D) (busy ph \<union> X) \<and> held st = {} \<and>
     cleaner_at c A Q \<and> phase_ok A P Q ph"

text \<open>What the step leaves to the other threads.\<close>

definition step_frame ::
  "('h, 'd) env \<Rightarrow> pmo set \<Rightarrow> cleaner \<Rightarrow> ('h, 'd) pmem \<Rightarrow> lists \<Rightarrow> (pmo \<Rightarrow> nat list) \<Rightarrow> (pmo \<Rightarrow> nat) \<Rightarrow>
   cleaner \<Rightarrow> ('h, 'd) pmem \<Rightarrow> lists \<Rightarrow> (pmo \<Rightarrow> nat list) \<Rightarrow> (pmo \<Rightarrow> nat) \<Rightarrow> bool" where
  "step_frame E B c st A P Q c' st' A' P' Q' \<longleftrightarrow> others c A Q c' A' Q' \<and>
     (\<forall>s \<in> set (l_used A) - B. s \<in> set (l_used A') \<and> P' s = P s \<and> Q' s = Q s) \<and> set (all_segs A') = set (all_segs A) \<and>
     contents E st' = contents E st \<and> consistent st' = consistent st \<and> ids (segs st') = ids (segs st)"

lemma step_frame_used:
  "others c A Q c' A' Q' \<Longrightarrow> used_frame A P Q A' P' Q' \<Longrightarrow> contents E st' = contents E st \<Longrightarrow> consistent st' = consistent st \<Longrightarrow>
   ids (segs st') = ids (segs st) \<Longrightarrow> step_frame E B c st A P Q c' st' A' P' Q'"
  by (auto simp: step_frame_def used_frame_def)

lemma step_frame_refl: "contents E st' = contents E st \<Longrightarrow> consistent st' = consistent st \<Longrightarrow> ids (segs st') = ids (segs st) \<Longrightarrow>
    step_frame E B c st A P Q c st' A P Q"
  by (simp add: step_frame_def)

lemma path_next: "path n p xs 0 \<Longrightarrow> s \<in> set xs \<Longrightarrow> n s = Some y \<Longrightarrow> y \<in> insert 0 (set xs)"
proof (induction xs arbitrary: p)
  case (Cons x xs)
  then show ?case by (cases xs) auto
qed simp

lemma all_seg:
  assumes ok: "heap_ok E st A P Q" and s: "cur \<in> set (all_segs A)"
  obtains g where "cur \<noteq> 0" "segs st cur = Some g" "get_seg st cur = Some g" "next_segment g \<in> insert 0 (set (all_segs A))"
proof -
  note lo = heap_okD(1) [OF ok]
  obtain g where g: "cur \<noteq> 0" "segs st cur = Some g"
    using lists_ok_dom [OF lo s] by blast
  then have n: "nexts (segs st) cur = Some (next_segment g)" by (simp add: nexts_def)
  have "\<exists>first lst xs. seg_list (nexts (segs st)) first lst xs \<and> cur \<in> set xs \<and> set xs \<subseteq> set (all_segs A)"
  proof -
    consider "cur \<in> set (l_head A)" | "cur \<in> set (l_free A)" | "cur \<in> set (l_used A)" | "cur \<in> set (l_cleaner A)" | "cur \<in> set (l_emergency A)"
      using s by (auto simp: all_segs_def)
    then show ?thesis
      by cases (rule exI, rule exI, rule exI, rule conjI, rule lists_okD [OF lo], force simp: all_segs_def)+
  qed
  then obtain first xs where "path (nexts (segs st)) first xs 0" "cur \<in> set xs" "set xs \<subseteq> set (all_segs A)"
    by (auto simp: seg_list_def)
  then have "next_segment g \<in> insert 0 (set (all_segs A))"
    using path_next [of _ first xs cur "next_segment g"] n by blast
  with g show ?thesis by (intro that) (simp_all add: get_seg_def)
qed

lemma lay_next:
  "lay m a ps q \<Longrightarrow> p \<in> set ps \<Longrightarrow>
   p + entry_size m p \<in> insert q (set ps) \<and> {x \<in> set ps. x < p + entry_size m p} = insert p {x \<in> set ps. x < p}"
proof (induction ps arbitrary: a)
  case (Cons y ys)
  then have y: "y = a" "lay m (a + entry_size m a) ys q" by auto
  have ge: "a + entry_size m a \<le> x" if "x \<in> set ys" for x
    using lay_mem [OF y(2) that] by simp
  have pos: "0 < entry_size m x" for x by (simp add: entry_size_def)
  show ?case
  proof (cases "p = a")
    case True
    have "p \<notin> set ys" using ge [of p] pos [of a] True by auto
    moreover have "a + entry_size m a \<in> insert q (set ys)"
      using y(2) by (cases ys) auto
    moreover have "{x \<in> set (y # ys). x < a + entry_size m a} = {a}" "{x \<in> set (y # ys). x < a} = {}"
      using y(1) ge pos [of a] by (auto simp: not_less dest: ge)
    ultimately show ?thesis
      using True y(1) by auto
  next
    case False
    then have p: "p \<in> set ys" using Cons.prems(2) y(1) by simp
    have "a < p" using ge [OF p] pos [of a] by linarith
    then have "{x \<in> set (y # ys). x < k} = insert a {x \<in> set ys. x < k}" if "p \<le> k" for k
      using y(1) that by auto
    from this [of p] this [of "p + entry_size m p"] Cons.IH [OF y(2) p] show ?thesis
      by (simp add: insert_commute) blast
  qed
qed simp

lemma copy_phase:
  assumes E: "glib_ok E" and t: "thread_in E (Copy cur p) c st A P Q D X" and n: "cur \<notin> X" "\<forall>x \<in> D. fst x \<in> X"
    and f: "enabled E (Copy cur p) c st"
  obtains ph' c' st' A' P' Q' where "thread_step E (Copy cur p) c st = Some (ph', c', st')" "thread_in E ph' c' st' A' P' Q' D X"
    "busy ph' = {cur}" "marked ph' = {cur}" "step_frame E {} c st A P Q c' st' A' P' Q'" "currently_cleaned st' = currently_cleaned st"
proof -
  let ?D = "gone P (Copy cur p) \<union> D"
  have sok: "state_ok True E st A P Q ?D (insert cur X)" and held: "held st = {}" and c: "cleaner_at c A Q"
    and cu: "cur \<in> set (l_used A)" "p \<in> insert (Q cur) (set (P cur))"
    using t by (simp_all add: thread_in_def)
  note hok = state_okD(1) [OF sok]
  note lo = heap_okD(1,2) [OF hok]
  have cA: "cur \<in> set (data_segs A)" "cur \<in> set (all_segs A)" using cu(1) by (simp_all add: data_segs_def all_segs_def)
  obtain g where g: "cur \<noteq> 0" "segs st cur = Some g" "get_seg st cur = Some g"
    by (rule all_seg [OF hok cA(2)]) blast
  let ?m = "log_entries g"
  have l: "lay ?m 0 (P cur) (Q cur)" "ended ?m (Q cur)"
    using lo(2) cA cu(1) g(2) by (auto simp: layout_ok_def)
  have Qc: "Q cur \<le> area_size"
    by (rule layout_seg [OF lo cA(1)])
  have below: "x < Q cur" if "x \<in> set (P cur)" for x
    using lay_mem [OF l(1) that] by (simp add: entry_size_def)
  show ?thesis
  proof (cases "p \<in> set (P cur)")
    case False
    then have p: "p = Q cur" using cu(2) by simp
    have "gone P (Copy cur p) = gone P (Leave cur)"
      using below p by auto
    then have "thread_in E (Leave cur) c st A P Q D X"
      using t by (simp add: thread_in_def)
    moreover have "thread_step E (Copy cur p) c st = Some (Leave cur, c, st)"
      using g(3) l(2) p by (auto simp: ended_def)
    ultimately show ?thesis
      by (intro that [of "Leave cur" c st A P Q]) (simp_all add: step_frame_refl)
  next
    case True
    have e: "(cur, p) \<in> entries A P" "(cur, p) \<notin> ?D" "?m = mem (segs st) cur"
      using True cA n g(2) by (auto simp: entries_def)
    have len: "0 < entry_length ?m p" "p + entry_size ?m p \<le> Q cur"
      using lay_mem [OF l(1) True] by auto
    let ?n = "entry_size ?m p" and ?L = "live (segs st) (index E st) P cur"
    have sf: "safe c st A (if p \<in> ?L then ?n else 0)"
    proof (cases "p \<in> ?L")
      case True
      then have "fits c ?n st"
        using f e(3) live_iff [of cur p A P st E] e(1) by simp
      then show ?thesis
        using True len Qc avail_iff [OF lo(1)] by (auto simp: fits_def safe_def)
    next
      case False
      have "cl_seg c \<in> set (data_segs A)" using c by (simp add: cleaner_at_def data_segs_def)
      then have "cl_pos c \<le> area_size"
        using layout_seg [OF lo] c by (metis cleaner_at_def)
      with False show ?thesis by (simp add: safe_def)
    qed
    have cln: "cleaning E (insert cur X) cur c st A P Q ?D"
      using sok held cu(1) c by (simp add: cleaning_def cleaner_at_def)
    have le: "p \<in> ?L \<Longrightarrow> ?n \<le> (if p \<in> ?L then ?n else 0)" by simp
    from clean_entry_ok [OF E cln e sf le] obtain c' st' A' P' Q' where r: "clean_entry E ?m p c st = Some (c', st')"
      "cleaning E (insert cur X) cur c' st' A' P' Q' (insert (cur, p) ?D)" "clean_frame E cur st P Q st' P' Q'"
      "others c A Q c' A' Q'" "used_frame A P Q A' P' Q'"
      by blast
    note nx = lay_next [OF l(1) True]
    have fr: "P' cur = P cur" "Q' cur = Q cur" "contents E st' = contents E st" "consistent st' = consistent st"
      "ids (segs st') = ids (segs st)" "currently_cleaned st' = currently_cleaned st"
      using r(3) by (simp_all add: clean_frame_def same_marks_def)
    have "gone P' (Copy cur (p + ?n)) = insert (cur, p) (gone P (Copy cur p))"
      using nx fr(1) by auto
    then have "thread_in E (Copy cur (p + ?n)) c' st' A' P' Q' D X"
      using r(2) nx fr(1,2) by (simp add: thread_in_def cleaning_def cleaner_at_def)
    moreover have "thread_step E (Copy cur p) c st = Some (Copy cur (p + ?n), c', st')"
      using g(3) len Qc r(1) by (simp add: entry_size_def)
    moreover have "step_frame E {} c st A P Q c' st' A' P' Q'"
      by (rule step_frame_used [OF r(4,5)]) (simp_all add: fr)
    ultimately show ?thesis
      by (intro that [of "Copy cur (p + ?n)" c' st' A' P' Q']) (simp_all add: fr)
  qed
qed

text \<open>The segments in \<open>S\<close> are marked in \<open>currently_cleaned\<close>.\<close>

definition is_noted :: "('h, 'd) env \<Rightarrow> ('h, 'd) pmem \<Rightarrow> pmo \<Rightarrow> bool" where
  "is_noted E st s \<longleftrightarrow> (\<exists>i. ids (segs st) s = Some i \<and> gh_contains E (currently_cleaned st) i)"

abbreviation noted :: "('h, 'd) env \<Rightarrow> ('h, 'd) pmem \<Rightarrow> pmo set \<Rightarrow> bool" where
  "noted E st S \<equiv> \<forall>s \<in> S. is_noted E st s"

lemma is_noted_cong: "ids (segs st') = ids (segs st) \<Longrightarrow> currently_cleaned st' = currently_cleaned st \<Longrightarrow> is_noted E st' s = is_noted E st s"
  by (simp add: is_noted_def)

lemma lock_run:
  assumes "held st = {}"
  shows "lock l st = Some (st\<lparr>held := {l}\<rparr>)" "unlock l (st\<lparr>held := {l}\<rparr>) = st"
  using assms by (simp_all add: lock_def unlock_def)

lemma get_seg_held [simp]: "get_seg (st\<lparr>held := h\<rparr>) s = get_seg st s"
  by (simp add: get_seg_def)

text \<open>The thread takes a step, while \<open>M\<close> are the segments the other threads have marked.\<close>

definition goes ::
  "('h, 'd) env \<Rightarrow> phase \<Rightarrow> cleaner \<Rightarrow> ('h, 'd) pmem \<Rightarrow> lists \<Rightarrow> (pmo \<Rightarrow> nat list) \<Rightarrow> (pmo \<Rightarrow> nat) \<Rightarrow>
   (pmo \<times> nat) set \<Rightarrow> pmo set \<Rightarrow> pmo set \<Rightarrow> bool" where
  "goes E ph c st A P Q D X M \<longleftrightarrow> (\<exists>ph' c' st' A' P' Q'. thread_step E ph c st = Some (ph', c', st') \<and>
     thread_in E ph' c' st' A' P' Q' D X \<and> step_frame E (busy ph) c st A P Q c' st' A' P' Q' \<and>
     marked ph' \<inter> M = {} \<and> noted E st' (marked ph' \<union> M))"

lemma goesI:
  "thread_step E ph c st = Some (ph', c', st') \<Longrightarrow> thread_in E ph' c' st' A' P' Q' D X \<Longrightarrow>
   step_frame E (busy ph) c st A P Q c' st' A' P' Q' \<Longrightarrow> marked ph' \<inter> M = {} \<Longrightarrow> noted E st' (marked ph' \<union> M) \<Longrightarrow>
   goes E ph c st A P Q D X M"
  unfolding goes_def by blast

lemma go_Visit:
  assumes t: "thread_in E (Visit cur) c st A P Q D X" and M: "noted E st M"
  shows "goes E (Visit cur) c st A P Q D X M"
proof -
  have sok: "state_ok True E st A P Q D X" and cu: "cur \<in> insert 0 (set (all_segs A))"
    using t by (simp_all add: thread_in_def)
  note hok = state_okD(1) [OF sok]
  show ?thesis
  proof (cases "cur = 0")
    case True
    have "path (nexts (segs st)) (used_segments (plog st)) (l_used A) 0"
      using lists_okD(3) [OF heap_okD(1) [OF hok]] by (simp add: seg_list_def)
    from path_first [OF this] have "used_segments (plog st) \<in> insert 0 (set (all_segs A))"
      by (auto simp: all_segs_def)
    then have "thread_in E (Visit (used_segments (plog st))) c st A P Q D X"
      using t by (simp add: thread_in_def)
    then show ?thesis
      using M by (intro goesI [where ph' = "Visit (used_segments (plog st))", OF _ _ step_frame_refl]) (simp_all add: True)
  next
    case False
    then have "cur \<in> set (all_segs A)" using cu by simp
    from all_seg [OF hok this] obtain g where g: "get_seg st cur = Some g" by blast
    have "thread_in E (if to_clean g then Mark cur else Skip cur) c st A P Q D X"
      using t False by (simp add: thread_in_def)
    then show ?thesis
      using M by (intro goesI [where ph' = "if to_clean g then Mark cur else Skip cur", OF _ _ step_frame_refl]) (simp_all add: False g)
  qed
qed

lemma go_Skip:
  assumes t: "thread_in E (Skip cur) c st A P Q D X" and M: "noted E st M"
  shows "goes E (Skip cur) c st A P Q D X M"
proof -
  have sok: "state_ok True E st A P Q D X" and cu: "cur \<in> set (all_segs A)" and h: "held st = {}"
    using t by (simp_all add: thread_in_def)
  obtain g where g: "get_seg st cur = Some g" "next_segment g \<in> insert 0 (set (all_segs A))"
    by (rule all_seg [OF state_okD(1) [OF sok] cu])
  have "thread_step E (Skip cur) c st = Some (Visit (next_segment g), c, st)"
    using g(1) lock_run [OF h] by simp
  moreover have "thread_in E (Visit (next_segment g)) c st A P Q D X"
    using t g(2) by (simp add: thread_in_def)
  ultimately show ?thesis
    using M by (intro goesI [where ph' = "Visit (next_segment g)", OF _ _ step_frame_refl]) simp_all
qed

lemma go_Leave:
  assumes t: "thread_in E (Leave cur) c st A P Q D X" and M: "noted E st M" "is_noted E st cur" "cur \<notin> M"
  shows "goes E (Leave cur) c st A P Q D X M"
proof -
  have sok: "state_ok True E st A P Q (gone P (Leave cur) \<union> D) (busy (Leave cur) \<union> X)" and cu: "cur \<in> set (all_segs A)" and h: "held st = {}"
    using t by (simp_all add: thread_in_def all_segs_def)
  obtain g where g: "get_seg st cur = Some g" "next_segment g \<in> insert 0 (set (all_segs A))"
    by (rule all_seg [OF state_okD(1) [OF sok] cu])
  have "thread_step E (Leave cur) c st = Some (Release cur (next_segment g), c, st)"
    using g(1) lock_run [OF h] by simp
  moreover have "thread_in E (Release cur (next_segment g)) c st A P Q D X"
    using t g(2) by (simp add: thread_in_def)
  ultimately show ?thesis
    using M by (intro goesI [where ph' = "Release cur (next_segment g)", OF _ _ step_frame_refl]) simp_all
qed

lemma go_Copy:
  assumes E: "glib_ok E" and t: "thread_in E (Copy cur p) c st A P Q D X" and n: "cur \<notin> X" "\<forall>x \<in> D. fst x \<in> X"
    and f: "enabled E (Copy cur p) c st" and M: "noted E st M" "is_noted E st cur" "cur \<notin> M"
  shows "goes E (Copy cur p) c st A P Q D X M"
proof -
  obtain ph' c' st' A' P' Q' where r: "thread_step E (Copy cur p) c st = Some (ph', c', st')" "thread_in E ph' c' st' A' P' Q' D X"
    "busy ph' = {cur}" "marked ph' = {cur}" "step_frame E {} c st A P Q c' st' A' P' Q'" "currently_cleaned st' = currently_cleaned st"
    by (rule copy_phase [OF E t n f])
  have i: "ids (segs st') = ids (segs st)" using r(5) by (simp add: step_frame_def)
  show ?thesis
  proof (rule goesI [OF r(1,2)])
    show "step_frame E (busy (Copy cur p)) c st A P Q c' st' A' P' Q'"
      using r(5) by (simp add: step_frame_def)
  qed (use r(4) M is_noted_cong [OF i r(6)] in simp_all)
qed

lemma test_and_set_run:
  "held st = {} \<Longrightarrow> test_and_set_curr_cleaned E g st = Some (if gh_contains E (currently_cleaned st) (seg_id g) then (False, st)
    else (True, st\<lparr>currently_cleaned := gh_insert E (currently_cleaned st) (seg_id g) (unat (seg_id g))\<rparr>))"
  by (cases st) (simp add: test_and_set_curr_cleaned_def lock_def unlock_def)

lemma on_usedI: "heap_ok E st A P Q \<Longrightarrow> on_used st cur \<longleftrightarrow> cur \<in> set (l_used A)"
  using lists_okD(3) [OF heap_okD(1), of E st A P Q] path_unique [of "nexts (segs st)" "used_segments (plog st)" _ "l_used A"]
  by (auto simp: on_used_def seg_list_def)

lemma contains_map: "gh_contains E h i \<longleftrightarrow> gh_map E h i \<noteq> None"
  using gh_map_None [of E h i] by simp

lemma contains_insert: "glib_ok E \<Longrightarrow> gh_contains E (gh_insert E h k v) i \<longleftrightarrow> i = k \<or> gh_contains E h i"
  unfolding contains_map by (simp add: glib_okD(2))

lemma contains_remove: "glib_ok E \<Longrightarrow> gh_contains E (gh_remove E h k) i \<longleftrightarrow> i \<noteq> k \<and> gh_contains E h i"
  unfolding contains_map by (simp add: glib_okD(3))

lemma state_ok_mono: "state_ok b E st A P Q D X \<Longrightarrow> X \<subseteq> Y \<Longrightarrow> state_ok b E st A P Q D Y"
  by (auto simp: state_ok_def used_ok_def)

text \<open>A used segment without used space holds no live entry: all of its entries may go.\<close>

lemma state_ok_empty:
  assumes ok: "state_ok True E st A P Q D X" and s: "s \<in> set (data_segs A)" "s \<notin> X" "segs st s = Some g" "used_space g = 0"
  shows "state_ok True E st A P Q ({s} \<times> set (P s) \<union> D) (insert s X)"
proof -
  have "live_bytes (segs st) (index E st) P s = unat (used_of (segs st) s)"
    using state_okD(3) [OF ok TrueI] s(1,2) by (simp add: used_ok_def)
  also have "\<dots> = 0"
    using s(3,4) by (simp add: used_of_def)
  finally have "(\<Sum>p \<in> live (segs st) (index E st) P s. entry_size (mem (segs st) s) p) = 0"
    by (simp add: live_bytes_def)
  then have "live (segs st) (index E st) P s = {}"
    by (auto simp: entry_size_def live_def)
  then have "tidy (segs st) (index E st) A P (D \<union> {s} \<times> set (P s))"
    using s(1) by (intro tidy_drops [OF state_okD(2) [OF ok TrueI]]) (auto simp: live_def entries_def)
  then show ?thesis
    using state_ok_mono [OF ok, of "insert s X"] by (auto simp: state_ok_def Un_commute)
qed

lemma go_Mark:
  assumes E: "glib_ok E" and t: "thread_in E (Mark cur) c st A P Q D X" and n: "X \<subseteq> M"
    and f: "enabled E (Mark cur) c st" and M: "noted E st M"
  shows "goes E (Mark cur) c st A P Q D X M"
proof -
  have sok: "state_ok True E st A P Q D X" and cu: "cur \<in> set (all_segs A)" and h: "held st = {}"
    using t by (simp_all add: thread_in_def)
  note hok = state_okD(1) [OF sok]
  obtain g where g: "segs st cur = Some g" "get_seg st cur = Some g"
    by (rule all_seg [OF hok cu]) blast
  let ?st = "st\<lparr>currently_cleaned := gh_insert E (currently_cleaned st) (seg_id g) (unat (seg_id g))\<rparr>"
  show ?thesis
  proof (cases "gh_contains E (currently_cleaned st) (seg_id g)")
    case True
    then have "thread_step E (Mark cur) c st = Some (Skip cur, c, st)"
      using g(2) test_and_set_run [OF h] by simp
    moreover have "thread_in E (Skip cur) c st A P Q D X"
      using t by (simp add: thread_in_def)
    ultimately show ?thesis
      using M by (intro goesI [where ph' = "Skip cur", OF _ _ step_frame_refl]) simp_all
  next
    case False
    let ?ph = "if used_space g \<noteq> 0 then Copy cur 0 else Leave cur"
    have us: "cur \<in> set (l_used A)" "cur \<in> set (data_segs A)"
      using f on_usedI [OF hok] by (simp_all add: data_segs_def)
    have fresh: "cur \<notin> M"
      using False M g(1) by (auto simp: is_noted_def ids_def)
    have "0 \<in> insert (Q cur) (set (P cur))"
      using heap_okD(2) [OF hok] us(2) by (cases "P cur") (auto simp: layout_ok_def)
    moreover have "state_ok True E st A P Q (gone P ?ph \<union> D) (busy ?ph \<union> X)"
      using state_ok_mono [OF sok, of "insert cur X"] state_ok_empty [OF sok us(2) _ g(1)] fresh n by auto
    ultimately have "thread_in E ?ph c ?st A P Q D X"
      using t us(1) by (simp add: thread_in_def)
    moreover have "thread_step E (Mark cur) c st = Some (?ph, c, ?st)"
      using False g(2) test_and_set_run [OF h] by simp
    moreover have "is_noted E ?st s" if "s \<in> insert cur M" for s
      using that M g(1) by (auto simp: is_noted_def ids_def contains_insert [OF E])
    ultimately show ?thesis
      using fresh by (intro goesI [where ph' = ?ph and st' = ?st, OF _ _ step_frame_refl]) simp_all
  qed
qed

lemma go_Unmark:
  assumes E: "glib_ok E" and t: "thread_in E (Unmark cur nxt) c st A P Q D X" 
    and M: "noted E st M" "cur \<notin> M" "M \<subseteq> set (all_segs A)"
  shows "goes E (Unmark cur nxt) c st A P Q D X M"
proof -
  have sok: "state_ok True E st A P Q D X" and cu: "cur \<in> set (all_segs A)" and h: "held st = {}"
    using t by (simp_all add: thread_in_def)
  note hok = state_okD(1) [OF sok]
  obtain g where g: "segs st cur = Some g" "get_seg st cur = Some g"
    by (rule all_seg [OF hok cu]) blast
  let ?st = "unset_curr_cleaned E g st"
  have "is_noted E ?st s" if s: "s \<in> M" for s
  proof -
    have "ids (segs st) s \<noteq> ids (segs st) cur"
      using lists_okD(7) [OF heap_okD(1) [OF hok]] cu M(2,3) s by (auto simp: inj_on_def)
    with M(1) s g(1) show ?thesis
      by (auto simp: is_noted_def unset_curr_cleaned_def contains_remove [OF E] ids_def)
  qed
  moreover have "thread_in E (Visit nxt) c ?st A P Q D X"
    using t by (simp add: thread_in_def unset_curr_cleaned_def)
  moreover have "thread_step E (Unmark cur nxt) c st = Some (Visit nxt, c, ?st)"
    using g(2) by simp
  ultimately show ?thesis
    by (intro goesI [where ph' = "Visit nxt" and st' = ?st, OF _ _ step_frame_refl]) (simp_all add: unset_curr_cleaned_def)
qed

lemma go_Release:
  assumes t: "thread_in E (Release cur nxt) c st A P Q D X" and n: "cur \<notin> X" "\<forall>x \<in> D. fst x \<in> X"
    and M: "noted E st M" "is_noted E st cur" "cur \<notin> M"
  shows "goes E (Release cur nxt) c st A P Q D X M"
proof -
  have sok: "state_ok True E st A P Q ({cur} \<times> set (P cur) \<union> D) (insert cur X)" and cu: "cur \<in> set (l_used A)" "cur \<in> set (all_segs A)"
    and h: "held st = {}" and c: "cleaner_at c A Q"
    using t by (simp_all add: thread_in_def all_segs_def)
  note hok = state_okD(1) [OF sok]
  obtain g where g: "segs st cur = Some g" "get_seg st cur = Some g"
    by (rule all_seg [OF hok cu(2)]) blast
  obtain xs ys where us: "l_used A = xs @ cur # ys"
    using split_list [OF cu(1)] by blast
  let ?A = "abs_release cur (A\<lparr>l_used := xs @ ys\<rparr>)"
  have dx: "{cur} \<times> set (P cur) \<union> D - {cur} \<times> set (P cur) = D" "insert cur X - {cur} = X"
    using n by auto
  obtain st' where st': "append_cleaned_segment_to_free_segments E (seg_id g) st = Some st'"
    "state_ok True E st' ?A P Q D X" "contents E st' = contents E st" "list_frame st st'"
    by (rule release_state_ok [OF sok Un_upper1 h g(1) us]) (simp only: dx that)
  note f = list_frame_held [OF st'(4)] list_frame_marks [OF st'(4)]
  have all: "set (all_segs ?A) = set (all_segs A)"
    using us by (auto simp: all_segs_def abs_release_def)
  have "thread_in E (Unmark cur nxt) c st' ?A P Q D X"
    using t st'(2) f h c cu(2) all by (simp add: thread_in_def cleaner_at_def abs_release_def)
  moreover have "thread_step E (Release cur nxt) c st = Some (Unmark cur nxt, c, st')"
    using g(2) st'(1) by simp
  moreover have "step_frame E {cur} c st A P Q c st' ?A P Q"
    using st'(3) f all us by (auto simp: step_frame_def same_marks_def others_def abs_release_def)
  moreover have "is_noted E st' s = is_noted E st s" for s
    using f by (intro is_noted_cong) (simp_all add: same_marks_def)
  ultimately show ?thesis
    using M by (intro goesI [where ph' = "Unmark cur nxt" and c' = c and st' = st' and A' = ?A and P' = P and Q' = Q]) simp_all
qed

lemma go_step:
  assumes E: "glib_ok E" and t: "thread_in E ph c st A P Q D X" and n: "X \<subseteq> M" "\<forall>x \<in> D. fst x \<in> X" "M \<subseteq> set (all_segs A)"
    and f: "enabled E ph c st" and M: "noted E st (marked ph \<union> M)" "marked ph \<inter> M = {}"
  shows "goes E ph c st A P Q D X M"
proof (cases ph)
  case (Copy cur p)
  have "cur \<notin> M" using M(2) Copy by simp
  then show ?thesis
    using go_Copy [OF E t [unfolded Copy] _ n(2) f [unfolded Copy]] n(1) M(1) Copy by auto
next
  case (Release cur nxt)
  have "cur \<notin> M" using M(2) Release by simp
  then show ?thesis
    using go_Release [OF t [unfolded Release] _ n(2)] n(1) M(1) Release by auto
qed (use t n f M E in \<open>auto intro: go_Visit go_Skip go_Leave go_Mark go_Unmark\<close>)

section \<open>All threads\<close>

fun exclusive :: "phase list \<Rightarrow> bool" where
  "exclusive [] = True"
| "exclusive (ph # phs) = (marked ph \<inter> \<Union> (marked ` set phs) = {} \<and> exclusive phs)"

lemma exclusive_split:
  "exclusive (xs @ ph # ys) \<longleftrightarrow> exclusive (xs @ ys) \<and> marked ph \<inter> \<Union> (marked ` (set xs \<union> set ys)) = {}"
  by (induction xs) auto

text \<open>
  The heap with its threads: no two threads have marked the same segment, and all of them are marked
  in \<open>currently_cleaned\<close>.
\<close>

definition ordered :: "('h, 'd) env \<Rightarrow> thread list \<Rightarrow> ('h, 'd) pmem \<Rightarrow> bool" where
  "ordered E ts st \<longleftrightarrow> held st = {} \<and> exclusive (map fst ts) \<and> noted E st (\<Union> (marked ` fst ` set ts)) \<and>
     (\<exists>A P Q. state_ok True E st A P Q (\<Union> (gone P ` fst ` set ts)) (\<Union> (busy ` fst ` set ts)) \<and>
       threads_at (map snd ts) A Q \<and> (\<forall>ph \<in> fst ` set ts. phase_ok A P Q ph))"

lemma orderedI:
  "held st = {} \<Longrightarrow> exclusive (map fst ts) \<Longrightarrow> noted E st (\<Union> (marked ` fst ` set ts)) \<Longrightarrow>
   state_ok True E st A P Q (\<Union> (gone P ` fst ` set ts)) (\<Union> (busy ` fst ` set ts)) \<Longrightarrow> threads_at (map snd ts) A Q \<Longrightarrow>
   \<forall>ph \<in> fst ` set ts. phase_ok A P Q ph \<Longrightarrow> ordered E ts st"
  unfolding ordered_def by blast

lemma orderedE:
  assumes "ordered E ts st"
  obtains A P Q where "state_ok True E st A P Q (\<Union> (gone P ` fst ` set ts)) (\<Union> (busy ` fst ` set ts))"
    "threads_at (map snd ts) A Q" "\<forall>ph \<in> fst ` set ts. phase_ok A P Q ph"
    "held st = {}" "exclusive (map fst ts)" "noted E st (\<Union> (marked ` fst ` set ts))"
  using assms unfolding ordered_def by (elim conjE exE) (rule that)

lemma gone_cong: "(\<And>s. s \<in> busy ph \<Longrightarrow> P' s = P s) \<Longrightarrow> gone P' ph = gone P ph"
  by (cases ph) auto

lemma phase_ok_cong:
  assumes "phase_ok A P Q ph" and "\<And>s. s \<in> busy ph \<Longrightarrow> s \<in> set (l_used A') \<and> P' s = P s \<and> Q' s = Q s"
    and "set (all_segs A') = set (all_segs A)"
  shows "phase_ok A' P' Q' ph"
proof (cases ph)
  case (Copy cur p)
  from assms(2) [of cur] have "cur \<in> set (l_used A')" "P' cur = P cur" "Q' cur = Q cur"
    by (simp_all add: Copy)
  with assms(1) show ?thesis by (simp add: Copy)
next
  case (Leave cur)
  from assms(2) [of cur] show ?thesis by (simp add: Leave)
next
  case (Release cur nxt)
  from assms(2) [of cur] have "cur \<in> set (l_used A')" by (simp add: Release)
  with assms(1,3) show ?thesis by (simp add: Release)
qed (use assms(1,3) in simp_all)

lemma cleaner_frame_used: "cleaner_frame A P Q A' P' Q' \<Longrightarrow> s \<in> set (l_used A) \<Longrightarrow> s \<in> set (l_used A') \<and> P' s = P s \<and> Q' s = Q s"
  by (simp add: cleaner_frame_def)

lemma used_frame_used: "used_frame A P Q A' P' Q' \<Longrightarrow> s \<in> set (l_used A) \<Longrightarrow> s \<in> set (l_used A') \<and> P' s = P s \<and> Q' s = Q s"
  by (simp add: used_frame_def)

text \<open>A step of someone else leaves what the threads at the phases \<open>S\<close> rely on.\<close>

lemma phases_frame:
  assumes ok: "\<forall>ph \<in> S. phase_ok A P Q ph"
    and same: "\<And>s. s \<in> set (l_used A) \<Longrightarrow> s \<in> \<Union> (busy ` S) \<Longrightarrow> s \<in> set (l_used A') \<and> P' s = P s \<and> Q' s = Q s"
    and all: "set (all_segs A') = set (all_segs A)"
  shows "\<Union> (gone P' ` S) = \<Union> (gone P ` S)" and "\<forall>ph \<in> S. phase_ok A' P' Q' ph"
proof -
  have k: "s \<in> set (l_used A') \<and> P' s = P s \<and> Q' s = Q s" if "ph \<in> S" "s \<in> busy ph" for s ph
    using same busy_used [of A P Q ph s] ok that by blast
  have "gone P' ph = gone P ph" if "ph \<in> S" for ph
    by (rule gone_cong) (use k [OF that] in blast)
  then show "\<Union> (gone P' ` S) = \<Union> (gone P ` S)" by simp
  show "\<forall>ph \<in> S. phase_ok A' P' Q' ph"
  proof
    fix ph
    assume "ph \<in> S"
    then show "phase_ok A' P' Q' ph"
      by (intro phase_ok_cong [OF _ _ all]) (use ok k in auto)
  qed
qed

lemma thread_go:
  assumes E: "glib_ok E" and o: "ordered E (xs @ (ph, c) # ys) st" and f: "enabled E ph c st"
  shows "\<exists>ph' c' st'. thread_step E ph c st = Some (ph', c', st') \<and> ordered E (xs @ (ph', c') # ys) st' \<and>
    contents E st' = contents E st \<and> consistent st' = consistent st"
proof -
  let ?R = "fst ` (set xs \<union> set ys)"
  obtain A P Q where 1: "state_ok True E st A P Q (\<Union> (gone P ` fst ` set (xs @ (ph, c) # ys))) (\<Union> (busy ` fst ` set (xs @ (ph, c) # ys)))"
    "threads_at (map snd (xs @ (ph, c) # ys)) A Q" "\<forall>ph' \<in> insert ph ?R. phase_ok A P Q ph'"
    "held st = {}" "exclusive (map fst (xs @ (ph, c) # ys))" "noted E st (\<Union> (marked ` fst ` set (xs @ (ph, c) # ys)))"
    by (rule orderedE [OF o]) (simp add: image_Un)
  define D where "D = \<Union> (gone P ` ?R)"
  define X where "X = \<Union> (busy ` ?R)"
  define M where "M = \<Union> (marked ` ?R)"
  have ex: "exclusive (map fst (xs @ ys))" "marked ph \<inter> M = {}"
    using 1(5) by (simp_all add: exclusive_split M_def image_Un)
  have n: "X \<subseteq> M" "\<forall>x \<in> D. fst x \<in> X" "M \<subseteq> set (all_segs A)"
  proof -
    show "X \<subseteq> M"
      unfolding X_def M_def using busy_marked by blast
    show "\<forall>x \<in> D. fst x \<in> X"
      unfolding X_def D_def using gone_busy [of _ P] by blast
    show "M \<subseteq> set (all_segs A)"
      unfolding M_def using marked_all [of A P Q] 1(3) by blast
  qed
  have used: "s \<in> set (l_used A) - busy ph" if "s \<in> X" for s
    using that busy_used 1(3) n(1) ex(2) busy_marked [of ph] unfolding X_def by blast
  have "(\<Union> (gone P ` fst ` set (xs @ (ph, c) # ys))) = gone P ph \<union> D" "(\<Union> (busy ` fst ` set (xs @ (ph, c) # ys))) = busy ph \<union> X"
    by (auto simp: D_def X_def)
  then have t: "thread_in E ph c st A P Q D X"
    using 1 by (simp add: thread_in_def threads_at_def)
  have "noted E st (marked ph \<union> M)"
    using 1(6) by (auto simp: M_def)
  from go_step [OF E t n(1-3) f this ex(2)] obtain ph' c' st' A' P' Q' where
    r: "thread_step E ph c st = Some (ph', c', st')" "thread_in E ph' c' st' A' P' Q' D X" "step_frame E (busy ph) c st A P Q c' st' A' P' Q'"
      "marked ph' \<inter> M = {}" "noted E st' (marked ph' \<union> M)"
    unfolding goes_def by blast
  note fr = r(3) [unfolded step_frame_def]
  note th = r(2) [unfolded thread_in_def]
  have same: "s \<in> set (l_used A') \<and> P' s = P s \<and> Q' s = Q s" if "s \<in> \<Union> (busy ` ?R)" for s
    using fr used [of s] that unfolding X_def by blast
  have ok: "\<forall>ph2 \<in> ?R. phase_ok A P Q ph2" and all: "set (all_segs A') = set (all_segs A)"
    using 1(3) fr by simp_all
  note pf = phases_frame [OF ok same all]
  have "\<Union> (gone P' ` fst ` set (xs @ (ph', c') # ys)) = gone P' ph' \<union> D"
    using pf(1) by (simp add: D_def image_Un Un_ac)
  moreover have "\<Union> (busy ` fst ` set (xs @ (ph', c') # ys)) = busy ph' \<union> X"
    by (auto simp: X_def)
  ultimately have "state_ok True E st' A' P' Q' (\<Union> (gone P' ` fst ` set (xs @ (ph', c') # ys))) (\<Union> (busy ` fst ` set (xs @ (ph', c') # ys)))"
    using th by simp
  moreover have "threads_at (map snd (xs @ (ph', c') # ys)) A' Q'"
    using threads_at_others [of "map snd xs" c "map snd ys" A Q c' A' Q'] 1(2) fr th by simp
  moreover have "\<forall>ph2 \<in> insert ph' ?R. phase_ok A' P' Q' ph2"
    using pf(2) th by simp
  moreover have "exclusive (map fst (xs @ (ph', c') # ys))"
    using ex r(4) by (simp add: exclusive_split M_def image_Un)
  moreover have "noted E st' (\<Union> (marked ` fst ` set (xs @ (ph', c') # ys)))"
    using r(5) by (auto simp: M_def)
  ultimately have "ordered E (xs @ (ph', c') # ys) st'"
    using th by (intro orderedI) (auto simp: image_Un)
  with r(1) fr show ?thesis by blast
qed

section \<open>Threads and clients in any order\<close>

text \<open>
  What happens next: a command of a client, a step of one of the threads, a thread that starts, or a
  crash with the recovery that follows.
\<close>

datatype happening = Client store_cmd store_reply | Thread phase | Begun | Power

inductive turn :: "('h, 'd) env \<Rightarrow> thread list \<times> ('h, 'd) pmem \<Rightarrow> happening \<Rightarrow> thread list \<times> ('h, 'd) pmem \<Rightarrow> bool" for E where
  client: "store_pre c (contents E st) \<Longrightarrow> orderly E st c \<Longrightarrow> store_exec E c st = Some (r, st') \<Longrightarrow>
    turn E (ts, st) (Client c r) (ts, st')"
| thread: "enabled E ph c st \<Longrightarrow> thread_step E ph c st = Some (ph', c', st') \<Longrightarrow>
    turn E (xs @ (ph, c) # ys, st) (Thread ph) (xs @ (ph', c') # ys, st')"
| begun: "start_cleaner E regular 0 st = Some (c, st') \<Longrightarrow> turn E (ts, st) Begun ((Visit 0, c) # ts, st')"
| power: "cleaner_segments (plog st) = 0 \<Longrightarrow> reconstruct_hash_table E (crash E st) = Some st' \<Longrightarrow>
    turn E (ts, st) Power ([], st')"

inductive_cases turn_clientE: "turn E x (Client c r) y"
inductive_cases turn_threadE: "turn E x (Thread ph) y"
inductive_cases turn_begunE: "turn E x Begun y"
inductive_cases turn_powerE: "turn E x Power y"

inductive turns :: "('h, 'd) env \<Rightarrow> thread list \<times> ('h, 'd) pmem \<Rightarrow> happening list \<Rightarrow> thread list \<times> ('h, 'd) pmem \<Rightarrow> bool" for E where
  nil: "turns E x [] x"
| cons: "turn E x e y \<Longrightarrow> turns E y es z \<Longrightarrow> turns E x (e # es) z"

text \<open>Only the commands change the objects.\<close>

fun outcome :: "happening list \<Rightarrow> (u64 \<rightharpoonup> byte list) \<Rightarrow> (u64 \<rightharpoonup> byte list) option" where
  "outcome [] m = Some m"
| "outcome (Client c r # es) m = store_spec c r m \<bind> outcome es"
| "outcome (_ # es) m = outcome es m"

lemma client_go:
  assumes E: "glib_ok E" and o: "ordered E ts st" and c: "consistent st" and pre: "store_pre c (contents E st)" "orderly E st c"
  shows "\<exists>r st'. store_exec E c st = Some (r, st') \<and> ordered E ts st' \<and> consistent st' \<and>
    store_spec c r (contents E st) = Some (contents E st')"
proof -
  obtain A P Q where 1: "state_ok True E st A P Q (\<Union> (gone P ` fst ` set ts)) (\<Union> (busy ` fst ` set ts))"
    "threads_at (map snd ts) A Q" "\<forall>ph \<in> fst ` set ts. phase_ok A P Q ph"
    "held st = {}" "exclusive (map fst ts)" "noted E st (\<Union> (marked ` fst ` set ts))"
    by (rule orderedE [OF o])
  obtain r st' where r: "store_exec E c st = Some (r, st')" "consistent st'" "store_spec c r (contents E st) = Some (contents E st')"
    "kept True E A P Q (\<Union> (gone P ` fst ` set ts)) (\<Union> (busy ` fst ` set ts)) st st'"
    using command_run [OF E 1(1,4) c pre] by blast
  from r(4) obtain A' P' Q' where k: "held st' = {}" "same_marks st st'" "cleaner_frame A P Q A' P' Q'"
    "state_ok True E st' A' P' Q' (\<Union> (gone P ` fst ` set ts)) (\<Union> (busy ` fst ` set ts))"
    unfolding kept_def by blast
  have "set (all_segs A') = set (all_segs A)"
    using k(3) by (simp add: cleaner_frame_def)
  note pf = phases_frame [OF 1(3) _ this, of P' Q', OF cleaner_frame_used [OF k(3)]]
  have "is_noted E st' s = is_noted E st s" for s
    using k(2) by (intro is_noted_cong) (simp_all add: same_marks_def)
  then have "ordered E ts st'"
    using 1 k pf threads_at_frame [OF 1(2) k(3)] by (intro orderedI [of st' ts E A' P' Q']) simp_all
  with r show ?thesis by blast
qed

lemma begun_go:
  assumes o: "ordered E ts st" and r: "start_cleaner E regular 0 st = Some (c, st')"
  shows "ordered E ((Visit 0, c) # ts) st' \<and> contents E st' = contents E st \<and> consistent st' = consistent st"
proof -
  obtain A P Q where 1: "state_ok True E st A P Q (\<Union> (gone P ` fst ` set ts)) (\<Union> (busy ` fst ` set ts))"
    "threads_at (map snd ts) A Q" "\<forall>ph \<in> fst ` set ts. phase_ok A P Q ph"
    "held st = {}" "exclusive (map fst ts)" "noted E st (\<Union> (marked ` fst ` set ts))"
    by (rule orderedE [OF o])
  have av: "free_segments (plog st) \<noteq> 0 \<or> emergency_cleaner_segments (plog st) \<noteq> 0"
    by (rule start_needs_segment [OF heapI [OF state_okD(1) [OF 1(1)] 1(4)] r])
  obtain c' st'' A' P' Q' where k: "start_cleaner E regular 0 st = Some (c', st'')"
    "state_ok True E st'' A' P' Q' (\<Union> (gone P ` fst ` set ts)) (\<Union> (busy ` fst ` set ts))" "held st'' = {}"
    "threads_at (c' # map snd ts) A' Q'" "used_frame A P Q A' P' Q'" "same_marks st st''" "contents E st'' = contents E st"
    "consistent st'' = consistent st"
    by (rule start_run [OF 1(1,4,2) av])
  have st': "c' = c" "st'' = st'" using r k(1) by simp_all
  have "set (all_segs A') = set (all_segs A)"
    using k(5) by (simp add: used_frame_def)
  note pf = phases_frame [OF 1(3) _ this, of P' Q', OF used_frame_used [OF k(5)]]
  have "is_noted E st'' s = is_noted E st s" for s
    using k(6) by (intro is_noted_cong) (simp_all add: same_marks_def)
  then have "ordered E ((Visit 0, c') # ts) st''"
    using 1 k pf by (intro orderedI [of st'' _ E A' P' Q']) simp_all
  with k st' show ?thesis by simp
qed

lemma ordered_sound: "ordered E [] st \<longleftrightarrow> sound E [] st"
  by (auto simp: ordered_def okay_def)

lemma power_go:
  assumes E: "glib_ok E" and o: "ordered E ts st" and z: "cleaner_segments (plog st) = 0"
    and r: "reconstruct_hash_table E (crash E st) = Some st'"
  shows "ordered E [] st' \<and> contents E st' = contents E st \<and> consistent st' = consistent st"
proof -
  obtain A P Q where 1: "state_ok True E st A P Q (\<Union> (gone P ` fst ` set ts)) (\<Union> (busy ` fst ` set ts))"
    "threads_at (map snd ts) A Q"
    by (rule orderedE [OF o])
  have "l_cleaner A = []"
    using seg_list_0_iff [OF lists_okD(4) [OF heap_okD(1) [OF state_okD(1) [OF 1(1)]]]] z by simp
  then have "ts = []"
    using 1(2) by (cases ts) (auto simp: threads_at_def cleaner_at_def)
  then have "sound E [] st"
    using o by (simp add: ordered_sound)
  with recover_core [OF E this z] r show ?thesis
    by (simp add: ordered_sound)
qed

lemma turn_core:
  assumes E: "glib_ok E" and t: "turn E x e y" and o: "ordered E (fst x) (snd x)" "consistent (snd x)"
  shows "ordered E (fst y) (snd y) \<and> consistent (snd y) \<and> outcome [e] (contents E (snd x)) = Some (contents E (snd y))"
  using t
proof cases
  case (client c st r st' ts)
  then show ?thesis
    using client_go [OF E, of ts st c] o by auto
next
  case (thread ph c st ph' c' st' xs ys)
  then show ?thesis
    using thread_go [OF E, of xs ph c ys st] o by auto
next
  case (begun regular st c st' ts)
  then show ?thesis
    using begun_go [of E ts st regular c st'] o by auto
next
  case (power st st' ts)
  then show ?thesis
    using power_go [OF E, of ts st st'] o by auto
qed

lemma outcome_Cons: "outcome (e # es) m = outcome [e] m \<bind> outcome es"
  by (cases e) (simp_all add: bind_assoc)

lemma turns_core:
  "turns E x es y \<Longrightarrow> glib_ok E \<Longrightarrow> ordered E (fst x) (snd x) \<Longrightarrow> consistent (snd x) \<Longrightarrow>
   ordered E (fst y) (snd y) \<and> consistent (snd y) \<and> outcome es (contents E (snd x)) = Some (contents E (snd y))"
proof (induction rule: turns.induct)
  case (cons x e y es z)
  then show ?case
    using turn_core [OF cons.prems(1) cons.hyps(1)] by (simp add: outcome_Cons [of e es])
qed simp

section \<open>Closing the heap while threads run\<close>

text \<open>
  \<^verbatim>\<open>terminate_cleaner\<close> cancels the threads.  Between the choice of a segment and the removal of its mark
  cancellation is disabled, so a thread ends at the head of its loop, at \<^verbatim>\<open>pthread_testcancel\<close>.
\<close>

fun stopped :: "phase \<Rightarrow> bool" where
  "stopped (Visit cur) = True"
| "stopped ph = False"

lemma stopped_sound:
  assumes o: "ordered E ts st" and s: "\<forall>ph \<in> fst ` set ts. stopped ph"
  shows "sound E (map snd ts) st"
proof -
  have n: "gone P ph = {} \<and> busy ph = {}" if "ph \<in> fst ` set ts" for P ph
    using bspec [OF s that] by (cases ph) simp_all
  have none: "\<Union> (gone P ` fst ` set ts) = {}" "\<Union> (busy ` fst ` set ts) = {}" for P
    using n by blast+
  obtain A P Q where 1: "state_ok True E st A P Q (\<Union> (gone P ` fst ` set ts)) (\<Union> (busy ` fst ` set ts))"
    "threads_at (map snd ts) A Q" "held st = {}"
    by (rule orderedE [OF o])
  show ?thesis
    by (rule okayI [OF 1(1) [unfolded none] 1(2,3)])
qed

section \<open>A segment that another thread has freed\<close>

text \<open>A schedule: the threads with the numbers in the list take a step each, one after the other.\<close>

fun schedule :: "('h, 'd) env \<Rightarrow> nat list \<Rightarrow> thread list \<Rightarrow> ('h, 'd) pmem \<Rightarrow> (thread list \<times> ('h, 'd) pmem) option" where
  "schedule E [] ts st = Some (ts, st)"
| "schedule E (i # is) ts st = do {
     (ph, c, st) \<leftarrow> thread_step E (fst (ts ! i)) (snd (ts ! i)) st;
     schedule E is (ts[i := (ph, c)]) st
   }"

lemma release_unused:
  assumes ok: "lists_ok (plog st) (segs st) A" and h: "held st = {}" and cu: "cur \<in> set (l_used A)"
  obtains st1 g1 A1 where "thread_step E (Release cur nxt) c st = Some (Unmark cur nxt, c, st1)" "lists_ok (plog st1) (segs st1) A1"
    "held st1 = {}" "get_seg st1 cur = Some g1" "used_space g1 = 0" "cur \<in> set (all_segs A1) - set (l_used A1)"
proof -
  obtain xs ys where us: "l_used A = xs @ cur # ys"
    using split_list [OF cu] by blast
  let ?A = "abs_release cur (A\<lparr>l_used := xs @ ys\<rparr>)"
  have cA: "cur \<in> set (all_segs A)" using cu by (simp add: all_segs_def)
  obtain g where g: "cur \<noteq> 0" "segs st cur = Some g"
    using lists_ok_dom [OF ok cA] by blast
  then have i: "seg_data (segs st) cur = Some (seg_id g, used_space g, log_entries g)"
    by (simp add: seg_data_def)
  obtain st1 where 1: "append_cleaned_segment_to_free_segments E (seg_id g) st = Some st1" "list_frame st st1"
    "lists_ok (plog st1) (segs st1) ?A" "seg_data (segs st1) cur = Some (seg_id g, 0, log_entries g)"
    using cleaned_to_free_refines [OF ok _ us i, of E] h by auto
  obtain g1 where g1: "segs st1 cur = Some g1" "used_space g1 = 0"
    using 1(4) by (auto simp: seg_data_def split: option.splits)
  have "cur \<in> set (all_segs ?A) - set (l_used ?A)"
    using us lists_okD(6) [OF ok] by (auto simp: all_segs_def abs_release_def split: if_splits)
  moreover have "thread_step E (Release cur nxt) c st = Some (Unmark cur nxt, c, st1)"
    using 1(1) g by (simp add: get_seg_def)
  ultimately show ?thesis
    using 1(3) g(1) g1 list_frame_held [OF 1(2)] h by (intro that [of st1 ?A g1]) (simp_all add: get_seg_def)
qed

lemma unused_missing:
  assumes ok: "lists_ok (plog st) (segs st) A" and h: "held st = {}" and g: "get_seg st cur = Some g"
    and u: "cur \<in> set (all_segs A) - set (l_used A)"
  shows "thread_step E (Release cur nxt) c st = Some (Unmark cur nxt, c, st\<lparr>held := {Used_segs}\<rparr>)"
proof -
  have s: "segs st cur = Some g" using g by (simp add: get_seg_def split: if_splits)
  have "ids (segs st) z \<noteq> Some (seg_id g)" if "z \<in> set (l_used A)" for z
  proof
    assume "ids (segs st) z = Some (seg_id g)"
    then have "ids (segs st) z = ids (segs st) cur" using s by (simp add: ids_def)
    moreover have "z \<in> set (all_segs A)" using that by (simp add: all_segs_def)
    ultimately have "z = cur"
      using inj_onD [OF lists_okD(7) [OF ok]] u by blast
    with that u show False by blast
  qed
  then show ?thesis
    using cleaned_to_free_missing [OF ok, of "seg_id g" E] h g by simp
qed

section \<open>The properties\<close>




text \<open>
  C19: Two threads and one segment: the first has found that the segment is to be cleaned and has not marked it
  yet, the second is about to release it.  If the second goes on until it has removed its mark, the
  first marks the segment again, although it is not used any more.  It does not find it in the list of
  used segments and returns with the mutex of the list held; from then on no thread can leave a segment
  and no new head can be taken (\<^verbatim>\<open>cleaner.c\<close>, lines 144 to 150 and 357 to 359).
\<close>

theorem stale_segment_deadlocks:
  assumes E: "glib_ok E" and o: "ordered E ((Mark cur, c1) # (Release cur nxt, c2) # ts) st"
  shows "\<exists>y st'. schedule E [1, 1, 0, 0, 0] ((Mark cur, c1) # (Release cur nxt, c2) # ts) st =
      Some ((Unmark cur y, c1) # (Visit nxt, c2) # ts, st') \<and> held st' = {Used_segs} \<and>
    (\<forall>s c. thread_step E (Skip s) c st' = None \<and> thread_step E (Leave s) c st' = None) \<and> append_head_to_used E st' = None"
proof -
  obtain A P Q where "heap_ok E st A P Q" and cu: "cur \<in> set (l_used A)" and h: "held st = {}"
    by (rule orderedE [OF o]) (auto dest: state_okD(1))
  then have ok: "lists_ok (plog st) (segs st) A" by (simp add: heap_okD(1))
  obtain st1 g1 A1 where a: "thread_step E (Release cur nxt) c2 st = Some (Unmark cur nxt, c2, st1)"
    and 1: "lists_ok (plog st1) (segs st1) A1" "held st1 = {}" "get_seg st1 cur = Some g1" "used_space g1 = 0"
      "cur \<in> set (all_segs A1) - set (l_used A1)"
    by (rule release_unused [OF ok h cu])
  define st2 where "st2 = unset_curr_cleaned E g1 st1"
  define st3 where "st3 = st2\<lparr>currently_cleaned := gh_insert E (currently_cleaned st2) (seg_id g1) (unat (seg_id g1))\<rparr>"
  have n: "\<not> gh_contains E (currently_cleaned st2) (seg_id g1)"
    by (simp add: st2_def unset_curr_cleaned_def contains_remove [OF E])
  have s: "held st2 = {}" "get_seg st2 cur = Some g1" "held st3 = {}" "get_seg st3 cur = Some g1" "plog st3 = plog st1" "segs st3 = segs st1"
    using 1(2,3) by (auto simp: st3_def st2_def unset_curr_cleaned_def get_seg_def split: if_splits)
  have b: "thread_step E (Unmark cur nxt) c2 st1 = Some (Visit nxt, c2, st2)"
    by (simp add: 1(3) st2_def)
  have c: "thread_step E (Mark cur) c1 st2 = Some (Leave cur, c1, st3)"
    using n test_and_set_run [of st2 E g1] by (simp add: s 1(4) st3_def)
  have d: "thread_step E (Leave cur) c1 st3 = Some (Release cur (next_segment g1), c1, st3)"
    using lock_run [of st3] by (simp add: s)
  have "thread_step E (Release cur (next_segment g1)) c1 st3 = Some (Unmark cur (next_segment g1), c1, st3\<lparr>held := {Used_segs}\<rparr>)"
    by (rule unused_missing [of st3 A1 cur g1]) (use 1(1,5) s in simp_all)
  then have "schedule E [1, 1, 0, 0, 0] ((Mark cur, c1) # (Release cur nxt, c2) # ts) st =
      Some ((Unmark cur (next_segment g1), c1) # (Visit nxt, c2) # ts, st3\<lparr>held := {Used_segs}\<rparr>)"
    by (simp add: a b c d del: thread_step.simps)
  then show ?thesis
    by (intro exI [of _ "next_segment g1"] exI [of _ "st3\<lparr>held := {Used_segs}\<rparr>"]) (simp add: lock_def append_head_to_used_def)
qed

end
