(* ===== verification/Segment_Pool.thy ===== *)
theory Segment_Pool
  imports Simulation Cleaner_Lists Log_Props "HOL-Library.Multiset"
begin

text \<open>
  The five segment lists of the header as one component: the operations that move segments from
  list to list, as commands, simulate operations on abstract lists.  In every sequence of them no
  segment is lost and none comes to be on two lists.
\<close>

section \<open>Commands\<close>

text \<open>
  \<^verbatim>\<open>append_to_log\<close> asks for a new head; the cleaner takes a segment, retires its full one to
  the used segments, gives back the used segment it has emptied or its own one.  The callers pass the
  \<^verbatim>\<open>id\<close> field of the segment.
\<close>

datatype pool_cmd = New_head | New_cleaner | Retire pmo | Retire_all | Release_used pmo | Release_cleaner pmo

datatype pool_reply = Failed bool | Taken pmo | Moved

definition with_id ::
  "(u64 \<Rightarrow> ('h, 'd) pmem \<Rightarrow> ('h, 'd) pmem option) \<Rightarrow> pmo \<Rightarrow> ('h, 'd) pmem \<Rightarrow> (pool_reply \<times> ('h, 'd) pmem) option" where
  "with_id f y st = do { g \<leftarrow> get_seg st y; st \<leftarrow> f (seg_id g) st; Some (Moved, st) }"

fun pool_exec :: "('h, 'd) env \<Rightarrow> pool_cmd \<Rightarrow> ('h, 'd) pmem \<Rightarrow> (pool_reply \<times> ('h, 'd) pmem) option" where
  "pool_exec E New_head st = map_option (apfst Failed) (append_head_to_used_segments_and_get_new_head_segment E st)"
| "pool_exec E New_cleaner st = map_option (apfst Taken) (get_new_cleaner_segment E st)"
| "pool_exec E (Retire y) st = with_id (append_cleaner_segment_to_used_segments E) y st"
| "pool_exec E Retire_all st = map_option (Pair Moved) (append_all_cleaner_segments_to_used_segments E st)"
| "pool_exec E (Release_used y) st = with_id (append_cleaned_segment_to_free_segments E) y st"
| "pool_exec E (Release_cleaner y) st = with_id (append_cleaner_segment_to_free_segments E) y st"

fun pool_pre :: "pool_cmd \<Rightarrow> lists \<Rightarrow> bool" where
  "pool_pre (Retire y) A = (y \<in> set (l_cleaner A))"
| "pool_pre (Release_used y) A = (y \<in> set (l_used A))"
| "pool_pre (Release_cleaner y) A = (y \<in> set (l_cleaner A))"
| "pool_pre _ A = True"

fun pool_spec :: "pool_cmd \<Rightarrow> pool_reply \<Rightarrow> lists \<Rightarrow> lists option" where
  "pool_spec New_head (Failed b) A = (if b = (l_free A = []) then Some (abs_new_head A) else None)"
| "pool_spec New_cleaner (Taken s) A = (if s = abs_cleaner_choice A then Some (abs_new_cleaner A) else None)"
| "pool_spec (Retire y) Moved A = Some (A\<lparr>l_cleaner := remove1 y (l_cleaner A), l_used := l_used A @ [y]\<rparr>)"
| "pool_spec Retire_all Moved A = Some (A\<lparr>l_cleaner := [], l_used := l_used A @ l_cleaner A\<rparr>)"
| "pool_spec (Release_used y) Moved A = Some (abs_release y (A\<lparr>l_used := remove1 y (l_used A)\<rparr>))"
| "pool_spec (Release_cleaner y) Moved A = Some (abs_release y (A\<lparr>l_cleaner := remove1 y (l_cleaner A)\<rparr>))"
| "pool_spec _ _ A = None"

text \<open>The lists of the header, with no lock held; segments beyond them are not asked about.\<close>

definition pool_ok :: "('h, 'd) pmem \<Rightarrow> lists \<Rightarrow> bool" where
  "pool_ok st A \<longleftrightarrow> lists_ok (plog st) (segs st) A \<and> held st = {}"

section \<open>The operations simulate the abstract lists\<close>

lemma remove1_split:
  assumes "y \<in> set xs" and "distinct xs"
  obtains us vs where "xs = us @ y # vs" "remove1 y xs = us @ vs"
  using assms by (metis distinct_append distinct.simps(2) disjoint_insert(1) list.simps(15) remove1.simps(2) remove1_append split_list)

lemma pool_okI: "lists_ok (plog st') (segs st') A' \<Longrightarrow> list_frame st st' \<Longrightarrow> held st = {} \<Longrightarrow> pool_ok st' A'"
  by (simp add: pool_ok_def list_frame_def same_rest_def)

lemma pool_seg:
  assumes "lists_ok (plog st) (segs st) A" and "y \<in> set (all_segs A)"
  obtains g where "get_seg st y = Some g" "ids (segs st) y = Some (seg_id g)"
    "seg_data (segs st) y = Some (seg_id g, used_space g, log_entries g)"
  using lists_ok_dom [OF assms] by (auto simp: get_seg_def ids_def seg_data_def)

lemma pool_sim:
  assumes ok: "pool_ok st A" and pre: "pool_pre c A"
  shows "\<exists>r st' A'. pool_exec E c st = Some (r, st') \<and> pool_spec c r A = Some A' \<and> pool_ok st' A'"
proof -
  have lo: "lists_ok (plog st) (segs st) A" and h: "held st = {}"
    using ok by (simp_all add: pool_ok_def)
  have dist: "distinct (l_used A)" "distinct (l_cleaner A)"
    using lists_okD(6) [OF lo] by (simp_all add: all_segs_def)
  show ?thesis
  proof (cases c)
    case New_head
    then show ?thesis
      using new_head_refines [OF lo, of E] pool_okI [of _ _ st] h by fastforce
  next
    case New_cleaner
    then show ?thesis
      using get_new_cleaner_refines [OF lo, of E] pool_okI [of _ _ st] h by fastforce
  next
    case Retire_all
    then show ?thesis
      using append_all_to_used_refines [OF lo, of E] pool_okI [of _ _ st] h by fastforce
  next
    case (Retire y)
    then obtain g where g: "get_seg st y = Some g" "ids (segs st) y = Some (seg_id g)"
      using pool_seg [OF lo, of y] pre by (auto simp: all_segs_def)
    from Retire pre have "y \<in> set (l_cleaner A)" by simp
    then obtain us vs where s: "l_cleaner A = us @ y # vs" "remove1 y (l_cleaner A) = us @ vs"
      by (rule remove1_split [OF _ dist(2)])
    show ?thesis
      using append_cleaner_to_used_refines [OF lo _ _ s(1) g(2), of E] pool_okI [of _ _ st] h g(1) s(2) Retire
      by (fastforce simp: with_id_def)
  next
    case (Release_used y)
    then obtain g where g: "get_seg st y = Some g" "seg_data (segs st) y = Some (seg_id g, used_space g, log_entries g)"
      using pool_seg [OF lo, of y] pre by (auto simp: all_segs_def)
    from Release_used pre have "y \<in> set (l_used A)" by simp
    then obtain us vs where s: "l_used A = us @ y # vs" "remove1 y (l_used A) = us @ vs"
      by (rule remove1_split [OF _ dist(1)])
    show ?thesis
      using cleaned_to_free_refines [OF lo _ s(1) g(2), of E] pool_okI [of _ _ st] h g(1) s(2) Release_used
      by (fastforce simp: with_id_def)
  next
    case (Release_cleaner y)
    then obtain g where g: "get_seg st y = Some g" "seg_data (segs st) y = Some (seg_id g, used_space g, log_entries g)"
      using pool_seg [OF lo, of y] pre by (auto simp: all_segs_def)
    from Release_cleaner pre have "y \<in> set (l_cleaner A)" by simp
    then obtain us vs where s: "l_cleaner A = us @ y # vs" "remove1 y (l_cleaner A) = us @ vs"
      by (rule remove1_split [OF _ dist(2)])
    show ?thesis
      using cleaner_to_free_refines [OF lo _ s(1) g(2), of E] pool_okI [of _ _ st] h g(1) s(2) Release_cleaner
      by (fastforce simp: with_id_def)
  qed
qed

lemma release_mset: "mset (all_segs (abs_release y A)) = add_mset y (mset (all_segs A))"
  by (simp add: abs_release_def all_segs_def)

lemma new_head_mset: "mset (all_segs (abs_new_head A)) = mset (all_segs A)"
  by (simp add: abs_new_head_def all_segs_def split: list.split)

lemma new_cleaner_mset: "mset (all_segs (abs_new_cleaner A)) = mset (all_segs A)"
  by (simp add: abs_new_cleaner_def all_segs_def split: list.split)

lemma pool_kept: "pool_pre c A \<Longrightarrow> pool_spec c r A = Some A' \<Longrightarrow> mset (all_segs A') = mset (all_segs A)"
  by (cases "(c, r, A)" rule: pool_spec.cases)
    (auto simp: new_head_mset new_cleaner_mset release_mset split: if_splits, auto simp: all_segs_def)

interpretation pool: conserves pool_ok pool_pre "pool_exec E" pool_spec "\<lambda>A. mset (all_segs A)" for E
  by unfold_locales (erule (1) pool_sim, erule (1) pool_kept)


text \<open>
  C37: The counter of used segments drifts: a cleaner segment that is retired and later released lowers it by
  one while the list of used segments is as long as before.  At an empty list the counter wraps around.
\<close>

theorem used_count_drifts:
  assumes ok: "lists_ok (plog st) (segs st) A" and h: "held st = {}" and y: "l_cleaner A = y # ys" "ids (segs st) y = Some i"
  shows "\<exists>st1 st2 A2. append_cleaner_segment_to_used_segments E i st = Some st1 \<and>
    append_cleaned_segment_to_free_segments E i st1 = Some st2 \<and> lists_ok (plog st2) (segs st2) A2 \<and>
    l_used A2 = l_used A \<and> used_segments_count (plog st2) = used_segments_count (plog st) - 1"
proof -
  let ?A1 = "A\<lparr>l_cleaner := ys, l_used := l_used A @ [y]\<rparr>"
  obtain st1 where st1: "append_cleaner_segment_to_used_segments E i st = Some st1" "list_frame st st1"
    "lists_ok (plog st1) (segs st1) ?A1" "seg_data (segs st1) = seg_data (segs st)"
    "used_segments_count (plog st1) = used_segments_count (plog st)"
    using append_cleaner_to_used_refines [OF ok, of "[]" y ys i E] h y by auto
  have "held st1 = {}"
    using st1(2) h by (simp add: list_frame_def same_rest_def)
  moreover obtain u m where "seg_data (segs st1) y = Some (i, u, m)"
    using y(2) st1(4) by (auto simp: ids_seg_data)
  moreover have "l_used ?A1 = l_used A @ y # []" by simp
  ultimately obtain st2 where "append_cleaned_segment_to_free_segments E i st1 = Some st2"
    "lists_ok (plog st2) (segs st2) (abs_release y (?A1\<lparr>l_used := l_used A @ []\<rparr>))"
    "used_segments_count (plog st2) = used_segments_count (plog st1) - 1"
    using cleaned_to_free_refines [OF st1(3), of "l_used A" y "[]" i u m E] by auto
  moreover have "l_used (abs_release y (?A1\<lparr>l_used := l_used A @ []\<rparr>)) = l_used A"
    by (simp add: abs_release_def)
  ultimately show ?thesis
    using st1(1,5) by metis
qed

end
