(* ===== verification/Dump.thy ===== *)
theory Dump
  imports Restart
begin

text \<open>
  The example program (\<^verbatim>\<open>project/main.c\<close>): it opens a heap, prints the ids of the segments on each
  list, and closes the heap.  What a dump prints is the list of ids and, for three of the lists, the
  id of the last segment, which it reads through a pointer it does not check.
\<close>

section \<open>Dumping the lists\<close>

partial_function (option) walk_ids :: "('h, 'd) pmem \<Rightarrow> pmo \<Rightarrow> u64 list option" where
  "walk_ids st p = (if p = 0 then Some []
     else do { g \<leftarrow> get_seg st p; ids \<leftarrow> walk_ids st (next_segment g); Some (seg_id g # ids) })"

definition dump_with_last :: "('h, 'd) pmem \<Rightarrow> pmo \<Rightarrow> pmo \<Rightarrow> (u64 list \<times> u64 option) option" where
  "dump_with_last st first lst = do {
     ids \<leftarrow> walk_ids st first;
     g \<leftarrow> get_seg st lst;
     Some (ids, Some (seg_id g))
   }"

definition dump_free_seg_ids :: "('h, 'd) pmem \<Rightarrow> (u64 list \<times> u64 option) option" where
  "dump_free_seg_ids st = dump_with_last st (free_segments (plog st)) (last_free_segment (plog st))"

definition dump_used_seg_ids :: "('h, 'd) pmem \<Rightarrow> (u64 list \<times> u64 option) option" where
  "dump_used_seg_ids st = dump_with_last st (used_segments (plog st)) (last_used_segment (plog st))"

definition dump_head_seg_ids :: "('h, 'd) pmem \<Rightarrow> (u64 list \<times> u64 option) option" where
  "dump_head_seg_ids st = do { ids \<leftarrow> walk_ids st (head_segment (plog st)); Some (ids, None) }"

definition dump_cleaner_seg_ids :: "('h, 'd) pmem \<Rightarrow> (u64 list \<times> u64 option) option" where
  "dump_cleaner_seg_ids st = do { ids \<leftarrow> walk_ids st (cleaner_segments (plog st)); Some (ids, None) }"

definition dump_emergency_cleaner_seg_ids :: "('h, 'd) pmem \<Rightarrow> (u64 list \<times> u64 option) option" where
  "dump_emergency_cleaner_seg_ids st =
     dump_with_last st (emergency_cleaner_segments (plog st)) (last_emergency_cleaner_segment (plog st))"

section \<open>The program\<close>

text \<open>
  The result is the exit code, what was printed, and the file of the index and the state left behind.
  What the cleaner threads do while the program sleeps for a second is left out; on a new file, where no
  segment is used, they wait.
\<close>

definition main ::
  "('h, 'd) env \<Rightarrow> sys \<Rightarrow> hash_io \<Rightarrow> hash_file option \<Rightarrow> ('h, 'd) pmem \<Rightarrow>
   (nat \<times> (u64 list \<times> u64 option) list \<times> hash_file option \<times> ('h, 'd) pmem) option" where
  "main E y io file st = do {
     (failed, _, _, st) \<leftarrow> init_pmem E y io file st;
     (if failed then Some (1, [], file, st)
      else do {
        fs \<leftarrow> dump_free_seg_ids st;
        hs \<leftarrow> dump_head_seg_ids st;
        us \<leftarrow> dump_used_seg_ids st;
        cs \<leftarrow> dump_cleaner_seg_ids st;
        es \<leftarrow> dump_emergency_cleaner_seg_ids st;
        (failed, file, st) \<leftarrow> delete_pmem E y io file st;
        Some (if failed then 1 else 0, [fs, hs, us, cs, es], file, st)
      })
   }"

text \<open>\<open>rnd\<close> are the values of the calls of \<^verbatim>\<open>rand\<close>, which are not negative.\<close>

definition chars :: string where
  "chars = ''abcdefghijklmnopqrstuvwxyzABCDEFGHIJKLMNOPQRSTUVWXYZ0123456789''"

fun random_string :: "(nat \<Rightarrow> nat) \<Rightarrow> nat \<Rightarrow> string" where
  "random_string rnd 0 = []"
| "random_string rnd (Suc n) = map (\<lambda>i. chars ! (rnd i mod length chars)) [0..<n] @ [CHR 0x00]"

lemma random_string_terminated:
  "0 < n \<Longrightarrow> length (random_string rnd n) = n \<and> last (random_string rnd n) = CHR 0x00 \<and>
   set (butlast (random_string rnd n)) \<subseteq> set chars"
proof -
  have "0 < length chars" by (simp add: chars_def)
  then show "0 < n \<Longrightarrow> ?thesis"
    by (cases n) auto
qed

section \<open>What is printed\<close>

lemma walk_ids_path:
  "path (nexts (segs st)) p xs 0 \<Longrightarrow> walk_ids st p = Some (map (\<lambda>s. the (ids (segs st) s)) xs)"
proof (induction xs arbitrary: p)
  case Nil
  then show ?case by (subst walk_ids.simps) simp
next
  case (Cons x xs)
  then obtain y where x: "p = x" "x \<noteq> 0" "nexts (segs st) x = Some y" "path (nexts (segs st)) y xs 0" by auto
  obtain g where "segs st x = Some g" "next_segment g = y"
    using nextsE [OF x(3)] .
  with x Cons.IH [OF x(4)] show ?case
    by (subst walk_ids.simps) (simp add: get_seg_def ids_def)
qed

lemma dump_with_last_list:
  assumes "seg_list (nexts (segs st)) first lst xs"
  shows "dump_with_last st first lst = (if xs = [] then None
    else Some (map (\<lambda>s. the (ids (segs st) s)) xs, ids (segs st) (last xs)))"
proof (cases "xs = []")
  case True
  then show ?thesis
    using assms by (simp add: dump_with_last_def get_seg_def bind_eq_None_conv)
next
  case False
  then have "lst = last xs" "lst \<noteq> 0"
    using assms seg_list_0_iff [OF assms] by (auto simp: seg_list_def)
  moreover from this have "nexts (segs st) lst = Some 0"
    using seg_list_last_next [OF assms] by simp
  ultimately show ?thesis
    using False assms walk_ids_path [of st first xs]
    by (auto simp: dump_with_last_def seg_list_def get_seg_def ids_def elim!: nextsE)
qed

text \<open>
  The dump of the used segments ends and prints their ids in order and the id of the last one; when there
  is no used segment it follows the NULL pointer to the last one.
\<close>

lemma dump_used_lists:
  assumes "lists_ok (plog st) (segs st) A"
  shows "dump_used_seg_ids st = (if l_used A = [] then None
    else Some (map (\<lambda>s. the (ids (segs st) s)) (l_used A), ids (segs st) (last (l_used A))))"
  unfolding dump_used_seg_ids_def by (rule dump_with_last_list [OF lists_okD(3) [OF assms]])

text \<open>
  C40: On a new file the example program has no defined run: it opens the heap and then follows the NULL
  pointer to the last used segment (\<^verbatim>\<open>main.c\<close>, line 22).
\<close>

theorem main_crashes_on_new_file:
  assumes "glib_ok E" and "sys_ok y" and "\<not> is_log_initialized st" and "\<not> regular_termination (plog st)"
    and "\<And>i. SEGMENT_SIZE * (i + 1) \<le> sys_map_size y - sizeof_log \<Longrightarrow> segs st (seg_off i) \<noteq> None"
  shows "main E y io file st = None"
proof -
  obtain threads st' where "init_pmem E y io file st = Some (False, {Res_fd, Res_path, Res_map}, threads, st')"
    "last_used_segment (plog st') = 0"
    using first_start_core [OF assms] by blast
  moreover from this have "dump_used_seg_ids st' = None"
    by (simp add: dump_used_seg_ids_def dump_with_last_def get_seg_def bind_eq_None_conv)
  ultimately show ?thesis
    by (simp add: main_def bind_eq_None_conv)
qed

end
