(* ===== verification/Witnesses.thy ===== *)
theory Witnesses
  imports Demo Concurrent Segment_Pool Dump
begin

text \<open>
  Each property that has hypotheses, at the concrete heaps of the theory \<open>Demo\<close>: the hypotheses
  can be met, and the conclusion is what the code does there.
\<close>

interpretation alist: glib alist_env
  by unfold_locales (rule alist_env_ok)

section \<open>The interface\<close>


theorem palloc_binds_witness:
  "\<exists>n st'. palloc alist_env True demo_heap [7] = Some (n, st') \<and> sound alist_env [] st' \<and> n \<noteq> 0 \<and>
    contents alist_env st' = [n \<mapsto> [7]]"
  using palloc_binds [OF alist_env_ok demo_heap(1,2), of "[7]" 1 True] by (auto simp: demo_heap(3) demo_room max_data_def)

lemma demo_no_version: "version_of alist_env demo_heap k = None"
  by (simp add: version_of_def demo_heap_def)

theorem palloc_with_id_binds_witness:
  "\<exists>st'. palloc_with_id alist_env True demo_heap 5 [7] = Some (False, st') \<and> sound alist_env [] st' \<and>
    contents alist_env st' = [5 \<mapsto> [7]]"
  using palloc_with_id_binds [OF alist_env_ok demo_heap(1,2), of "[7]" True 5]
  by (auto simp: demo_heap(3) demo_room max_data_def demo_no_version)

lemma demo_object_room: "room demo_object n"
  by (simp add: room_def demo_object_def demo_heap_def demo_hdr_def)

theorem update_rebinds_witness:
  "\<exists>st'. update_data alist_env True demo_object 5 [8, 9] = Some (False, st') \<and> sound alist_env [] st' \<and> shadowed alist_env st' 5 \<and>
    contents alist_env st' = [5 \<mapsto> [8, 9]]"
  using update_rebinds [OF alist_env_ok demo_object(1,2), of "[8, 9]" 5 True]
  by (auto simp: demo_object(3) demo_object_room max_data_def demo_version)

theorem failed_update_unaccounts_witness:
  "\<exists>st' off g p. update_data alist_env True demo_full 5 (replicate 4040 1) = Some (True, st') \<and> contents alist_env st' = [5 \<mapsto> [7]] \<and>
    index alist_env st' 5 = Some off \<and> entry_at demo_full off = Some (g, p) \<and>
    used_of (segs st') (seg_of off) = used_space g - word_of_nat (entry_size (log_entries g) p)"
proof -
  have "replicate 4040 (1 :: byte) \<noteq> []" "length (replicate 4040 (1 :: byte)) \<le> max_data"
    "contents alist_env demo_full 5 \<noteq> None" "\<not> room demo_full (length (replicate 4040 (1 :: byte)))"
    using demo_full by (simp_all add: max_data_def)
  from failed_update_unaccounts [OF alist_env_ok demo_full(1,2) this] show ?thesis
    unfolding demo_full(3) by blast
qed

theorem pfree_removes_witness:
  "\<exists>st'. pfree alist_env demo_object 5 = Some st' \<and> sound alist_env [] st' \<and> contents alist_env st' = Map.empty"
  using pfree_removes [OF alist_env_ok demo_object(1), of 5 True] by (auto simp: demo_object(3) demo_version)

theorem get_address_finds_witness:
  "\<exists>s g p. segs demo_object s = Some g \<and> get_address alist_env demo_object 5 = s + sizeof_segment + p + 25 \<and>
    rd_bytes (log_entries g) (p + 25) 1 = [7]"
  using get_address_finds [OF alist_env_ok demo_object(1), of 5] by (auto simp: demo_object(3))

theorem objects_do_not_overlap_witness:
  "\<exists>st. palloc_with_id alist_env True demo_object 6 [9, 9] = Some (False, st) \<and>
    inside st (get_address alist_env st 5) 1 \<and> inside st (get_address alist_env st 6) 2 \<and>
    (get_address alist_env st 5 + 1 \<le> get_address alist_env st 6 \<or> get_address alist_env st 6 + 2 \<le> get_address alist_env st 5)"
proof -
  have "contents alist_env demo_object 6 = None" "version_of alist_env demo_object 6 = None"
    by (simp_all add: demo_object(3)) (simp add: version_of_def demo_object_def)
  then obtain st where st: "palloc_with_id alist_env True demo_object 6 [9, 9] = Some (False, st)" "sound alist_env [] st"
    "contents alist_env st = [5 \<mapsto> [7], 6 \<mapsto> [9, 9]]"
    using palloc_with_id_core [OF alist_env_ok demo_object(1,2), of "[9, 9]" True 6]
    by (auto simp: demo_object(3) demo_object_room max_data_def)
  have "contents alist_env st 5 = Some [7]" "contents alist_env st 6 = Some [9, 9]" "(5 :: u64) \<noteq> 6"
    by (simp_all add: st(3))
  from objects_do_not_overlap [OF okay_heap [OF st(2)] this] st(1) show ?thesis by (simp add: numeral_2_eq_2)
qed

theorem oversized_palloc_writes_outside_witness: "palloc alist_env True demo_heap (replicate 5000 0) = None"
  by (rule oversized_palloc_writes_outside [OF demo_heap(1,2)]) (simp_all add: max_data_def demo_heap_def demo_hdr_def)

section \<open>The log\<close>

theorem append_to_log_appends_witness:
  "\<exists>off st' A' P' Q'. append_to_log alist_env demo_heap demo_entry = Some (off, st') \<and> lists_ok (plog st') (segs st') A' \<and>
    layout_ok (plog st') (segs st') A' P' Q' \<and> (\<exists>s p. off = entry_off s p \<and> entries A' P' = {(s, p)} \<and>
      entry_id (mem (segs st') s) p = 5 \<and> entry_data (mem (segs st') s) p = [7])"
proof -
  note ok = state_okD(1) [OF demo_state_ok [of False]]
  have e: "e_length demo_entry = length (e_data demo_entry)" "0 < e_length demo_entry" "e_length demo_entry \<le> area_size - sizeof_entry"
    "e_id demo_entry = 5" "e_data demo_entry = [7]"
    by (simp_all add: demo_entry_def)
  have "has_room (plog demo_heap) demo_lists (e_length demo_entry)"
    by (simp add: has_room_def demo_lists_def)
  moreover have "entries demo_lists (\<lambda>_. []) = {}"
    by (simp add: entries_def)
  ultimately show ?thesis
    using append_to_log_appends [OF heap_okD(1-3) [OF ok] e(1-3), of alist_env] unfolding e(4,5) by (simp only: if_True) blast
qed


theorem check_consistency_counts_witness:
  "check_consistency demo_heap = Some (demo_heap\<lparr>consistent := True\<rparr>)"
  using check_consistency_counts [of demo_heap demo_lists] demo_lists_ok
  by (simp add: demo_heap_def demo_lists_def all_segs_def)


section \<open>The segment lists\<close>

lemma demo_cleaning_segs: "ids (segs demo_cleaning) 8320 = Some 2" "seg_data (segs demo_cleaning) 8320 = Some (2, 0, \<lambda>_. 0)"
  "ids (segs demo_cleaning) 4224 = Some 1" "seg_data (segs demo_cleaning) 4224 = Some (1, 0, \<lambda>_. 0)"
  "l_cleaner demo_cleaning_lists = [] @ 8320 # []" "l_used demo_cleaning_lists = [] @ 4224 # []"
  by (simp_all add: ids_def seg_data_def demo_cleaning_def demo_segs_def blank_seg_def demo_cleaning_lists_def)

theorem cleaned_segment_is_freed_witness:
  "\<exists>st'. append_cleaned_segment_to_free_segments alist_env 1 demo_cleaning = Some st' \<and>
    lists_ok (plog st') (segs st') (demo_cleaning_lists\<lparr>l_used := [], l_free := [4224]\<rparr>) \<and> used_segments_count (plog st') = 0"
  using cleaned_segment_is_freed [OF demo_cleaning_lists_ok _ demo_cleaning_segs(6,4), of alist_env]
  by (auto simp: demo_cleaning_held abs_release_def demo_cleaning_lists_def, simp add: demo_cleaning_def)


theorem used_count_drifts_witness:
  "\<exists>st1 st2 A2. append_cleaner_segment_to_used_segments alist_env 2 demo_cleaning = Some st1 \<and>
    append_cleaned_segment_to_free_segments alist_env 2 st1 = Some st2 \<and> lists_ok (plog st2) (segs st2) A2 \<and>
    l_used A2 = [4224] \<and> used_segments_count (plog st2) = 0"
  using used_count_drifts [OF demo_cleaning_lists_ok demo_cleaning_held _ demo_cleaning_segs(1), of "[]" alist_env] demo_cleaning_segs(5,6)
  by (auto, simp add: demo_cleaning_def)

section \<open>Recovery\<close>

lemma demo_no_cleaner: "cleaner_segments (plog demo_object) = 0"
  by (simp add: demo_object_def demo_heap_def demo_hdr_def)

theorem recovery_restores_objects_witness:
  "\<exists>st'. reconstruct_hash_table alist_env (crash alist_env demo_object) = Some st' \<and> sound alist_env [] st' \<and>
    contents alist_env st' = [5 \<mapsto> [7]]"
  using recovery_restores_objects [OF alist_env_ok demo_object(1) demo_no_cleaner] unfolding demo_object(3) by blast

theorem reconstruct_hangs_witness: "reconstruct_hash_table alist_env demo_cleaning = None"
  by (rule reconstruct_hangs) (simp add: demo_cleaning_def)

lemma pfree_plog: "pfree E st n = Some st' \<Longrightarrow> plog st' = plog st"
  by (auto simp: pfree_def access_simps write_area_def Let_def bind_eq_Some_conv remove_from_hash_table_def split: if_splits)

lemma demo_updated: "\<exists>st1. update_data alist_env True demo_object 5 [8, 9] = Some (False, st1) \<and> cleaner_segments (plog st1) = 0"
  by (simp add: update_data_def append_to_log_def write_head_def write_area_def demo_object_def demo_heap_def demo_hdr_def demo_segs_def
    get_from_hash_table_def access_simps Let_def entry_at_def seg_of_def add_to_hash_table_def demo_bytes blank_seg_def length_entry_bytes entry_off_def)

theorem freed_object_returns_witness:
  "\<exists>st1 st2 st3. update_data alist_env True demo_object 5 [8, 9] = Some (False, st1) \<and> pfree alist_env st1 5 = Some st2 \<and>
    reconstruct_hash_table alist_env (crash alist_env st2) = Some st3 \<and>
    contents alist_env st2 5 = None \<and> contents alist_env st3 5 \<noteq> None"
proof -
  obtain st1 where st1: "update_data alist_env True demo_object 5 [8, 9] = Some (False, st1)" "cleaner_segments (plog st1) = 0"
    using demo_updated by blast
  have u: "contents alist_env demo_object 5 \<noteq> None" "room demo_object (length [8 :: byte, 9])" "[8 :: byte, 9] \<noteq> []" "length [8 :: byte, 9] \<le> max_data"
    using demo_object(3) demo_object_room by (simp_all add: max_data_def)
  obtain st1' where "update_data alist_env True demo_object 5 [8, 9] = Some (False, st1')" "sound alist_env [] st1'"
    "contents alist_env st1' = [5 \<mapsto> [8, 9]]"
    using update_core [OF alist_env_ok demo_object(1,2) u(3,4,1), of True] u(2) demo_version by (auto simp: demo_object(3))
  then have s1: "heap alist_env [] st1" "contents alist_env st1 5 \<noteq> None"
    using st1(1) okay_heap by auto
  obtain st2 where st2: "pfree alist_env st1 5 = Some st2" "heap alist_env [] st2"
    using pfree_core [OF alist_env_ok s1] by blast
  have c2: "cleaner_segments (plog st2) = 0"
    using pfree_plog [OF st2(1)] st1(2) by simp
  obtain st3 where st3: "reconstruct_hash_table alist_env (crash alist_env st2) = Some st3"
    using recover_core [OF alist_env_ok st2(2) c2] by blast
  from freed_object_returns [OF alist_env_ok demo_object(1,2) u(3,4,1,2) st1(1) st2(1) c2 st3] show ?thesis
    using st1(1) st2(1) st3 by blast
qed

section \<open>The threads and the program\<close>

theorem thread_resumes_witness:
  "\<exists>c. start_cleaner alist_env True 8320 demo_cleaning = Some (c, demo_cleaning) \<and> cl_seg c = 8320 \<and> sound alist_env [c] demo_cleaning"
  by (rule thread_resumes [OF demo_cleaning_state_ok _ demo_cleaning_held])
    (simp_all add: demo_cleaning_lists_def settled_def)



lemma demo_step: "step alist_env ([], demo_heap) (Command (Put 5 [7]) (Error False)) ([], demo_object)"
  by (rule step.command) (simp_all add: demo_heap(3) max_data_def demo_palloc)




section \<open>Opening and closing\<close>

lemma demo_env: "sys_ok demo_sys" "io_ok demo_io"
  by (simp_all add: demo_sys_def sys_ok_def demo_io_def io_ok_def)

lemma demo_initialized: "is_log_initialized demo_object" "is_log_initialized demo_heap"
  by (simp_all add: is_log_initialized_def demo_object_def demo_heap_def demo_hdr_def)

theorem restart_keeps_objects_witness:
  "\<exists>failed file' st1 threads st2. delete_pmem alist_env demo_sys demo_io None demo_object = Some (failed, file', st1) \<and>
    init_pmem alist_env demo_sys demo_io file' st1 = Some (False, {Res_fd, Res_path, Res_map}, threads, st2) \<and>
    sound alist_env [] st2 \<and> contents alist_env st2 = [5 \<mapsto> [7]]"
  using restart_keeps_objects [OF alist_env_ok demo_object(1) demo_env(2,2,1) demo_initialized(1), of demo_sys None True]
  by (simp add: demo_object(3))

theorem stale_index_returns_witness:
  "\<exists>failed st1 threads st2. delete_pmem alist_env demo_sys demo_io (Some (saved [(5, 152)])) demo_heap = Some (failed, Some (saved [(5, 152)]), st1) \<and>
    init_pmem alist_env demo_sys demo_io (Some (saved [(5, 152)])) st1 = Some (False, {Res_fd, Res_path, Res_map}, threads, st2) \<and>
    index alist_env st2 = [5 \<mapsto> 152]"
  using stale_index_returns [OF alist_env_ok demo_heap(1) demo_env(2,1) demo_initialized(2) demo_heap(3), of "[(5, 152)]" demo_sys demo_io]
  by simp


theorem index_round_trip_witness:
  "\<exists>f h. persist_hash_table alist_env demo_io demo_object None = Some (False, {}, Some f) \<and>
    get_persisted_hash_table alist_env demo_io demo_heap (Some f) = Some (False, {}, Some f, demo_heap\<lparr>hash_table := h\<rparr>) \<and>
    gh_map alist_env h = [5 \<mapsto> 152]"
  using index_round_trip [OF alist_env_ok demo_env(2,2), of demo_object demo_heap None]
  by (simp add: demo_object_def demo_heap_def fun_eq_iff)


theorem unsaved_index_is_replaced_witness:
  "\<exists>failed st1 threads st2.
    delete_pmem alist_env demo_sys (demo_io\<lparr>io_open := False\<rparr>) (Some (saved [(9, 152)])) demo_object = Some (failed, Some (saved [(9, 152)]), st1) \<and>
    init_pmem alist_env demo_sys demo_io (Some (saved [(9, 152)])) st1 = Some (False, {Res_fd, Res_path, Res_map}, threads, st2) \<and>
    index alist_env st2 = [9 \<mapsto> 152]"
  using unsaved_index_is_replaced [OF alist_env_ok demo_object(1) demo_env(2,1) demo_initialized(1),
    of "demo_io\<lparr>io_open := False\<rparr>" "[(9, 152)]" demo_sys]
  by (simp add: demo_io_def)

lemma demo_object_entries: "gh_entries alist_env (hash_table demo_object) = [(5, 152)]"
  by (simp add: demo_object_def alist_env_def)



section \<open>Threads and clients in any order\<close>

lemma demo_ordered: "ordered alist_env [(Visit 0, \<lparr>cl_seg = 8320, cl_pos = 0\<rparr>)] demo_cleaning"
  by (rule orderedI [of _ _ _ demo_cleaning_lists "\<lambda>_. []" "\<lambda>_. 0"])
    (use demo_cleaning_state_ok [of True] in \<open>simp_all add: demo_cleaning_held threads_at_def cleaner_at_def demo_cleaning_lists_def\<close>)

lemma demo_cleaning_put: "\<exists>st'. palloc_with_id alist_env True demo_cleaning 5 [7] = Some (False, st')"
  by (simp add: palloc_with_id_def append_to_log_def write_head_def write_area_def demo_cleaning_def demo_heap_def demo_hdr_def demo_segs_def
    hash_table_contains_def access_simps Let_def entry_off_def add_to_hash_table_def blank_seg_def length_entry_bytes)


lemma demo_heap_ordered: "ordered alist_env [] demo_heap"
  by (simp add: ordered_sound demo_sound)



lemma demo_race_ordered:
  "ordered alist_env [(Mark 4224, \<lparr>cl_seg = 8320, cl_pos = 0\<rparr>), (Release 4224 0, \<lparr>cl_seg = 12416, cl_pos = 0\<rparr>)] demo_race"
proof (rule orderedI)
  show "state_ok True alist_env demo_race demo_race_lists (\<lambda>_. []) (\<lambda>_. 0)
     (\<Union> (gone (\<lambda>_. []) ` fst ` set [(Mark 4224, \<lparr>cl_seg = 8320, cl_pos = 0\<rparr>), (Release 4224 0, \<lparr>cl_seg = 12416, cl_pos = 0\<rparr>)]))
     (\<Union> (busy ` fst ` set [(Mark 4224, \<lparr>cl_seg = 8320, cl_pos = 0\<rparr>), (Release 4224 0, \<lparr>cl_seg = 12416, cl_pos = 0\<rparr>)]))"
    using state_ok_mono [OF demo_race_state_ok [of True], of "{4224}"] by simp
qed (simp_all add: demo_race_def demo_cleaning_def demo_heap_def is_noted_def ids_def demo_segs_def blank_seg_def threads_at_def
    cleaner_at_def demo_race_lists_def all_segs_def)

theorem stale_segment_deadlocks_witness:
  "\<exists>ts st'. schedule alist_env [1, 1, 0, 0, 0]
      [(Mark 4224, \<lparr>cl_seg = 8320, cl_pos = 0\<rparr>), (Release 4224 0, \<lparr>cl_seg = 12416, cl_pos = 0\<rparr>)] demo_race = Some (ts, st') \<and>
    held st' = {Used_segs} \<and> append_head_to_used alist_env st' = None"
  using stale_segment_deadlocks [OF alist_env_ok demo_race_ordered] by blast

section \<open>The example program\<close>

theorem main_crashes_on_new_file_witness: "main alist_env demo_sys demo_io None demo_blank = None"
  by (rule main_crashes_on_new_file [OF alist_env_ok demo_env(1)])
    (simp_all add: demo_blank_def is_log_initialized_def LOG_SIGNATURE_def demo_heap_def demo_hdr_def)

end
