(* ===== verification/Spec2Isabelle.thy ===== *)
theory Spec2Isabelle
  imports Witnesses
begin

text \<open>
  A log-structured heap in persistent memory.

  \<^bold>\<open>The program.\<close>  The C library under \<^verbatim>\<open>src/project\<close> keeps objects, named by 64 bit ids,
  in a file that is mapped into memory.  The file is a header and segments of 4096 bytes.  Objects are
  appended as entries (id, version, length, deletion mark, data) to the head segment; full segments
  go to a list of used segments, and cleaner threads move the live entries of sparsely used segments to
  segments of their own and give the emptied ones back to the free segments.  A volatile hash table, the
  index, maps ids to the offsets of their newest entries.  It is saved to a second file when the heap is
  closed and loaded when it is opened again; after a crash it is reconstructed from the log.
  The parts call each other in one direction: \<^verbatim>\<open>log_pmem.c\<close> (the interface) uses
  \<^verbatim>\<open>log.c\<close> (the log), \<^verbatim>\<open>hash_table.c\<close> (the index) and \<^verbatim>\<open>cleaner.c\<close> (the
  threads), and the cleaner uses the log's lists and the index.

  \<^bold>\<open>The state.\<close>  \<^verbatim>\<open>pmem_t\<close> is the record \<open>pmem\<close>: the header \<open>plog\<close>
  (\<^verbatim>\<open>log_t\<close>), the segments \<open>segs\<close> as a map from file offsets to records
  (\<^verbatim>\<open>segment_t\<close>), the two hash tables, the flag \<open>consistent\<close>, the mutexes that are held, and what
  \<^verbatim>\<open>persist\<close> has made durable.  The entry area of a segment is a byte memory, in which the entries
  are read and written field by field.  A pointer is an offset into the file, 0 is NULL.  The ids and the
  used spaces are 64 bit words and wrap around; positions inside a segment are natural numbers, and every
  access is checked to stay inside the segment.  A function that follows NULL or a wild pointer, writes
  outside a segment, locks a mutex that is held or never returns has the result \<open>None\<close>; so a
  theorem that a run is \<open>Some\<close> says that none of this happens.  GLib's hash table and libpmem2 are the
  parameter \<open>E\<close> (record \<open>env\<close>), with GLib's documented behaviour as the hypothesis
  \<open>glib_ok\<close>; the results of system calls and \<^verbatim>\<open>malloc\<close> are arguments.

  \<^bold>\<open>The theories that translate the code.\<close>
  \<^item> \<open>Pmem_Types\<close>: \<^verbatim>\<open>log_pmem_types.h\<close>, the records, the access to the state and to entries.
  \<^item> \<open>Log\<close>: \<^verbatim>\<open>log.c\<close> (\<open>init_log\<close>, \<open>append_to_log\<close>, the change of the head
    segment, \<open>gen_id\<close>, \<open>check_consistency\<close>).
  \<^item> \<open>Hash_Table\<close>: \<^verbatim>\<open>hash_table.c\<close> (the index, its reconstruction, its file and the
    error paths of the calls on it).
  \<^item> \<open>Cleaner\<close>: \<^verbatim>\<open>cleaner.c\<close> (taking, retiring and releasing segments, cleaning a segment, a pass,
    the creation and the start of the threads).
  \<^item> \<open>Cleaner_Steps\<close>: the thread function \<^verbatim>\<open>clean\<close> once more, as steps between which other threads run
    (\<open>thread_step\<close>), and a proof that a thread that is alone does what \<open>clean_pass\<close> says.
  \<^item> \<open>Log_Pmem\<close>: \<^verbatim>\<open>log_pmem.c\<close> (\<open>palloc\<close>, \<open>palloc_with_id\<close>, \<open>update_data\<close>,
    \<open>pfree\<close>, \<open>get_address\<close>, \<open>init_pmem\<close>, \<open>delete_pmem\<close>).
  \<^item> \<open>Dump\<close>: \<^verbatim>\<open>main.c\<close>, with its properties.

  \<^bold>\<open>The theories that prove.\<close>
  \<^item> \<open>Prelude\<close>: byte memories, 64 bit fields, reads through writes.
  \<^item> \<open>Seg_Lists\<close>, \<open>Cleaner_Lists\<close>, \<open>Segment_Pool\<close>: the five linked lists.  \<open>lists_ok\<close>
    relates the header to five disjoint abstract lists (record \<open>lists\<close>); each operation on the links
    refines an operation on these, and no sequence of them loses or duplicates a segment.
  \<^item> \<open>Log_Props\<close>: fresh ids, the first start, counting segments.
  \<^item> \<open>Heap\<close>, \<open>Heap_Index\<close>, \<open>Heap_Map\<close>: the heap.  \<open>layout_ok\<close> says where the entries of
    each segment lie; \<open>heap_ok\<close> adds that the index points to unmarked entries, and then
    \<open>contents\<close> is the map from ids to data that the heap stores.  \<open>tidy\<close> and \<open>used_ok\<close> say
    that the index points to the newest entries and that the used spaces count exactly these.
    \<open>heap\<close> is what every operation keeps, \<open>sound\<close> what orderly use keeps as well.
  \<^item> \<open>Recovery\<close>, \<open>Restart\<close>: the reconstruction, saving and loading, the first start.
  \<^item> \<open>Cleaning\<close>, \<open>Threads\<close>: cleaning a segment keeps every object; how threads start and resume.
  \<^item> \<open>Simulation\<close>: the contract between an implementation and its clients as a locale, with what it gives
    for runs of commands.  It is interpreted on the segment lists (\<open>Segment_Pool\<close>) and on the
    interface of the heap (\<open>Object_Store\<close>, for every hash table that meets the locale \<open>glib\<close>).
  \<^item> \<open>Machine\<close>: the running program as a step relation in which the cleaning of a segment is one step, its
    invariant, and the objects it stores.
  \<^item> \<open>Concurrent\<close>: the same with the steps of \<open>Cleaner_Steps\<close>, in any order with each other and with
    the commands.  \<open>busy\<close>, \<open>marked\<close> and \<open>gone\<close> say what a thread has done so far; \<open>ordered\<close> is
    the invariant: no two threads have marked one segment, the entries they have dealt with may go, everything else
    is as in \<open>sound\<close>.  A thread that is stopped at the head of its loop leaves a heap that is \<open>sound\<close>.
  \<^item> \<open>Demo\<close>, \<open>Witnesses\<close>: concrete heaps at which the hypotheses of the properties hold.

  \<^bold>\<open>What the theorems show.\<close>  The interface of a safe heap implements a finite map: every run of commands returns,
  no access leaves the log, no lock stays held, and the replies are those of the map.  Crashes, cleaning
  and new threads change no object, as long as clients free only objects that have never been updated
  and updates find room.  This holds as well for threads and clients that take turns at every step, if a
  thread only marks segments that are still used, and through closing and opening the heap.  Objects lie inside
  their segments and do not overlap.  Without these provisos the code loses the property, and theorems show how: freed
  objects return after a crash, a failed update leaves an object uncounted, a resumed thread writes
  over live entries, the reconstruction does not end when there is a cleaner segment, a saved index
  of an earlier run is loaded again, two threads that choose one segment block all others for ever, and data that does not fit is written outside its segment.

  \<^bold>\<open>Bounds.\<close>  Loops over lists that the code does not bound are \<open>partial_function (option)\<close> or
  \<open>while_option\<close>, so that a loop that does not end is \<open>None\<close>; loops over the entries of a segment
  end because every entry has at least 32 bytes, which their measures use.  There is no fuel.
  \<open>max_data\<close> is the largest object a segment holds.  The size of an entry is computed without
  wrap-around: \<^verbatim>\<open>size_t\<close> sums of lengths up to a segment's size do not wrap.

  \<^bold>\<open>Not modelled.\<close>
  \<^item> The order in which stores become durable: a crash loses the index and the locks and nothing else, and it
    falls between two operations.  \<^verbatim>\<open>persist\<close> is recorded but no theorem depends on it.
  \<^item> Interleavings inside a step: a command of the interface, the copying of one entry and the release of a segment
    are single steps.  The first two hold \<^verbatim>\<open>update_move_mutex\<close> (\<^verbatim>\<open>palloc\<close> does not), the last the
    mutex of the used segments.  \<^verbatim>\<open>clean\<close> reads the list of used segments and the used space of a segment
    without a lock; here such a read is a step.
  \<^item> Time: a thread that sleeps until there is a segment or enough to clean is one that takes no step, and what the
    threads do while the heap is being opened is left out.  Cancellation is that a thread takes no further step.
  \<^item> The last seven bytes that \<^verbatim>\<open>append_to_log\<close> copies for an entry come from uninitialised memory of the
    caller's buffer (the struct is 32 bytes, its data starts at 25); the model copies zeros.  Nothing reads them.
  \<^item> The tests (\<^verbatim>\<open>test.c\<close>, \<^verbatim>\<open>test_big.c\<close>) and the vendored benchmark.
\<close>

end
